(* ===== verification/Prelude.thy ===== *)
theory Prelude
  imports Main "HOL-Library.Word" "HOL-Library.Monad_Syntax"
begin

unbundle bit_operations_syntax

text \<open>
  Shared vocabulary of the development: the widths of the C integer types the
  modelled files use (a 32-bit ARM kernel, little endian), the error numbers
  they return, the ways kernel code can crash, the memory copy primitive, and
  the generic facts on lists, words and step relations that the component
  theories build on.  A name of the source that starts with two underscores is
  written with the prefix \<open>uu_\<close>.
\<close>

section \<open>Machine types\<close>

type_synonym u8 = "8 word"
type_synonym u16 = "16 word"
type_synonym u32 = "32 word"

section \<open>Errors and crashes\<close>

text \<open>
  The error numbers of \<^verbatim>\<open>include/asm-generic/errno-base.h\<close> and
  \<^verbatim>\<open>errno.h\<close> that the modelled functions return as negative values.
\<close>

datatype errno =
    EPERM | ENOENT | EINTR | E2BIG | EAGAIN | ENOMEM | EACCES | EFAULT | EBUSY
  | EEXIST | EINVAL | EFBIG | ENOSPC | ERANGE | EDEADLK | ENOLCK | ENODATA | EIDRM | EOVERFLOW
  | ENOMSG | EMSGSIZE | ENOSYS | ESRCH | EOPNOTSUPP

text \<open>
  What goes wrong when the kernel itself misbehaves: a failed \<^verbatim>\<open>BUG_ON\<close>, an
  access outside a buffer, an index outside an array, a null or dangling pointer, a list node queued twice,
  a division by zero or a shift by at least the width of the operand (undefined
  in C).
\<close>

datatype crash =
  Bug | Out_of_bounds | Bad_index | Null_deref | Dangling | Corrupt_list | Div_by_zero | Undefined_shift

section \<open>Collections of facts\<close>

named_theorems ring_simps \<open>index arithmetic of ring buffers\<close>
named_theorems errno_simps \<open>which branch of an operation returns an error\<close>

section \<open>Copying memory\<close>

text \<open>
  \<^verbatim>\<open>memcpy(dst + d, src + s, n)\<close>.  A copy that leaves one of the two objects is
  \<^term>\<open>None\<close>; a copy of no bytes touches neither.
\<close>

definition memcpy :: "'a list \<Rightarrow> nat \<Rightarrow> 'a list \<Rightarrow> nat \<Rightarrow> nat \<Rightarrow> 'a list option" where
  "memcpy dst d src s n =
     (if n = 0 then Some dst
      else if d + n \<le> length dst \<and> s + n \<le> length src
      then Some (take d dst @ take n (drop s src) @ drop (d + n) dst)
      else None)"

lemma memcpy_length: "memcpy dst d src s n = Some r \<Longrightarrow> length r = length dst"
  by (auto simp: memcpy_def split: if_splits)

lemma memcpy_Some_iff:
  "(\<exists>r. memcpy dst d src s n = Some r) \<longleftrightarrow> n = 0 \<or> d + n \<le> length dst \<and> s + n \<le> length src"
  by (simp add: memcpy_def)

lemma memcpy_nth:
  assumes "memcpy dst d src s n = Some r" "i < length dst"
  shows "r ! i = (if d \<le> i \<and> i < d + n then src ! (s + (i - d)) else dst ! i)"
proof (cases "n = 0")
  case True
  with assms show ?thesis by (auto simp: memcpy_def)
next
  case False
  with assms have b: "d + n \<le> length dst" "s + n \<le> length src"
    and r: "r = take d dst @ take n (drop s src) @ drop (d + n) dst"
    by (auto simp: memcpy_def split: if_splits)
  then have l: "length (take d dst) = d" "length (take n (drop s src)) = n" by auto
  consider "i < d" | "d \<le> i" "i < d + n" | "d + n \<le> i" by linarith
  then show ?thesis
    using b l assms(2) unfolding r by cases (auto simp: nth_append)
qed

text \<open>A copy is the copy of its bytes one after another.\<close>

lemma memcpy_one:
  "memcpy dst d src s 1 = (if d < length dst \<and> s < length src then Some (dst[d := src ! s]) else None)"
proof (cases "d < length dst \<and> s < length src")
  case True
  then obtain b where b: "memcpy dst d src s 1 = Some b"
    using memcpy_Some_iff [of dst d src s 1] by auto
  have "b = dst[d := src ! s]"
    using memcpy_nth [OF b] memcpy_length [OF b] by (intro nth_equalityI) (auto simp: nth_list_update)
  with b True show ?thesis by simp
qed (auto simp: memcpy_def)

lemma memcpy_Suc:
  "memcpy dst d src s (Suc n) = memcpy dst d src s n \<bind> (\<lambda>b. memcpy b (d + n) src (s + n) 1)"
proof (cases "d + Suc n \<le> length dst \<and> s + Suc n \<le> length src")
  case True
  then have le: "d + n \<le> length dst" "s + n \<le> length src" "d + n < length dst" "s + n < length src" by auto
  then obtain b where b: "memcpy dst d src s n = Some b"
    using memcpy_Some_iff [of dst d src s n] by blast
  obtain c where c: "memcpy dst d src s (Suc n) = Some c"
    using memcpy_Some_iff [of dst d src s "Suc n"] True by blast
  have "c = b[d + n := src ! (s + n)]"
    using memcpy_nth [OF c] memcpy_nth [OF b] memcpy_length [OF b] memcpy_length [OF c] le
    by (intro nth_equalityI) (auto simp: nth_list_update less_Suc_eq)
  then show ?thesis using b c le memcpy_length [OF b] memcpy_one [of b "d + n" src "s + n"] by simp
next
  case False
  then show ?thesis
    using memcpy_length [of dst d src s n]
    by (cases "memcpy dst d src s n")
      (auto simp: memcpy_one [simplified] memcpy_def [of dst d src s "Suc n"])
qed

section \<open>Fallible operations and raw memory\<close>

text \<open>
  Operations that may crash return \<^typ>\<open>crash + 'a\<close>, operations that may fail
  \<^typ>\<open>errno + 'a\<close>; \<open>bindE\<close> runs the rest of an operation on the result.
\<close>

definition bindE :: "'e + 'a \<Rightarrow> ('a \<Rightarrow> 'e + 'b) \<Rightarrow> 'e + 'b" where
  "bindE m f = (case m of Inl e \<Rightarrow> Inl e | Inr x \<Rightarrow> f x)"

lemma bindE_simps [simp]:
  "bindE (Inl e) f = Inl e"
  "bindE (Inr x) f = f x"
  by (simp_all add: bindE_def)

lemma bindE_Inr_iff [simp]: "bindE m f = Inr y \<longleftrightarrow> (\<exists>x. m = Inr x \<and> f x = Inr y)"
  by (cases m) simp_all

lemma bindE_Inl_iff: "bindE m f = Inl e \<longleftrightarrow> m = Inl e \<or> (\<exists>x. m = Inr x \<and> f x = Inl e)"
  by (cases m) simp_all

lemma bindE_cong [fundef_cong]:
  "m = m' \<Longrightarrow> (\<And>x. m' = Inr x \<Longrightarrow> f x = f' x) \<Longrightarrow> bindE m f = bindE m' f'"
  by (cases m') simp_all

text \<open>
  The \<open>n\<close> bytes of a buffer from position \<open>i\<close> on, and the buffer with \<open>bs\<close>
  written from position \<open>i\<close> on.  An access of no bytes touches nothing.
\<close>

definition mem_read :: "u8 list \<Rightarrow> int \<Rightarrow> int \<Rightarrow> crash + u8 list" where
  "mem_read buf i n =
     (if n = 0 then Inr []
      else if 0 \<le> i \<and> 0 < n \<and> i + n \<le> int (length buf)
      then Inr (take (nat n) (drop (nat i) buf))
      else Inl Out_of_bounds)"

definition mem_write :: "u8 list \<Rightarrow> int \<Rightarrow> u8 list \<Rightarrow> crash + u8 list" where
  "mem_write buf i bs =
     (if bs = [] then Inr buf
      else if 0 \<le> i \<and> i + int (length bs) \<le> int (length buf)
      then Inr (take (nat i) buf @ bs @ drop (nat i + length bs) buf)
      else Inl Out_of_bounds)"

lemma mem_read_ok:
  "0 \<le> i \<Longrightarrow> 0 \<le> n \<Longrightarrow> i + n \<le> int (length buf) \<Longrightarrow>
   mem_read buf i n = Inr (take (nat n) (drop (nat i) buf))"
  by (simp add: mem_read_def)

lemma mem_write_ok:
  "length bs = n \<Longrightarrow> mem_write (xs @ old @ ys) (int (length xs)) bs = Inr (xs @ bs @ ys)"
  if "length old = n"
  using that by (auto simp: mem_write_def)

lemma mem_write_length: "mem_write buf i bs = Inr buf' \<Longrightarrow> length buf' = length buf"
  by (auto simp: mem_write_def split: if_splits)

section \<open>Arrays and loops\<close>

text \<open>
  An array indexed by a C \<^verbatim>\<open>int\<close>, and operations that may crash or may not return:
  \<^term>\<open>None\<close> is a run that never ends, and \<open>bindR\<close> continues a run that did.
\<close>

definition arr_read :: "'a list \<Rightarrow> int \<Rightarrow> crash + 'a" where
  "arr_read xs i = (if 0 \<le> i \<and> i < int (length xs) then Inr (xs ! nat i) else Inl Out_of_bounds)"

lemma arr_read_ok: "0 \<le> i \<Longrightarrow> i < int (length xs) \<Longrightarrow> arr_read xs i = Inr (xs ! nat i)"
  by (simp add: arr_read_def)

definition bindR :: "('e + 'a) option \<Rightarrow> ('a \<Rightarrow> ('e + 'b) option) \<Rightarrow> ('e + 'b) option" where
  "bindR m f = (case m of None \<Rightarrow> None | Some (Inl e) \<Rightarrow> Some (Inl e) | Some (Inr x) \<Rightarrow> f x)"

lemma bindR_simps [simp]:
  "bindR None f = None"
  "bindR (Some (Inl e)) f = Some (Inl e)"
  "bindR (Some (Inr x)) f = f x"
  by (simp_all add: bindR_def)

text \<open>Evaluating a run does not look into what follows before the first part has returned.\<close>

lemma bindR_weak_cong: "m = m' \<Longrightarrow> bindR m f = bindR m' f"
  by simp

lemma bindR_mono [partial_function_mono]:
  assumes "mono_option B" "\<And>x. mono_option (\<lambda>f. C x f)"
  shows "mono_option (\<lambda>f. bindR (B f) (\<lambda>x. C x f))"
proof -
  have "mono_option (\<lambda>f. Option.bind (B f)
      (\<lambda>r. case r of Inl e \<Rightarrow> Some (Inl e) | Inr x \<Rightarrow> C x f))"
  proof (intro bind_mono assms(1))
    show "mono_option (\<lambda>f. case r of Inl e \<Rightarrow> Some (Inl e) | Inr x \<Rightarrow> C x f)" for r
      by (cases r) (simp_all add: assms(2) option.const_mono)
  qed
  moreover have "bindR (B f) (\<lambda>x. C x f) = Option.bind (B f)
      (\<lambda>r. case r of Inl e \<Rightarrow> Some (Inl e) | Inr x \<Rightarrow> C x f)" for f
    by (cases "B f") (auto simp: bindR_def split: sum.split)
  ultimately show ?thesis by simp
qed

text \<open>Indexing and updating the concatenation of blocks of one size.\<close>

lemma length_concat_blocks:
  "\<forall>xs\<in>set xss. length xs = n \<Longrightarrow> length (concat xss) = length xss * n"
  by (induction xss) simp_all

lemma nth_concat_blocks:
  assumes "\<forall>xs\<in>set xss. length xs = n" "i < length xss * n"
  shows "concat xss ! i = xss ! (i div n) ! (i mod n)"
  using assms
proof (induction xss arbitrary: i)
  case (Cons xs xss)
  have n: "0 < n" using Cons.prems by (cases n) auto
  show ?case
  proof (cases "i < n")
    case False
    then have "i - n < length xss * n" using Cons.prems(2) by simp
    moreover have "i div n = Suc ((i - n) div n)" "i mod n = (i - n) mod n"
      using False n by (simp_all add: le_div_geq le_mod_geq)
    ultimately show ?thesis using Cons False by (simp add: nth_append)
  qed (use Cons.prems in \<open>simp add: nth_append\<close>)
qed simp

lemma concat_update_block:
  assumes "\<forall>xs\<in>set xss. length xs = n" "i < length xss * n"
  shows "concat (xss[i div n := (xss ! (i div n))[i mod n := v]]) = (concat xss)[i := v]"
  using assms
proof (induction xss arbitrary: i)
  case (Cons xs xss)
  have n: "0 < n" using Cons.prems by (cases n) auto
  show ?case
  proof (cases "i < n")
    case False
    then have "i - n < length xss * n" using Cons.prems(2) by simp
    moreover have "i div n = Suc ((i - n) div n)" "i mod n = (i - n) mod n"
      using False n by (simp_all add: le_div_geq le_mod_geq)
    ultimately show ?thesis using Cons False by (simp add: list_update_append)
  qed (use Cons.prems in \<open>simp add: list_update_append\<close>)
qed simp

lemma drop_concat_block:
  assumes "\<forall>xs\<in>set xss. length xs = n" "j < length xss"
  shows "drop (j * n) (concat xss) = xss ! j @ drop (Suc j * n) (concat xss)"
  using assms
proof (induction xss arbitrary: j)
  case (Cons xs xss)
  then show ?case by (cases j) simp_all
qed simp

lemma concat_replace_block:
  assumes "\<forall>xs\<in>set xss. length xs = n" "j < length xss" "length ys \<le> n"
  shows "concat (xss[j := ys @ drop (length ys) (xss ! j)]) =
         take (j * n) (concat xss) @ ys @ drop (j * n + length ys) (concat xss)"
  using assms
proof (induction xss arbitrary: j)
  case (Cons xs xss)
  then show ?case by (cases j) (simp_all add: add.assoc)
qed simp

section \<open>Powers of two\<close>

lemma nat_and_dec_power2:
  "0 < n \<Longrightarrow> n AND (n - 1) = 0 \<Longrightarrow> \<exists>k. n = 2 ^ k" for n :: nat
proof (induction n rule: less_induct)
  case (less n)
  show ?case
  proof (cases "even n")
    case True
    then obtain m where m: "n = 2 * m" by (elim evenE)
    with less.prems have pos: "0 < m" by simp
    have "n AND (n - 1) = 2 * (m AND (m - 1))"
      using pos by (subst and_rec) (simp add: m div_mult_self1_is_m, cases m; simp)
    with less.prems(2) have "m AND (m - 1) = 0" by simp
    with less.IH[of m] pos m obtain k where "m = 2 ^ k" by auto
    with m have "n = 2 ^ Suc k" by simp
    then show ?thesis by blast
  next
    case False
    then obtain m where m: "n = 2 * m + 1" by (elim oddE)
    have "n AND (n - 1) = 2 * m"
      by (subst and_rec) (simp add: m)
    with less.prems(2) m have "n = 2 ^ 0" by simp
    then show ?thesis by blast
  qed
qed

lemma nat_power2_and_dec: "(2 ^ k :: nat) AND (2 ^ k - 1) = 0"
proof -
  have "(2 ^ k :: nat) AND mask k = take_bit k (2 ^ k)" by (simp add: take_bit_eq_mask)
  also have "\<dots> = 0" by (simp add: take_bit_eq_mod)
  finally show ?thesis by (simp add: mask_eq_exp_minus_1)
qed

lemma unat_and: "unat (a AND b) = unat a AND unat (b :: 'a::len word)"
  by (simp add: unsigned_and_eq)

lemma unat_exp: "k < LENGTH('a) \<Longrightarrow> unat (2 ^ k :: 'a::len word) = 2 ^ k"
  using unat_of_nat[of "2 ^ k", where ?'a = 'a] by (simp add: take_bit_nat_eq_self)

lemma word_power2_iff:
  "n \<noteq> 0 \<and> n AND (n - 1) = 0 \<longleftrightarrow> (\<exists>k<LENGTH('a). unat n = 2 ^ k)" for n :: "'a::len word"
proof
  assume n: "n \<noteq> 0 \<and> n AND (n - 1) = 0"
  then have pos: "0 < unat n" by (simp add: unat_gt_0)
  have "unat n - 1 = unat (n - 1)" using n by (simp add: unat_minus_one)
  with n have "unat n AND (unat n - 1) = 0" by (simp only: unat_and [symmetric] unat_0)
  from nat_and_dec_power2[OF pos this] obtain k where k: "unat n = 2 ^ k" by blast
  moreover have "k < LENGTH('a)"
    using unsigned_less[of n, where ?'a = nat] k by (metis power_strict_increasing_iff one_less_numeral_iff semiring_norm(76))
  ultimately show "\<exists>k<LENGTH('a). unat n = 2 ^ k" by blast
next
  assume "\<exists>k<LENGTH('a). unat n = 2 ^ k"
  then obtain k where k: "unat n = 2 ^ k" by blast
  then have nz: "n \<noteq> 0" by (metis power_not_zero unat_0 zero_neq_numeral)
  have "unat (n AND (n - 1)) = 0"
    using nz nat_power2_and_dec[of k] by (simp add: unat_and unat_minus_one k)
  with nz show "n \<noteq> 0 \<and> n AND (n - 1) = 0" by (simp add: unat_eq_zero)
qed

lemma unat_and_power2_dec:
  "unat n = 2 ^ k \<Longrightarrow> unat (x AND (n - 1)) = unat x mod unat n" for n :: "'a::len word"
proof -
  assume k: "unat n = 2 ^ k"
  then have nz: "n \<noteq> 0" by (metis power_not_zero unat_0 zero_neq_numeral)
  have "unat (x AND (n - 1)) = unat x AND mask k"
    using nz by (simp add: unat_and unat_minus_one k mask_eq_exp_minus_1)
  then show ?thesis by (simp add: k take_bit_eq_mask [symmetric] take_bit_eq_mod)
qed

section \<open>Ring buffers\<close>

lemma mod_add_wrap:
  fixes S :: nat
  assumes "a < S"
  shows "(p + a) mod S = (if a < S - p mod S then p mod S + a else p mod S + a - S)"
proof -
  have pS: "p mod S < S" using assms by simp
  have "(p + a) mod S = (p mod S + a) mod S" by (simp add: mod_add_left_eq)
  also have "\<dots> = (if p mod S + a < S then p mod S + a else p mod S + a - S)"
  proof (cases "p mod S + a < S")
    case False
    then have "(p mod S + a) mod S = (p mod S + a - S) mod S" by (simp add: le_mod_geq)
    moreover have "p mod S + a - S < S" using pS assms by linarith
    ultimately show ?thesis using False by simp
  qed simp
  finally show ?thesis using pS by auto
qed

text \<open>
  The two halves of a copy into a ring of \<open>S\<close> slots that starts at index \<open>p\<close>: up
  to the end of the ring, then from its beginning.
\<close>

lemma ring_copy_first [ring_simps]:
  assumes "memcpy buf (p mod S) src 0 l = Some b" "length buf = S" "l \<le> S - p mod S" "a < S"
  shows "b ! ((p + a) mod S) = (if a < l then src ! a else buf ! ((p + a) mod S))"
proof -
  have "(p + a) mod S < S" using assms(4) by simp
  then show ?thesis
    using memcpy_nth[OF assms(1), of "(p + a) mod S"] assms(2,3,4)
    by (auto simp: mod_add_wrap)
qed

lemma ring_copy_rest [ring_simps]:
  assumes "memcpy buf 0 src l (n - l) = Some b" "length buf = S" "l = min n (S - p mod S)"
    "n \<le> S" "a < S"
  shows "b ! ((p + a) mod S) = (if l \<le> a \<and> a < n then src ! a else buf ! ((p + a) mod S))"
proof -
  have "(p + a) mod S < S" "p mod S < S" using assms(5) by auto
  then show ?thesis
    using memcpy_nth[OF assms(1), of "(p + a) mod S"] assms(2-5)
    by (auto simp: mod_add_wrap min_def split: if_splits)
qed

section \<open>Signed readings\<close>

lemma sint_u32: "sint x = signed_take_bit 31 (uint x)" for x :: u32
  unfolding sint_uint by (rule arg_cong [where f = "\<lambda>n. signed_take_bit n (uint x)"]) simp

lemma sint_small: "unat x < 2 ^ 31 \<Longrightarrow> sint x = int (unat x)" for x :: u32
proof -
  assume "unat x < 2 ^ 31"
  then have "int (unat x) < int (2 ^ 31)" by (simp only: of_nat_less_iff)
  then have "uint x < 2 ^ 31" by simp
  moreover have "- (2 ^ 31) \<le> uint x" by (rule order_trans [OF _ uint_nonnegative]) simp
  ultimately have "signed_take_bit 31 (uint x) = uint x" by (intro signed_take_bit_int_eq_self)
  then show ?thesis using sint_u32 [of x] by simp
qed

lemma sint_diff_u32:
  fixes a b :: u32
  assumes "\<bar>uint a - uint b\<bar> < 2 ^ 31"
  shows "sint (a - b) = uint a - uint b"
proof -
  have "uint (a - b) = take_bit 32 (uint a - uint b)"
    by (simp add: uint_word_ariths take_bit_eq_mod)
  then have "sint (a - b) = signed_take_bit 31 (uint a - uint b)"
    unfolding sint_u32 by (simp only: signed_take_bit_take_bit) simp
  also have "\<dots> = uint a - uint b"
    using assms by (intro signed_take_bit_int_eq_self) linarith+
  finally show ?thesis .
qed

section \<open>Step relations and invariants\<close>

text \<open>
  A property that the start states have and every step keeps holds after any
  number of steps.  Every component that is a state machine interprets this
  interface with its own states, steps and invariant.
\<close>

locale step_invariant =
  fixes init :: "'s \<Rightarrow> bool"
    and step :: "'s \<Rightarrow> 's \<Rightarrow> bool"
    and inv :: "'s \<Rightarrow> bool"
  assumes inv_init: "init s \<Longrightarrow> inv s"
    and inv_step: "inv s \<Longrightarrow> step s t \<Longrightarrow> inv t"
begin

lemma inv_steps: "step\<^sup>*\<^sup>* s t \<Longrightarrow> inv s \<Longrightarrow> inv t"
  by (induction rule: rtranclp_induct) (auto intro: inv_step)

lemma inv_reachable: "init s \<Longrightarrow> step\<^sup>*\<^sup>* s t \<Longrightarrow> inv t"
  by (blast intro: inv_init inv_steps)

end

end
