(* ===== verification/Kfifo.thy ===== *)
theory Kfifo
  imports Prelude
begin

unbundle bit_operations_syntax

text \<open>
  The byte FIFO of \<^verbatim>\<open>kernel/kfifo.c\<close> and \<^verbatim>\<open>include/linux/kfifo.h\<close>, with the
  power-of-two arithmetic of \<^verbatim>\<open>include/linux/log2.h\<close> it relies on.  The state
  is the record \<open>kfifo\<close>; its indices are free-running 32-bit counters.  The
  theory shows that the ring buffer refines a bounded byte queue, that every
  copy stays inside the buffer, and that one reader and one writer need no
  lock, for every interleaving of their steps.
\<close>

section \<open>Powers of two\<close>

definition is_power_of_2 :: "u32 \<Rightarrow> bool" where
  "is_power_of_2 n \<longleftrightarrow> n \<noteq> 0 \<and> n AND (n - 1) = 0"

text \<open>
  \<^verbatim>\<open>fls\<close> of \<^verbatim>\<open>arch/arm/include/asm/bitops.h\<close>: the position, from 1, of the most
  significant bit set.  The compile-time version is a binary search, the
  run-time version the processor's instruction \<^verbatim>\<open>clz\<close> (count leading zeros).
\<close>

definition constant_fls :: "u32 \<Rightarrow> nat" where
  "constant_fls x =
     (if x = 0 then 0 else
      let (x, r) = (if x AND 0xffff0000 = 0 then (push_bit 16 x, 32 - 16) else (x, 32));
          (x, r) = (if x AND 0xff000000 = 0 then (push_bit 8 x, r - 8) else (x, r));
          (x, r) = (if x AND 0xf0000000 = 0 then (push_bit 4 x, r - 4) else (x, r));
          (x, r) = (if x AND 0xc0000000 = 0 then (push_bit 2 x, r - 2) else (x, r));
          (x, r) = (if x AND 0x80000000 = 0 then (push_bit 1 x, r - 1) else (x, r))
      in r)"

fun clz_from :: "u32 \<Rightarrow> nat \<Rightarrow> nat" where
  "clz_from x 0 = 0"
| "clz_from x (Suc i) = (if bit x i then 0 else Suc (clz_from x i))"

definition fls :: "u32 \<Rightarrow> nat" where
  "fls x = 32 - clz_from x 32"

text \<open>
  \<^verbatim>\<open>1UL << fls_long(n - 1)\<close>; for a shift by 32 the processor's register shift
  gives 0, as \<^const>\<open>push_bit\<close> does.
\<close>

definition roundup_pow_of_two :: "u32 \<Rightarrow> u32" where
  "roundup_pow_of_two n = push_bit (fls (n - 1)) 1"

section \<open>State and operations\<close>

record kfifo =
  buffer :: "u8 list"
  fsize :: u32
  fin :: u32
  fout :: u32

definition kfifo_init :: "u8 list \<Rightarrow> u32 \<Rightarrow> bool \<Rightarrow> crash + (errno + kfifo)" where
  "kfifo_init buf sz kmalloc_ok =
     (if \<not> is_power_of_2 sz then Inl Bug
      else if \<not> kmalloc_ok then Inr (Inl ENOMEM)
      else Inr (Inr \<lparr>buffer = buf, fsize = sz, fin = 0, fout = 0\<rparr>))"

text \<open>
  \<open>kmalloc\<close> gives the memory for the buffer, \<^term>\<open>None\<close> when there is none;
  \<open>kmalloc_ok\<close> says whether the second allocation, of the descriptor, succeeds.
\<close>

definition kfifo_alloc ::
  "(u32 \<Rightarrow> u8 list option) \<Rightarrow> bool \<Rightarrow> u32 \<Rightarrow> crash + (errno + kfifo)" where
  "kfifo_alloc kmalloc kmalloc_ok sz0 =
     (if \<not> is_power_of_2 sz0 \<and> sz0 > 0x80000000 then Inl Bug
      else let sz = (if is_power_of_2 sz0 then sz0 else roundup_pow_of_two sz0)
           in case kmalloc sz of
                None \<Rightarrow> Inr (Inl ENOMEM)
              | Some buf \<Rightarrow> kfifo_init buf sz kmalloc_ok)"

text \<open>
  \<^verbatim>\<open>__kfifo_put\<close> in the order of its statements: sample \<open>out\<close>, copy up to the
  end of the buffer, copy the rest to its beginning, publish \<open>in\<close>.
\<close>

definition put_len :: "kfifo \<Rightarrow> u32 \<Rightarrow> u32" where
  "put_len f len = min len (fsize f - fin f + fout f)"

definition put_first :: "kfifo \<Rightarrow> u32 \<Rightarrow> u32" where
  "put_first f len = min len (fsize f - (fin f AND (fsize f - 1)))"

definition put_copy1 :: "kfifo \<Rightarrow> u8 list \<Rightarrow> u32 \<Rightarrow> kfifo option" where
  "put_copy1 f src len = do {
     b \<leftarrow> memcpy (buffer f) (unat (fin f AND (fsize f - 1))) src 0 (unat (put_first f len));
     Some (f\<lparr>buffer := b\<rparr>)
   }"

definition put_copy2 :: "kfifo \<Rightarrow> u8 list \<Rightarrow> u32 \<Rightarrow> kfifo option" where
  "put_copy2 f src len = do {
     b \<leftarrow> memcpy (buffer f) 0 src (unat (put_first f len)) (unat (len - put_first f len));
     Some (f\<lparr>buffer := b\<rparr>)
   }"

definition put_publish :: "kfifo \<Rightarrow> u32 \<Rightarrow> kfifo" where
  "put_publish f len = f\<lparr>fin := fin f + len\<rparr>"

definition uu_kfifo_put :: "kfifo \<Rightarrow> u8 list \<Rightarrow> u32 \<Rightarrow> (kfifo \<times> u32) option" where
  "uu_kfifo_put f src len0 = do {
     let len = put_len f len0;
     f1 \<leftarrow> put_copy1 f src len;
     f2 \<leftarrow> put_copy2 f1 src len;
     Some (put_publish f2 len, len)
   }"

text \<open>\<^verbatim>\<open>__kfifo_get\<close>; the destination holds at least \<open>len\<close> bytes.\<close>

definition get_len :: "kfifo \<Rightarrow> u32 \<Rightarrow> u32" where
  "get_len f len = min len (fin f - fout f)"

definition get_first :: "kfifo \<Rightarrow> u32 \<Rightarrow> u32" where
  "get_first f len = min len (fsize f - (fout f AND (fsize f - 1)))"

definition get_copy1 :: "kfifo \<Rightarrow> u8 list \<Rightarrow> u32 \<Rightarrow> u8 list option" where
  "get_copy1 f dst len =
     memcpy dst 0 (buffer f) (unat (fout f AND (fsize f - 1))) (unat (get_first f len))"

definition get_copy2 :: "kfifo \<Rightarrow> u8 list \<Rightarrow> u32 \<Rightarrow> u8 list option" where
  "get_copy2 f dst len =
     memcpy dst (unat (get_first f len)) (buffer f) 0 (unat (len - get_first f len))"

definition get_publish :: "kfifo \<Rightarrow> u32 \<Rightarrow> kfifo" where
  "get_publish f len = f\<lparr>fout := fout f + len\<rparr>"

definition uu_kfifo_get :: "kfifo \<Rightarrow> u8 list \<Rightarrow> u32 \<Rightarrow> (kfifo \<times> u8 list \<times> u32) option" where
  "uu_kfifo_get f dst len0 = do {
     let len = get_len f len0;
     d1 \<leftarrow> get_copy1 f dst len;
     d2 \<leftarrow> get_copy2 f d1 len;
     Some (get_publish f len, d2, len)
   }"

definition uu_kfifo_reset :: "kfifo \<Rightarrow> kfifo" where
  "uu_kfifo_reset f = f\<lparr>fin := 0, fout := 0\<rparr>"

definition uu_kfifo_len :: "kfifo \<Rightarrow> u32" where
  "uu_kfifo_len f = fin f - fout f"

text \<open>
  The operations under the spinlock.  \<^verbatim>\<open>kfifo_get\<close> resets the indices of a FIFO
  it has emptied.
\<close>

definition kfifo_reset :: "kfifo \<Rightarrow> kfifo" where
  "kfifo_reset f = uu_kfifo_reset f"

definition kfifo_put :: "kfifo \<Rightarrow> u8 list \<Rightarrow> u32 \<Rightarrow> (kfifo \<times> u32) option" where
  "kfifo_put f src len = uu_kfifo_put f src len"

definition kfifo_get :: "kfifo \<Rightarrow> u8 list \<Rightarrow> u32 \<Rightarrow> (kfifo \<times> u8 list \<times> u32) option" where
  "kfifo_get f dst len =
     (case uu_kfifo_get f dst len of
        None \<Rightarrow> None
      | Some (f', d, r) \<Rightarrow>
          Some (if fin f' = fout f' then f'\<lparr>fin := 0, fout := 0\<rparr> else f', d, r))"

definition kfifo_len :: "kfifo \<Rightarrow> u32" where
  "kfifo_len f = uu_kfifo_len f"

section \<open>Abstraction and invariant\<close>

definition kfifo_inv :: "kfifo \<Rightarrow> bool" where
  "kfifo_inv f \<longleftrightarrow> is_power_of_2 (fsize f) \<and> length (buffer f) = unat (fsize f) \<and>
     fin f - fout f \<le> fsize f"

definition slot :: "kfifo \<Rightarrow> nat \<Rightarrow> nat" where
  "slot f i = i mod unat (fsize f)"

definition contents :: "kfifo \<Rightarrow> u8 list" where
  "contents f = map (\<lambda>i. buffer f ! slot f (unat (fout f) + i)) [0..<unat (fin f - fout f)]"

definition capacity :: "kfifo \<Rightarrow> nat" where
  "capacity f = unat (fsize f)"

section \<open>One reader and one writer without a lock\<close>

text \<open>
  \<^verbatim>\<open>__kfifo_put\<close> and \<^verbatim>\<open>__kfifo_get\<close> run concurrently.  A side samples the other side's
  index, copies its bytes one at a time, and publishes its own index; the memory barriers
  of the source keep these three phases in order.  The order of the bytes within the copies
  is left open, since \<^verbatim>\<open>memcpy\<close> promises none: the set in a copying state holds the bytes
  already copied, and any other byte may be next.  Each byte is a step of its own, and the
  steps of the two sides interleave freely.  \<open>sent\<close> and \<open>received\<close> record the bytes whose
  put and get have completed.
\<close>

definition put_pos :: "kfifo \<Rightarrow> u32 \<Rightarrow> nat \<Rightarrow> nat" where
  "put_pos f len i =
     (if i < unat (put_first f len) then unat (fin f AND (fsize f - 1)) + i
      else i - unat (put_first f len))"

definition put_byte :: "kfifo \<Rightarrow> u8 list \<Rightarrow> u32 \<Rightarrow> nat \<Rightarrow> kfifo option" where
  "put_byte f src len i = do {
     b \<leftarrow> memcpy (buffer f) (put_pos f len i) src i 1;
     Some (f\<lparr>buffer := b\<rparr>)
   }"

definition get_pos :: "kfifo \<Rightarrow> u32 \<Rightarrow> nat \<Rightarrow> nat" where
  "get_pos f len i =
     (if i < unat (get_first f len) then unat (fout f AND (fsize f - 1)) + i
      else i - unat (get_first f len))"

definition get_byte :: "kfifo \<Rightarrow> u8 list \<Rightarrow> u32 \<Rightarrow> nat \<Rightarrow> u8 list option" where
  "get_byte f dst len i = memcpy dst i (buffer f) (get_pos f len i) 1"

datatype writer = W_idle | W_copying "u8 list" u32 "nat set"

datatype reader = R_idle | R_copying "u8 list" u32 "nat set"

record spsc =
  fifo :: kfifo
  wr :: writer
  rd :: reader
  sent :: "u8 list"
  received :: "u8 list"

inductive spsc_step :: "spsc \<Rightarrow> spsc \<Rightarrow> bool" where
  w_sample: "wr s = W_idle \<Longrightarrow> unat n \<le> length src \<Longrightarrow>
     spsc_step s (s\<lparr>wr := W_copying src (put_len (fifo s) n) {}\<rparr>)"
| w_byte: "wr s = W_copying src len D \<Longrightarrow> i < unat len \<Longrightarrow> i \<notin> D \<Longrightarrow>
     put_byte (fifo s) src len i = Some f \<Longrightarrow>
     spsc_step s (s\<lparr>fifo := f, wr := W_copying src len (insert i D)\<rparr>)"
| w_publish: "wr s = W_copying src len D \<Longrightarrow> D = {..<unat len} \<Longrightarrow>
     spsc_step s (s\<lparr>fifo := put_publish (fifo s) len, wr := W_idle,
                   sent := sent s @ take (unat len) src\<rparr>)"
| r_sample: "rd s = R_idle \<Longrightarrow> unat n \<le> length dst \<Longrightarrow>
     spsc_step s (s\<lparr>rd := R_copying dst (get_len (fifo s) n) {}\<rparr>)"
| r_byte: "rd s = R_copying dst len D \<Longrightarrow> i < unat len \<Longrightarrow> i \<notin> D \<Longrightarrow>
     get_byte (fifo s) dst len i = Some d \<Longrightarrow>
     spsc_step s (s\<lparr>rd := R_copying d len (insert i D)\<rparr>)"
| r_publish: "rd s = R_copying dst len D \<Longrightarrow> D = {..<unat len} \<Longrightarrow>
     spsc_step s (s\<lparr>fifo := get_publish (fifo s) len, rd := R_idle,
                   received := received s @ take (unat len) dst\<rparr>)"

definition spsc_init :: "spsc \<Rightarrow> bool" where
  "spsc_init s \<longleftrightarrow> kfifo_inv (fifo s) \<and> wr s = W_idle \<and> rd s = R_idle \<and>
     sent s = contents (fifo s) \<and> received s = []"

text \<open>What each side may rely on between two of its steps.\<close>

definition room :: "kfifo \<Rightarrow> nat" where
  "room f = capacity f - length (contents f)"

fun writer_inv :: "kfifo \<Rightarrow> writer \<Rightarrow> bool" where
  "writer_inv f W_idle = True"
| "writer_inv f (W_copying src len D) = (unat len \<le> length src \<and> unat len \<le> room f \<and>
     D \<subseteq> {..<unat len} \<and> (\<forall>a\<in>D. buffer f ! slot f (unat (fin f) + a) = src ! a))"

fun reader_inv :: "kfifo \<Rightarrow> reader \<Rightarrow> bool" where
  "reader_inv f R_idle = True"
| "reader_inv f (R_copying dst len D) = (unat len \<le> length dst \<and> unat len \<le> length (contents f) \<and>
     D \<subseteq> {..<unat len} \<and> (\<forall>a\<in>D. dst ! a = contents f ! a))"

definition spsc_inv :: "spsc \<Rightarrow> bool" where
  "spsc_inv s \<longleftrightarrow> kfifo_inv (fifo s) \<and> writer_inv (fifo s) (wr s) \<and>
     reader_inv (fifo s) (rd s) \<and> received s @ contents (fifo s) = sent s"

section \<open>Index arithmetic\<close>

lemma is_power_of_2_iff: "is_power_of_2 n \<longleftrightarrow> (\<exists>k<32. unat n = 2 ^ k)"
  using word_power2_iff[of n] by (simp add: is_power_of_2_def)

lemma kfifo_inv_size:
  assumes "kfifo_inv f"
  shows "0 < unat (fsize f)" and "unat (fsize f) dvd 2 ^ 32"
    and "unat (x AND (fsize f - 1)) = unat x mod unat (fsize f)"
proof -
  from assms obtain k where k: "k < 32" "unat (fsize f) = 2 ^ k"
    by (auto simp: kfifo_inv_def is_power_of_2_iff)
  show "0 < unat (fsize f)" by (simp add: k)
  show "unat (fsize f) dvd 2 ^ 32" using k by (simp only: le_imp_power_dvd less_imp_le)
  show "unat (x AND (fsize f - 1)) = unat x mod unat (fsize f)"
    by (rule unat_and_power2_dec [OF k(2)])
qed

text \<open>The counters wrap at \<open>2 ^ 32\<close>, a multiple of the size: slots do not notice.\<close>

lemma slot_add_wrap:
  fixes x y :: u32
  assumes "kfifo_inv f"
  shows "slot f (unat (x + y) + i) = slot f (unat x + unat y + i)"
proof -
  have "unat (x + y) = (unat x + unat y) mod 2 ^ 32" by (simp add: unat_word_ariths)
  moreover have "((unat x + unat y) mod 2 ^ 32 + i) mod unat (fsize f)
      = (unat x + unat y + i) mod unat (fsize f)"
    using kfifo_inv_size(2)[OF assms]
    by (metis mod_add_left_eq mod_mod_cancel)
  ultimately show ?thesis by (simp add: slot_def)
qed

lemma slot_in:
  assumes "kfifo_inv f"
  shows "slot f (unat (fin f) + i) = slot f (unat (fout f) + unat (fin f - fout f) + i)"
  using slot_add_wrap[OF assms, of "fout f" "fin f - fout f" i] by simp

lemma used_le: "kfifo_inv f \<Longrightarrow> unat (fin f - fout f) \<le> unat (fsize f)"
  by (simp add: kfifo_inv_def word_le_nat_alt)

lemma unat_free:
  assumes "kfifo_inv f"
  shows "unat (fsize f - fin f + fout f) = unat (fsize f) - unat (fin f - fout f)"
proof -
  have "fsize f - fin f + fout f = fsize f - (fin f - fout f)" by simp
  also have "unat \<dots> = unat (fsize f) - unat (fin f - fout f)"
    using assms by (intro unat_sub) (simp add: kfifo_inv_def)
  finally show ?thesis .
qed

lemma length_contents: "length (contents f) = unat (fin f - fout f)"
  by (simp add: contents_def)

lemma nth_contents:
  "i < unat (fin f - fout f) \<Longrightarrow> contents f ! i = buffer f ! slot f (unat (fout f) + i)"
  by (simp add: contents_def)

lemma unat_min: "unat (min a b) = min (unat a) (unat b)"
  by (simp add: min_def word_le_nat_alt)

lemma unat_put_len:
  "kfifo_inv f \<Longrightarrow> unat (put_len f n) = min (unat n) (capacity f - length (contents f))"
  by (simp add: put_len_def unat_min unat_free capacity_def length_contents)

lemma unat_get_len: "unat (get_len f n) = min (unat n) (length (contents f))"
  by (simp add: get_len_def unat_min length_contents)

lemma unat_put_first:
  assumes "kfifo_inv f"
  shows "unat (put_first f n) = min (unat n) (unat (fsize f) - unat (fin f) mod unat (fsize f))"
proof -
  have "fin f AND (fsize f - 1) \<le> fsize f"
    using kfifo_inv_size[OF assms] by (simp add: word_le_nat_alt less_imp_le)
  then show ?thesis
    using kfifo_inv_size(3)[OF assms] by (simp add: put_first_def unat_min unat_sub)
qed

lemma unat_get_first:
  assumes "kfifo_inv f"
  shows "unat (get_first f n) = min (unat n) (unat (fsize f) - unat (fout f) mod unat (fsize f))"
proof -
  have "fout f AND (fsize f - 1) \<le> fsize f"
    using kfifo_inv_size[OF assms] by (simp add: word_le_nat_alt less_imp_le)
  then show ?thesis
    using kfifo_inv_size(3)[OF assms] by (simp add: get_first_def unat_min unat_sub)
qed

lemma unat_put_rest:
  "unat (n - put_first f n) = unat n - unat (put_first f n)"
  by (rule unat_sub) (simp add: put_first_def)

lemma unat_get_rest:
  "unat (n - get_first f n) = unat n - unat (get_first f n)"
  by (rule unat_sub) (simp add: get_first_def)

lemmas kfifo_index = kfifo_inv_size unat_put_first unat_get_first unat_put_rest unat_get_rest

section \<open>The copies\<close>

lemma slot_out:
  assumes "kfifo_inv f" "i < unat (fin f - fout f)"
  shows "slot f (unat (fout f) + i) =
    slot f (unat (fin f) + (unat (fsize f) - unat (fin f - fout f) + i))"
proof -
  let ?S = "unat (fsize f)" and ?N = "unat (fin f - fout f)"
  have "slot f (unat (fin f) + (?S - ?N + i)) = slot f (unat (fout f) + ?N + (?S - ?N + i))"
    by (rule slot_in [OF assms(1)])
  also have "unat (fout f) + ?N + (?S - ?N + i) = unat (fout f) + i + ?S"
    using used_le[OF assms(1)] by simp
  finally show ?thesis by (simp add: slot_def)
qed

lemma put_copy1_spec:
  assumes inv: "kfifo_inv f" and len: "unat n \<le> length src"
  shows "\<exists>b. put_copy1 f src n = Some (f\<lparr>buffer := b\<rparr>) \<and> length b = length (buffer f) \<and>
    (\<forall>a<unat (fsize f). b ! slot f (unat (fin f) + a) =
      (if a < unat (put_first f n) then src ! a else buffer f ! slot f (unat (fin f) + a)))"
proof -
  let ?S = "unat (fsize f)" and ?p = "unat (fin f)" and ?l = "unat (put_first f n)"
  have S: "0 < ?S" "length (buffer f) = ?S"
    using kfifo_inv_size(1)[OF inv] inv by (auto simp: kfifo_inv_def)
  have l: "?l \<le> ?S - ?p mod ?S" "?l \<le> length src"
    using len by (auto simp: unat_put_first[OF inv])
  have "?p mod ?S < ?S" using S by simp
  with S l obtain b where b: "memcpy (buffer f) (?p mod ?S) src 0 ?l = Some b"
    using memcpy_Some_iff[of "buffer f" "?p mod ?S" src 0 ?l] by fastforce
  then have "put_copy1 f src n = Some (f\<lparr>buffer := b\<rparr>)"
    by (simp add: put_copy1_def kfifo_inv_size(3)[OF inv])
  moreover have "\<forall>a<?S. b ! slot f (?p + a) = (if a < ?l then src ! a else buffer f ! slot f (?p + a))"
    using ring_copy_first[OF b S(2) l(1)] by (simp add: slot_def)
  ultimately show ?thesis using memcpy_length[OF b] by blast
qed

lemma put_copy2_spec:
  assumes inv: "kfifo_inv f" and len: "unat n \<le> length src" "unat n \<le> unat (fsize f)"
  shows "\<exists>b. put_copy2 f src n = Some (f\<lparr>buffer := b\<rparr>) \<and> length b = length (buffer f) \<and>
    (\<forall>a<unat (fsize f). b ! slot f (unat (fin f) + a) =
      (if unat (put_first f n) \<le> a \<and> a < unat n then src ! a
       else buffer f ! slot f (unat (fin f) + a)))"
proof -
  let ?S = "unat (fsize f)" and ?p = "unat (fin f)" and ?l = "unat (put_first f n)"
  have S: "0 < ?S" "length (buffer f) = ?S"
    using kfifo_inv_size(1)[OF inv] inv by (auto simp: kfifo_inv_def)
  have l: "?l = min (unat n) (?S - ?p mod ?S)" by (rule unat_put_first[OF inv])
  from S l len obtain b where b: "memcpy (buffer f) 0 src ?l (unat n - ?l) = Some b"
    using memcpy_Some_iff[of "buffer f" 0 src ?l "unat n - ?l"] by fastforce
  then have "put_copy2 f src n = Some (f\<lparr>buffer := b\<rparr>)"
    by (simp add: put_copy2_def unat_put_rest)
  moreover have "\<forall>a<?S. b ! slot f (?p + a) =
      (if ?l \<le> a \<and> a < unat n then src ! a else buffer f ! slot f (?p + a))"
    using ring_copy_rest[OF b S(2) l len(2)] by (simp add: slot_def)
  ultimately show ?thesis using memcpy_length[OF b] by blast
qed

lemma get_copy1_spec:
  assumes inv: "kfifo_inv f" and len: "unat n \<le> length dst" "unat n \<le> unat (fsize f)"
  shows "\<exists>d. get_copy1 f dst n = Some d \<and> length d = length dst \<and>
    (\<forall>a<length dst. d ! a =
      (if a < unat (get_first f n) then buffer f ! slot f (unat (fout f) + a) else dst ! a))"
proof -
  let ?S = "unat (fsize f)" and ?p = "unat (fout f)" and ?l = "unat (get_first f n)"
  have S: "0 < ?S" "length (buffer f) = ?S"
    using kfifo_inv_size(1)[OF inv] inv by (auto simp: kfifo_inv_def)
  have l: "?l \<le> ?S - ?p mod ?S" "?l \<le> length dst"
    using len by (auto simp: unat_get_first[OF inv])
  have pS: "?p mod ?S < ?S" using S by simp
  with S l obtain d where d: "memcpy dst 0 (buffer f) (?p mod ?S) ?l = Some d"
    using memcpy_Some_iff[of dst 0 "buffer f" "?p mod ?S" ?l] by fastforce
  then have "get_copy1 f dst n = Some d"
    by (simp add: get_copy1_def kfifo_inv_size(3)[OF inv])
  moreover have "\<forall>a<length dst. d ! a =
      (if a < ?l then buffer f ! slot f (?p + a) else dst ! a)"
    using memcpy_nth[OF d] l(1) by (auto simp: slot_def mod_add_wrap)
  ultimately show ?thesis using memcpy_length[OF d] by blast
qed

lemma get_copy2_spec:
  assumes inv: "kfifo_inv f" and len: "unat n \<le> length dst" "unat n \<le> unat (fsize f)"
  shows "\<exists>d. get_copy2 f dst n = Some d \<and> length d = length dst \<and>
    (\<forall>a<length dst. d ! a =
      (if unat (get_first f n) \<le> a \<and> a < unat n then buffer f ! slot f (unat (fout f) + a)
       else dst ! a))"
proof -
  let ?S = "unat (fsize f)" and ?p = "unat (fout f)" and ?l = "unat (get_first f n)"
  have S: "0 < ?S" "length (buffer f) = ?S"
    using kfifo_inv_size(1)[OF inv] inv by (auto simp: kfifo_inv_def)
  have l: "?l = min (unat n) (?S - ?p mod ?S)" by (rule unat_get_first[OF inv])
  have pS: "?p mod ?S < ?S" using S by simp
  from S l len pS obtain d where d: "memcpy dst ?l (buffer f) 0 (unat n - ?l) = Some d"
    using memcpy_Some_iff[of dst ?l "buffer f" 0 "unat n - ?l"] by fastforce
  then have "get_copy2 f dst n = Some d"
    by (simp add: get_copy2_def unat_get_rest)
  moreover have "\<forall>a<length dst. d ! a =
      (if ?l \<le> a \<and> a < unat n then buffer f ! slot f (?p + a) else dst ! a)"
  proof (intro allI impI)
    fix a assume a: "a < length dst"
    have "slot f (?p + a) = a - ?l" if "?l \<le> a" "a < unat n"
      using that l len pS by (auto simp: slot_def mod_add_wrap min_def split: if_splits)
    then show "d ! a = (if ?l \<le> a \<and> a < unat n then buffer f ! slot f (?p + a) else dst ! a)"
      using memcpy_nth[OF d a] l by auto
  qed
  ultimately show ?thesis using memcpy_length[OF d] by blast
qed

section \<open>Publishing an index\<close>

lemma publish_put:
  assumes inv: "kfifo_inv f" and n: "unat len \<le> capacity f - length (contents f)"
    and src: "unat len \<le> length src"
      "\<forall>a<unat len. buffer f ! slot f (unat (fin f) + a) = src ! a"
  shows "kfifo_inv (put_publish f len)"
    and "contents (put_publish f len) = contents f @ take (unat len) src"
proof -
  let ?N = "unat (fin f - fout f)" and ?f = "put_publish f len"
  have eq: "fin ?f - fout ?f = (fin f - fout f) + len" by (simp add: put_publish_def)
  have bound: "?N + unat len \<le> unat (fsize f)"
    using n used_le[OF inv] by (simp add: capacity_def length_contents)
  then have lt: "?N + unat len < 2 ^ 32"
    using unsigned_less[of "fsize f", where ?'a = nat] by simp
  then have N': "unat (fin ?f - fout ?f) = ?N + unat len"
    unfolding eq by (simp add: unat_word_ariths)
  show "kfifo_inv ?f"
    using inv bound N' by (simp add: kfifo_inv_def put_publish_def word_le_nat_alt)
  show "contents ?f = contents f @ take (unat len) src"
  proof (rule nth_equalityI)
    show "length (contents ?f) = length (contents f @ take (unat len) src)"
      using src(1) by (simp add: length_contents N')
    fix i assume "i < length (contents ?f)"
    then have i: "i < ?N + unat len" by (simp add: length_contents N')
    have "contents ?f ! i = buffer ?f ! slot ?f (unat (fout ?f) + i)"
      using i by (intro nth_contents) (simp add: N')
    then have "contents ?f ! i = buffer f ! slot f (unat (fout f) + i)"
      by (simp add: put_publish_def slot_def)
    moreover have "buffer f ! slot f (unat (fout f) + i) = src ! (i - ?N)" if "?N \<le> i"
    proof -
      have "slot f (unat (fout f) + i) = slot f (unat (fin f) + (i - ?N))"
        using slot_in[OF inv, of "i - ?N"] that by simp
      moreover have "i - ?N < unat len" using i that by linarith
      ultimately show ?thesis using src(2) by metis
    qed
    ultimately show "contents ?f ! i = (contents f @ take (unat len) src) ! i"
      using i src(1) by (auto simp: nth_append length_contents nth_contents)
  qed
qed

lemma publish_get:
  assumes inv: "kfifo_inv f" and n: "unat len \<le> length (contents f)"
  shows "kfifo_inv (get_publish f len)"
    and "contents (get_publish f len) = drop (unat len) (contents f)"
proof -
  let ?N = "unat (fin f - fout f)" and ?f = "get_publish f len"
  have eq: "fin ?f - fout ?f = (fin f - fout f) - len" by (simp add: get_publish_def)
  have "len \<le> fin f - fout f" using n by (simp add: word_le_nat_alt length_contents)
  then have N': "unat (fin ?f - fout ?f) = ?N - unat len"
    unfolding eq by (rule unat_sub)
  show "kfifo_inv ?f"
    using inv used_le[OF inv] N' by (simp add: kfifo_inv_def get_publish_def word_le_nat_alt)
  show "contents ?f = drop (unat len) (contents f)"
  proof (rule nth_equalityI)
    show "length (contents ?f) = length (drop (unat len) (contents f))"
      by (simp add: length_contents N')
    fix i assume "i < length (contents ?f)"
    then have i: "i < ?N - unat len" by (simp add: length_contents N')
    have "contents ?f ! i = buffer ?f ! slot ?f (unat (fout ?f) + i)"
      using i by (intro nth_contents) (simp add: N')
    also have "\<dots> = buffer f ! slot f (unat (fout f + len) + i)"
      by (simp add: get_publish_def slot_def)
    also have "slot f (unat (fout f + len) + i) = slot f (unat (fout f) + (unat len + i))"
      using slot_add_wrap[OF inv] by (simp add: add.assoc)
    finally show "contents ?f ! i = drop (unat len) (contents f) ! i"
      using i by (simp add: nth_contents length_contents)
  qed
qed

section \<open>The operations on a bounded queue of bytes\<close>

lemma put_len_bounds:
  assumes "kfifo_inv f" "unat n \<le> length src"
  shows "unat (put_len f n) \<le> length src" "unat (put_len f n) \<le> unat (fsize f)"
    "unat (put_len f n) \<le> capacity f - length (contents f)"
  using assms by (auto simp: unat_put_len capacity_def)

lemma put_copies:
  assumes inv: "kfifo_inv f" and len: "unat n \<le> length src" "unat n \<le> unat (fsize f)"
  obtains b1 b2 where "put_copy1 f src n = Some (f\<lparr>buffer := b1\<rparr>)"
    and "put_copy2 (f\<lparr>buffer := b1\<rparr>) src n = Some (f\<lparr>buffer := b2\<rparr>)"
    and "length b1 = length (buffer f)" "length b2 = length (buffer f)"
    and "\<forall>a<unat (fsize f). b2 ! slot f (unat (fin f) + a) =
      (if a < unat n then src ! a else buffer f ! slot f (unat (fin f) + a))"
proof -
  from put_copy1_spec[OF inv len(1)] obtain b1 where b1:
    "put_copy1 f src n = Some (f\<lparr>buffer := b1\<rparr>)" "length b1 = length (buffer f)"
    "\<forall>a<unat (fsize f). b1 ! slot f (unat (fin f) + a) =
      (if a < unat (put_first f n) then src ! a else buffer f ! slot f (unat (fin f) + a))"
    by blast
  have inv1: "kfifo_inv (f\<lparr>buffer := b1\<rparr>)" using inv b1(2) by (simp add: kfifo_inv_def)
  have same: "slot (f\<lparr>buffer := b1\<rparr>) = slot f" "put_first (f\<lparr>buffer := b1\<rparr>) n = put_first f n"
    by (simp_all add: fun_eq_iff slot_def put_first_def)
  from put_copy2_spec[OF inv1 len(1)] len(2) obtain b2 where b2:
    "put_copy2 (f\<lparr>buffer := b1\<rparr>) src n = Some (f\<lparr>buffer := b2\<rparr>)" "length b2 = length b1"
    "\<forall>a<unat (fsize f). b2 ! slot f (unat (fin f) + a) =
      (if unat (put_first f n) \<le> a \<and> a < unat n then src ! a
       else b1 ! slot f (unat (fin f) + a))"
    by (auto simp: same)
  have "unat (put_first f n) \<le> unat n" by (simp add: unat_put_first[OF inv])
  with b1(3) b2(3) have "\<forall>a<unat (fsize f). b2 ! slot f (unat (fin f) + a) =
      (if a < unat n then src ! a else buffer f ! slot f (unat (fin f) + a))"
    by auto
  with b1(1,2) b2(1,2) show thesis using that[of b1 b2] by simp
qed

lemma contents_frame:
  assumes inv: "kfifo_inv f" and n: "n \<le> unat (fsize f) - unat (fin f - fout f)"
    and b: "\<forall>a<unat (fsize f). n \<le> a \<longrightarrow>
      b ! slot f (unat (fin f) + a) = buffer f ! slot f (unat (fin f) + a)"
  shows "contents (f\<lparr>buffer := b\<rparr>) = contents f"
proof -
  have "b ! slot f (unat (fout f) + i) = buffer f ! slot f (unat (fout f) + i)"
    if i: "i < unat (fin f - fout f)" for i
  proof -
    have "unat (fsize f) - unat (fin f - fout f) + i < unat (fsize f)"
      "n \<le> unat (fsize f) - unat (fin f - fout f) + i"
      using i n used_le[OF inv] by linarith+
    with b show ?thesis unfolding slot_out[OF inv i] by blast
  qed
  then show ?thesis by (simp add: contents_def slot_def)
qed

lemma uu_kfifo_put_spec:
  assumes inv: "kfifo_inv f" and len: "unat n \<le> length src"
  shows "\<exists>f' r. uu_kfifo_put f src n = Some (f', r) \<and> kfifo_inv f' \<and> capacity f' = capacity f \<and>
    unat r = min (unat n) (capacity f - length (contents f)) \<and>
    contents f' = contents f @ take (unat r) src"
proof -
  let ?n = "put_len f n"
  note bounds = put_len_bounds[OF inv len]
  from put_copies[OF inv bounds(1,2)] obtain b1 b2 where b:
    "put_copy1 f src ?n = Some (f\<lparr>buffer := b1\<rparr>)"
    "put_copy2 (f\<lparr>buffer := b1\<rparr>) src ?n = Some (f\<lparr>buffer := b2\<rparr>)"
    "length b2 = length (buffer f)"
    "\<forall>a<unat (fsize f). b2 ! slot f (unat (fin f) + a) =
      (if a < unat ?n then src ! a else buffer f ! slot f (unat (fin f) + a))"
    by metis
  let ?f = "f\<lparr>buffer := b2\<rparr>"
  have inv2: "kfifo_inv ?f" using inv b(3) by (simp add: kfifo_inv_def)
  have same: "contents ?f = contents f"
    using b(4) bounds(3) by (intro contents_frame[OF inv, of "unat ?n"])
      (auto simp: capacity_def length_contents)
  have "\<forall>a<unat ?n. buffer ?f ! slot ?f (unat (fin ?f) + a) = src ! a"
    using b(4) bounds(2) by (simp add: slot_def)
  from publish_put[OF inv2 _ bounds(1) this] bounds(3)
  have "kfifo_inv (put_publish ?f ?n)"
    "contents (put_publish ?f ?n) = contents f @ take (unat ?n) src"
    by (simp_all add: same capacity_def)
  with b(1,2) show ?thesis
    by (simp add: uu_kfifo_put_def Let_def unat_put_len[OF inv] capacity_def put_publish_def)
qed

lemma uu_kfifo_get_spec:
  assumes inv: "kfifo_inv f" and len: "unat n \<le> length dst"
  shows "\<exists>f' d r. uu_kfifo_get f dst n = Some (f', d, r) \<and> kfifo_inv f' \<and> capacity f' = capacity f \<and>
    unat r = min (unat n) (length (contents f)) \<and>
    d = take (unat r) (contents f) @ drop (unat r) dst \<and>
    contents f' = drop (unat r) (contents f)"
proof -
  let ?n = "get_len f n"
  have n: "unat ?n \<le> length dst" "unat ?n \<le> unat (fsize f)" "unat ?n \<le> length (contents f)"
    using len used_le[OF inv] by (auto simp: unat_get_len length_contents)
  from get_copy1_spec[OF inv n(1,2)] obtain d1 where d1: "get_copy1 f dst ?n = Some d1"
    "length d1 = length dst" "\<forall>a<length dst. d1 ! a =
      (if a < unat (get_first f ?n) then buffer f ! slot f (unat (fout f) + a) else dst ! a)"
    by blast
  from get_copy2_spec[OF inv, of ?n d1] n d1(2) obtain d2 where d2: "get_copy2 f d1 ?n = Some d2"
    "length d2 = length dst" "\<forall>a<length dst. d2 ! a =
      (if unat (get_first f ?n) \<le> a \<and> a < unat ?n then buffer f ! slot f (unat (fout f) + a)
       else d1 ! a)"
    by auto
  have "unat (get_first f ?n) \<le> unat ?n" by (simp add: unat_get_first[OF inv])
  with d1(3) d2(2,3) n(1,3) have "d2 = take (unat ?n) (contents f) @ drop (unat ?n) dst"
    by (intro nth_equalityI) (auto simp: nth_append nth_contents length_contents)
  with d1(1) d2(1) publish_get[OF inv n(3)] show ?thesis
    by (simp add: uu_kfifo_get_def Let_def unat_get_len capacity_def get_publish_def)
qed

lemma kfifo_get_spec:
  assumes inv: "kfifo_inv f" and len: "unat n \<le> length dst"
  shows "\<exists>f' d r. kfifo_get f dst n = Some (f', d, r) \<and> kfifo_inv f' \<and> capacity f' = capacity f \<and>
    unat r = min (unat n) (length (contents f)) \<and>
    d = take (unat r) (contents f) @ drop (unat r) dst \<and>
    contents f' = drop (unat r) (contents f)"
proof -
  from uu_kfifo_get_spec[OF assms] obtain f' d r where
    g: "uu_kfifo_get f dst n = Some (f', d, r)" "kfifo_inv f'" "capacity f' = capacity f"
    "unat r = min (unat n) (length (contents f))"
    "d = take (unat r) (contents f) @ drop (unat r) dst"
    "contents f' = drop (unat r) (contents f)"
    by blast
  have "kfifo_inv (f'\<lparr>fin := 0, fout := 0\<rparr>)"
    using g(2) by (simp add: kfifo_inv_def)
  moreover have "contents f' = []" if "fin f' = fout f'" using that by (simp add: contents_def)
  moreover have "contents (f'\<lparr>fin := 0, fout := 0\<rparr>) = []" by (simp add: contents_def)
  ultimately show ?thesis using g
    by (cases "fin f' = fout f'") (auto simp: kfifo_get_def capacity_def)
qed

section \<open>Every interleaving of one reader and one writer\<close>

text \<open>Copying the bytes in increasing order is what the two \<^verbatim>\<open>memcpy\<close> calls do.\<close>

lemma put_bytes_copy1:
  "k \<le> unat (put_first f len) \<Longrightarrow>
   foldl (\<lambda>r i. r \<bind> (\<lambda>f. put_byte f src len i)) (Some f) [0..<k] =
   memcpy (buffer f) (unat (fin f AND (fsize f - 1))) src 0 k \<bind> (\<lambda>b. Some (f\<lparr>buffer := b\<rparr>))"
proof (induction k)
  case 0
  then show ?case by (simp add: memcpy_def)
next
  case (Suc k)
  then show ?case
    by (cases "memcpy (buffer f) (unat (fin f AND (fsize f - 1))) src 0 k")
      (simp_all add: memcpy_Suc [of _ _ _ _ k] put_byte_def put_pos_def put_first_def)
qed

lemma put_bytes_copy2:
  "unat (put_first f len) + k \<le> unat len \<Longrightarrow>
   foldl (\<lambda>r i. r \<bind> (\<lambda>f. put_byte f src len i)) (Some f)
     [unat (put_first f len)..<unat (put_first f len) + k] =
   memcpy (buffer f) 0 src (unat (put_first f len)) k \<bind> (\<lambda>b. Some (f\<lparr>buffer := b\<rparr>))"
proof (induction k)
  case 0
  then show ?case by (simp add: memcpy_def)
next
  case (Suc k)
  then show ?case
    by (cases "memcpy (buffer f) 0 src (unat (put_first f len)) k")
      (simp_all add: memcpy_Suc [of _ _ _ _ k] put_byte_def put_pos_def put_first_def)
qed

lemma put_bytes_in_order:
  "foldl (\<lambda>r i. r \<bind> (\<lambda>f. put_byte f src len i)) (Some f) [0..<unat len] =
   put_copy1 f src len \<bind> (\<lambda>f. put_copy2 f src len)"
proof -
  let ?l = "unat (put_first f len)" and ?F = "\<lambda>r i. r \<bind> (\<lambda>f. put_byte f src len i)"
  have l: "?l \<le> unat len" by (simp add: put_first_def unat_min)
  have none: "foldl ?F None xs = None" for xs by (induction xs) simp_all
  have "[0..<unat len] = [0..<?l] @ [?l..<?l + (unat len - ?l)]"
    using l by (metis le_add_diff_inverse upt_add_eq_append zero_le)
  then have "foldl ?F (Some f) [0..<unat len] =
      foldl ?F (foldl ?F (Some f) [0..<?l]) [?l..<?l + (unat len - ?l)]"
    by (simp only: foldl_append)
  also have "foldl ?F (Some f) [0..<?l] = put_copy1 f src len"
    by (simp add: put_bytes_copy1 put_copy1_def)
  also have "foldl ?F (put_copy1 f src len) [?l..<?l + (unat len - ?l)] =
      put_copy1 f src len \<bind> (\<lambda>f. put_copy2 f src len)"
  proof (cases "put_copy1 f src len")
    case (Some g)
    then have "put_first g len = put_first f len"
      by (auto simp: put_copy1_def put_first_def split: bind_splits)
    then show ?thesis
      using put_bytes_copy2 [of g len "unat len - ?l" src] l Some
      by (simp add: put_copy2_def unat_put_rest)
  qed (simp add: none)
  finally show ?thesis .
qed

lemma get_bytes_in_order:
  "foldl (\<lambda>r i. r \<bind> (\<lambda>d. get_byte f d len i)) (Some dst) [0..<unat len] =
   get_copy1 f dst len \<bind> (\<lambda>d. get_copy2 f d len)"
proof -
  let ?l = "unat (get_first f len)" and ?F = "\<lambda>r i. r \<bind> (\<lambda>d. get_byte f d len i)"
  have l: "?l \<le> unat len" by (simp add: get_first_def unat_min)
  have none: "foldl ?F None xs = None" for xs by (induction xs) simp_all
  have 1: "foldl ?F (Some d) [0..<k] = memcpy d 0 (buffer f) (unat (fout f AND (fsize f - 1))) k"
    if "k \<le> ?l" for d k
    using that
  proof (induction k)
    case (Suc k)
    then show ?case by (simp add: memcpy_Suc [of _ _ _ _ k] get_byte_def get_pos_def)
  qed (simp add: memcpy_def)
  have 2: "foldl ?F (Some d) [?l..<?l + k] = memcpy d ?l (buffer f) 0 k" for d k
  proof (induction k)
    case (Suc k)
    then show ?case by (simp add: memcpy_Suc [of _ _ _ _ k] get_byte_def get_pos_def)
  qed (simp add: memcpy_def)
  have "[0..<unat len] = [0..<?l] @ [?l..<?l + (unat len - ?l)]"
    using l by (metis le_add_diff_inverse upt_add_eq_append zero_le)
  then have "foldl ?F (Some dst) [0..<unat len] =
      foldl ?F (foldl ?F (Some dst) [0..<?l]) [?l..<?l + (unat len - ?l)]"
    by (simp only: foldl_append)
  also have "\<dots> = get_copy1 f dst len \<bind> (\<lambda>d. get_copy2 f d len)"
    by (cases "get_copy1 f dst len")
      (simp_all add: 1 get_copy1_def [symmetric] none 2 get_copy2_def unat_get_rest)
  finally show ?thesis .
qed

lemma reader_inv_cong: "contents g = contents f \<Longrightarrow> reader_inv g r = reader_inv f r"
  by (cases r) simp_all

lemma reader_inv_append: "contents g = contents f @ xs \<Longrightarrow> reader_inv f r \<Longrightarrow> reader_inv g r"
  by (cases r) (auto simp: nth_append)

lemma room_le_size: "unat len \<le> room f \<Longrightarrow> unat len \<le> unat (fsize f)"
  by (simp add: room_def capacity_def)

lemma put_pos_slot:
  assumes inv: "kfifo_inv f" and len: "unat len \<le> unat (fsize f)" and i: "i < unat len"
  shows "put_pos f len i = slot f (unat (fin f) + i)"
proof -
  let ?S = "unat (fsize f)" and ?p = "unat (fin f)"
  have "unat (put_first f len) = min (unat len) (?S - ?p mod ?S)" by (rule unat_put_first [OF inv])
  moreover have "?p mod ?S < ?S" using kfifo_inv_size(1) [OF inv] by simp
  ultimately show ?thesis
    using i len by (auto simp: put_pos_def slot_def kfifo_inv_size(3) [OF inv] mod_add_wrap)
qed

lemma get_pos_slot:
  assumes inv: "kfifo_inv f" and len: "unat len \<le> unat (fsize f)" and i: "i < unat len"
  shows "get_pos f len i = slot f (unat (fout f) + i)"
proof -
  let ?S = "unat (fsize f)" and ?p = "unat (fout f)"
  have "unat (get_first f len) = min (unat len) (?S - ?p mod ?S)" by (rule unat_get_first [OF inv])
  moreover have "?p mod ?S < ?S" using kfifo_inv_size(1) [OF inv] by simp
  ultimately show ?thesis
    using i len by (auto simp: get_pos_def slot_def kfifo_inv_size(3) [OF inv] mod_add_wrap)
qed

lemma slot_less: "kfifo_inv f \<Longrightarrow> slot f i < length (buffer f)"
  using kfifo_inv_size(1) by (simp add: slot_def kfifo_inv_def)

lemma slot_inj:
  assumes "slot f (p + a) = slot f (p + b)" "a < unat (fsize f)" "b < unat (fsize f)"
  shows "a = b"
proof -
  have "\<not> (slot f (p + a) = slot f (p + b))" if "a < b" "b < unat (fsize f)" for a b
  proof
    assume "slot f (p + a) = slot f (p + b)"
    then have "unat (fsize f) dvd (p + b) - (p + a)"
      using that by (subst mod_eq_dvd_iff_nat [symmetric]) (simp_all add: slot_def)
    then show False using that by (auto dest: dvd_imp_le)
  qed
  then show ?thesis using assms by (metis linorder_neqE_nat)
qed

text \<open>One byte of the writer goes to a free slot; one byte of the reader comes from a full one.\<close>

lemma put_byte_ok:
  assumes inv: "kfifo_inv f" and w: "writer_inv f (W_copying src len D)" and i: "i < unat len"
  shows "put_byte f src len i = Some (f\<lparr>buffer := (buffer f)[slot f (unat (fin f) + i) := src ! i]\<rparr>)"
proof -
  have "put_pos f len i = slot f (unat (fin f) + i)"
    using w by (intro put_pos_slot [OF inv _ i]) (simp add: room_le_size)
  moreover have "i < length src" using w i by simp
  ultimately show ?thesis
    using slot_less [OF inv] by (simp add: put_byte_def memcpy_one [simplified])
qed

lemma put_byte_step:
  assumes inv: "kfifo_inv f" and w: "writer_inv f (W_copying src len D)" and i: "i < unat len"
    and f': "put_byte f src len i = Some f'"
  shows "kfifo_inv f'" "contents f' = contents f" "writer_inv f' (W_copying src len (insert i D))"
proof -
  let ?b = "(buffer f)[slot f (unat (fin f) + i) := src ! i]"
  have b: "f' = f\<lparr>buffer := ?b\<rparr>" using put_byte_ok [OF inv w i] f' by simp
  have S: "unat len \<le> unat (fsize f)" using w by (simp add: room_le_size)
  have nth: "?b ! slot f (unat (fin f) + a) =
      (if a = i then src ! i else buffer f ! slot f (unat (fin f) + a))" if "a < unat (fsize f)" for a
    using slot_inj [of f "unat (fin f)" a i] that i S slot_less [OF inv] by (auto simp: nth_list_update)
  show "kfifo_inv f'" using inv by (simp add: b kfifo_inv_def)
  show same: "contents f' = contents f"
    unfolding b using w nth i
    by (intro contents_frame [OF inv, of "unat len"]) (auto simp: room_def capacity_def length_contents)
  have "room f' = room f" using same by (simp add: room_def b capacity_def)
  then show "writer_inv f' (W_copying src len (insert i D))"
    using w i S nth by (auto simp: b slot_def subset_iff)
qed

lemma get_byte_ok:
  assumes inv: "kfifo_inv f" and r: "reader_inv f (R_copying dst len D)" and i: "i < unat len"
  shows "get_byte f dst len i = Some (dst[i := contents f ! i])"
proof -
  have "unat len \<le> unat (fsize f)" using r used_le [OF inv] by (simp add: length_contents)
  then have "get_pos f len i = slot f (unat (fout f) + i)" by (rule get_pos_slot [OF inv _ i])
  moreover have "contents f ! i = buffer f ! slot f (unat (fout f) + i)"
    using r i by (intro nth_contents) (simp add: length_contents)
  ultimately show ?thesis using r i slot_less [OF inv] by (simp add: get_byte_def memcpy_one [simplified])
qed

lemma get_byte_step:
  assumes inv: "kfifo_inv f" and r: "reader_inv f (R_copying dst len D)" and i: "i < unat len"
    and d: "get_byte f dst len i = Some d"
  shows "reader_inv f (R_copying d len (insert i D))"
proof -
  have "d = dst[i := contents f ! i]" using get_byte_ok [OF inv r i] d by simp
  then show ?thesis using r i by (auto simp: nth_list_update)
qed

lemma writer_inv_get_publish:
  assumes "kfifo_inv f" "unat len \<le> length (contents f)" "writer_inv f w"
  shows "writer_inv (get_publish f len) w"
proof -
  have "room f \<le> room (get_publish f len)"
    using publish_get(2)[OF assms(1,2)] by (simp add: room_def capacity_def get_publish_def)
  with assms(3) show ?thesis
    by (cases w) (auto simp: slot_def get_publish_def)
qed

inductive_cases spsc_stepE: "spsc_step s t"

lemma spsc_step_inv: "spsc_inv s \<Longrightarrow> spsc_step s t \<Longrightarrow> spsc_inv t"
proof (erule spsc_stepE)
  fix n src assume "spsc_inv s" "t = s\<lparr>wr := W_copying src (put_len (fifo s) n) {}\<rparr>" "unat n \<le> length src"
  then show "spsc_inv t" by (auto simp: spsc_inv_def room_def unat_put_len)
next
  fix src len D i f assume a: "spsc_inv s" "t = s\<lparr>fifo := f, wr := W_copying src len (insert i D)\<rparr>"
    "wr s = W_copying src len D" "i < unat len" "put_byte (fifo s) src len i = Some f"
  then show "spsc_inv t"
    using put_byte_step [of "fifo s" src len D i f] reader_inv_cong [of f "fifo s" "rd s"]
    by (simp add: spsc_inv_def)
next
  fix src len assume a: "spsc_inv s" "wr s = W_copying src len {..<unat len}"
    "t = s\<lparr>fifo := put_publish (fifo s) len, wr := W_idle, sent := sent s @ take (unat len) src\<rparr>"
  then show "spsc_inv t"
    using publish_put [of "fifo s" len src]
      reader_inv_append [of "put_publish (fifo s) len" "fifo s" "take (unat len) src" "rd s"]
    by (simp add: spsc_inv_def room_def)
next
  fix n dst assume "spsc_inv s" "t = s\<lparr>rd := R_copying dst (get_len (fifo s) n) {}\<rparr>" "unat n \<le> length dst"
  then show "spsc_inv t" by (auto simp: spsc_inv_def unat_get_len)
next
  fix dst len D i d assume "spsc_inv s" "t = s\<lparr>rd := R_copying d len (insert i D)\<rparr>"
    "rd s = R_copying dst len D" "i < unat len" "get_byte (fifo s) dst len i = Some d"
  then show "spsc_inv t" using get_byte_step [of "fifo s" dst len D i d] by (simp add: spsc_inv_def)
next
  fix dst len assume a: "spsc_inv s" "rd s = R_copying dst len {..<unat len}"
    "t = s\<lparr>fifo := get_publish (fifo s) len, rd := R_idle, received := received s @ take (unat len) dst\<rparr>"
  then have "take (unat len) dst = take (unat len) (contents (fifo s))"
    by (intro nth_equalityI) (auto simp: spsc_inv_def)
  with a show "spsc_inv t"
    using publish_get[of "fifo s" len] writer_inv_get_publish[of "fifo s" len "wr s"]
    by (auto simp: spsc_inv_def)
qed

lemma spsc_init_inv: "spsc_init s \<Longrightarrow> spsc_inv s"
  by (simp add: spsc_init_def spsc_inv_def)

interpretation spsc: step_invariant spsc_init spsc_step spsc_inv
  by unfold_locales (auto intro: spsc_init_inv spsc_step_inv)

section \<open>The interface of a bounded byte queue\<close>

text \<open>
  What clients of a FIFO rely on: a put appends as many bytes as there is room
  for, a get removes bytes from the front in order, neither faults.
\<close>

locale byte_fifo =
  fixes put :: "'q \<Rightarrow> u8 list \<Rightarrow> u32 \<Rightarrow> ('q \<times> u32) option"
    and get :: "'q \<Rightarrow> u8 list \<Rightarrow> u32 \<Rightarrow> ('q \<times> u8 list \<times> u32) option"
    and queue :: "'q \<Rightarrow> u8 list"
    and cap :: "'q \<Rightarrow> nat"
    and wf :: "'q \<Rightarrow> bool"
  assumes put_spec: "wf q \<Longrightarrow> unat n \<le> length src \<Longrightarrow>
      \<exists>q' r. put q src n = Some (q', r) \<and> wf q' \<and> cap q' = cap q \<and>
        unat r = min (unat n) (cap q - length (queue q)) \<and> queue q' = queue q @ take (unat r) src"
    and get_spec: "wf q \<Longrightarrow> unat n \<le> length dst \<Longrightarrow>
      \<exists>q' d r. get q dst n = Some (q', d, r) \<and> wf q' \<and> cap q' = cap q \<and>
        unat r = min (unat n) (length (queue q)) \<and>
        d = take (unat r) (queue q) @ drop (unat r) dst \<and> queue q' = drop (unat r) (queue q)"
    and queue_cap: "wf q \<Longrightarrow> length (queue q) \<le> cap q"

datatype fifo_op = Put "u8 list" | Get "u8 list"

text \<open>
  A session of whole-buffer puts and gets: the final queue, the bytes accepted by
  the puts and the bytes delivered by the gets, in order.
\<close>

fun fifo_session ::
  "('q \<Rightarrow> u8 list \<Rightarrow> u32 \<Rightarrow> ('q \<times> u32) option) \<Rightarrow>
   ('q \<Rightarrow> u8 list \<Rightarrow> u32 \<Rightarrow> ('q \<times> u8 list \<times> u32) option) \<Rightarrow>
   'q \<Rightarrow> fifo_op list \<Rightarrow> ('q \<times> u8 list \<times> u8 list) option" where
  "fifo_session put get q [] = Some (q, [], [])"
| "fifo_session put get q (Put src # ops) = do {
     (q', r) \<leftarrow> put q src (of_nat (length src));
     (q'', acc, dlv) \<leftarrow> fifo_session put get q' ops;
     Some (q'', take (unat r) src @ acc, dlv)
   }"
| "fifo_session put get q (Get dst # ops) = do {
     (q', d, r) \<leftarrow> get q dst (of_nat (length dst));
     (q'', acc, dlv) \<leftarrow> fifo_session put get q' ops;
     Some (q'', acc, take (unat r) d @ dlv)
   }"

lemma unat_of_nat_le: "unat (of_nat n :: 'a::len word) \<le> n"
  by (simp add: unat_of_nat)

context byte_fifo
begin

lemma session_in_order:
  "wf q \<Longrightarrow> \<exists>q' acc dlv. fifo_session put get q ops = Some (q', acc, dlv) \<and> wf q' \<and>
     cap q' = cap q \<and> queue q @ acc = dlv @ queue q'"
proof (induction ops arbitrary: q)
  case Nil
  then show ?case by simp
next
  case (Cons op ops)
  show ?case
  proof (cases op)
    case (Put src)
    from put_spec[OF Cons.prems unat_of_nat_le, of src] obtain q1 r where
      1: "put q src (of_nat (length src)) = Some (q1, r)" "wf q1" "cap q1 = cap q"
      "queue q1 = queue q @ take (unat r) src" by blast
    from Cons.IH[OF 1(2)] obtain q2 acc dlv where
      "fifo_session put get q1 ops = Some (q2, acc, dlv)" "wf q2" "cap q2 = cap q1"
      "queue q1 @ acc = dlv @ queue q2" by blast
    with 1 Put show ?thesis by simp
  next
    case (Get dst)
    from get_spec[OF Cons.prems unat_of_nat_le, of dst] obtain q1 d r where
      1: "get q dst (of_nat (length dst)) = Some (q1, d, r)" "wf q1" "cap q1 = cap q"
      "unat r \<le> length (queue q)"
      "d = take (unat r) (queue q) @ drop (unat r) dst" "queue q1 = drop (unat r) (queue q)"
      by fastforce
    from Cons.IH[OF 1(2)] obtain q2 acc dlv where
      2: "fifo_session put get q1 ops = Some (q2, acc, dlv)" "wf q2" "cap q2 = cap q1"
      "queue q1 @ acc = dlv @ queue q2" by blast
    have "take (unat r) d = take (unat r) (queue q)" using 1(4,5) by simp
    moreover have "queue q @ acc = (take (unat r) (queue q) @ dlv) @ queue q2"
      using 2(4) unfolding 1(6) by (metis append_take_drop_id append.assoc)
    ultimately show ?thesis using 1(1,3) 2(1,2,3) Get by simp
  qed
qed

lemma put_then_get:
  assumes "wf q" "queue q = []" "length src \<le> cap q" "unat n = length src" "length dst = length src"
  shows "\<exists>q1 q2. put q src n = Some (q1, n) \<and> get q1 dst n = Some (q2, src, n) \<and> queue q2 = []"
proof -
  from put_spec[OF assms(1), of n src] assms obtain q1 r where
    1: "put q src n = Some (q1, r)" "wf q1" "unat r = length src" "queue q1 = src"
    by auto
  from get_spec[OF 1(2), of n dst] 1 assms obtain q2 d r' where
    2: "get q1 dst n = Some (q2, d, r')" "unat r' = length src" "d = src" "queue q2 = []"
    by auto
  have "r = n" "r' = n" using 1(3) 2(2) assms(4) by (metis unsigned_word_eqI)+
  with 1 2 show ?thesis by auto
qed

end

lemma length_contents_capacity: "kfifo_inv f \<Longrightarrow> length (contents f) \<le> capacity f"
  using used_le by (simp add: length_contents capacity_def)

interpretation raw_fifo: byte_fifo uu_kfifo_put uu_kfifo_get contents capacity kfifo_inv
  by unfold_locales
    (use uu_kfifo_put_spec uu_kfifo_get_spec length_contents_capacity in blast)+

interpretation locked_fifo: byte_fifo kfifo_put kfifo_get contents capacity kfifo_inv
  by unfold_locales
    (use uu_kfifo_put_spec kfifo_get_spec length_contents_capacity kfifo_put_def in metis)+

section \<open>Rounding up to a power of two\<close>

lemma clz_from_le: "clz_from x i \<le> i"
  by (induction i) auto

lemma clz_from_bits: "i - clz_from x i \<le> j \<Longrightarrow> j < i \<Longrightarrow> \<not> bit x j"
  by (induction i) (auto simp: less_Suc_eq split: if_splits)

lemma clz_from_top: "clz_from x i < i \<Longrightarrow> bit x (i - clz_from x i - 1)"
  by (induction i) auto

lemma fls_zero: "fls 0 = 0"
  by code_simp

lemma fls_bounds:
  assumes "x \<noteq> 0"
  shows "0 < fls x" "fls x \<le> 32" "2 ^ (fls x - 1) \<le> unat x" "unat x < 2 ^ fls x"
proof -
  have nz: "clz_from x 32 < 32"
  proof (rule ccontr)
    assume "\<not> clz_from x 32 < 32"
    then have "clz_from x 32 = 32" using clz_from_le[of x 32] by simp
    then have "\<not> bit x j" for j
      using clz_from_bits[of 32 x j] bit_imp_le_length[of x j] by fastforce
    with assms show False by (metis bit_eq_iff bit_0_eq bot_apply bot_bool_def)
  qed
  then show "0 < fls x" "fls x \<le> 32" by (simp_all add: fls_def)
  have top: "bit x (fls x - 1)" using clz_from_top[OF nz] by (simp add: fls_def)
  then have "bit (unat x) (fls x - 1)" by (simp add: bit_unsigned_iff)
  then show "2 ^ (fls x - 1) \<le> unat x"
    by (metis bit_iff_odd div_less even_zero leI)
  have "take_bit (fls x) (unat x) = unat x"
  proof (rule bit_eqI)
    fix j
    have "\<not> bit x j" if "fls x \<le> j"
      using clz_from_bits[of 32 x j] that bit_imp_le_length[of x j] by (fastforce simp: fls_def)
    then show "bit (take_bit (fls x) (unat x)) j = bit (unat x) j"
      by (auto simp: bit_take_bit_iff bit_unsigned_iff) (metis not_less)
  qed
  then show "unat x < 2 ^ fls x" by (metis take_bit_nat_less_exp)
qed

lemma fls_unique:
  assumes "2 ^ (r - 1) \<le> unat x" "unat x < 2 ^ r"
  shows "fls x = r"
proof -
  have nz: "x \<noteq> 0" using assms(1) by (metis not_one_le_zero order.trans one_le_power one_le_numeral unat_0)
  note b = fls_bounds[OF nz]
  have "2 ^ (r - 1) < (2 :: nat) ^ fls x" "(2 :: nat) ^ (fls x - 1) < 2 ^ r"
    using assms b by linarith+
  then have "r - 1 < fls x" "fls x - 1 < r"
    by (simp_all add: power_strict_increasing_iff)
  moreover have "0 < r" using assms nz by (cases r) (auto simp: unat_eq_zero)
  ultimately show ?thesis using b(1) by linarith
qed

text \<open>The tests of the binary search ask whether the top bits are clear.\<close>

lemma top_bits_clear:
  fixes x :: u32
  assumes "k \<le> 32"
  shows "x AND push_bit k (mask (32 - k)) = 0 \<longleftrightarrow> unat x < 2 ^ k"
proof -
  have len: "\<not> bit x i" if "32 \<le> i" for i using that bit_imp_le_length[of x i] by auto
  have "x AND push_bit k (mask (32 - k)) = 0 \<longleftrightarrow> (\<forall>i\<ge>k. \<not> bit x i)"
  proof
    assume a: "x AND push_bit k (mask (32 - k)) = 0"
    show "\<forall>i\<ge>k. \<not> bit x i"
    proof (intro allI impI notI)
      fix i assume i: "k \<le> i" "bit x i"
      then have "i < 32" using len[of i] by linarith
      with i have "bit (x AND push_bit k (mask (32 - k))) i"
        by (simp add: bit_and_iff bit_push_bit_iff bit_mask_iff less_diff_conv)
      with a show False by simp
    qed
  next
    assume "\<forall>i\<ge>k. \<not> bit x i"
    then show "x AND push_bit k (mask (32 - k)) = 0"
      by (auto simp: bit_eq_iff bit_and_iff bit_push_bit_iff)
  qed
  also have "\<dots> \<longleftrightarrow> drop_bit k x = 0"
  proof
    assume "\<forall>i\<ge>k. \<not> bit x i"
    then show "drop_bit k x = 0" by (intro bit_eqI) (simp add: bit_drop_bit_eq)
  next
    assume "drop_bit k x = 0"
    then have "\<not> bit (drop_bit k x) (i - k)" for i by simp
    then show "\<forall>i\<ge>k. \<not> bit x i" by (simp add: bit_drop_bit_eq) (metis le_add_diff_inverse)
  qed
  also have "\<dots> \<longleftrightarrow> unat (drop_bit k x) = 0" by (simp add: unat_eq_zero)
  also have "unat (drop_bit k x) = unat x div 2 ^ k"
    using unsigned_drop_bit_eq[of k x, where ?'a = nat] unsigned_less[of x, where ?'a = nat]
    by (simp add: drop_bit_eq_div take_bit_nat_eq_self)
  finally show ?thesis by (simp add: div_eq_0_iff)
qed
lemma top_bits:
  fixes x :: u32
  shows "x AND 0xffff0000 = 0 \<longleftrightarrow> unat x < 2 ^ 16"
    "x AND 0xff000000 = 0 \<longleftrightarrow> unat x < 2 ^ 24"
    "x AND 0xf0000000 = 0 \<longleftrightarrow> unat x < 2 ^ 28"
    "x AND 0xc0000000 = 0 \<longleftrightarrow> unat x < 2 ^ 30"
    "x AND 0x80000000 = 0 \<longleftrightarrow> unat x < 2 ^ 31"
  using top_bits_clear[of 16 x] top_bits_clear[of 24 x] top_bits_clear[of 28 x]
    top_bits_clear[of 30 x] top_bits_clear[of 31 x]
  by (simp_all add: mask_eq_exp_minus_1)

text \<open>One stage of the search: \<open>m\<close> clear top bits are shifted out without loss.\<close>

definition fls_stage :: "nat \<Rightarrow> u32 \<times> nat \<Rightarrow> u32 \<times> nat" where
  "fls_stage m = (\<lambda>(x, r). if unat x < 2 ^ (32 - m) then (push_bit m x, r - m) else (x, r))"

lemma constant_fls_stages:
  "constant_fls x = (if x = 0 then 0 else
     snd (fls_stage 1 (fls_stage 2 (fls_stage 4 (fls_stage 8 (fls_stage 16 (x, 32)))))))"
  by (simp add: constant_fls_def top_bits fls_stage_def Let_def split_beta)

lemma fls_stage_inv:
  assumes "fls_stage m (x, r) = (x', r')" "2 ^ (32 - 2 * m) \<le> unat x" "2 * m \<le> 32"
    "unat x = unat x0 * 2 ^ (32 - r)" "r \<le> 32" "2 * m - 1 < r" "0 < m"
  shows "2 ^ (32 - m) \<le> unat x'" "unat x' = unat x0 * 2 ^ (32 - r')" "r' \<le> 32" "m - 1 < r'"
proof -
  have "unat (push_bit m x) = unat x * 2 ^ m" if "unat x < 2 ^ (32 - m)"
  proof -
    have "unat x * 2 ^ m < 2 ^ (32 - m) * 2 ^ m" using that by simp
    also have "\<dots> = 2 ^ 32" using assms(3) by (simp flip: power_add)
    finally have "take_bit 32 (push_bit m (unat x)) = unat x * 2 ^ m"
      by (simp add: push_bit_eq_mult take_bit_nat_eq_self)
    then show ?thesis by (simp only: unsigned_push_bit_eq) simp
  qed
  moreover have "2 ^ (32 - m) \<le> unat x * 2 ^ m"
  proof -
    have "(2::nat) ^ (32 - m) = 2 ^ (32 - 2 * m) * 2 ^ m" using assms(3) by (simp flip: power_add)
    with assms(2) show ?thesis by simp
  qed
  moreover have "unat x0 * 2 ^ (32 - r) * 2 ^ m = unat x0 * 2 ^ (32 - (r - m))"
  proof -
    have "32 - (r - m) = (32 - r) + m" using assms(5,6) by linarith
    then show ?thesis by (simp add: power_add)
  qed
  moreover have "r - m \<le> 32" "m - 1 < r - m" "m - 1 < r" using assms(3,5,6,7) by linarith+
  moreover have "unat x < 2 ^ (32 - m) \<and> x' = push_bit m x \<and> r' = r - m \<or>
      2 ^ (32 - m) \<le> unat x \<and> x' = x \<and> r' = r"
    using assms(1) by (simp add: fls_stage_def split: if_splits)
  ultimately show "2 ^ (32 - m) \<le> unat x'" "unat x' = unat x0 * 2 ^ (32 - r')" "r' \<le> 32" "m - 1 < r'"
    using assms(4,5) by (elim disjE conjE; simp only:)+
qed

lemma constant_fls_eq: "constant_fls x = fls x"
proof (cases "x = 0")
  case True
  then show ?thesis by (simp add: constant_fls_def fls_zero)
next
  case False
  obtain x1 r1 where 1: "fls_stage 16 (x, 32) = (x1, r1)" by fastforce
  obtain x2 r2 where 2: "fls_stage 8 (x1, r1) = (x2, r2)" by fastforce
  obtain x3 r3 where 3: "fls_stage 4 (x2, r2) = (x3, r3)" by fastforce
  obtain x4 r4 where 4: "fls_stage 2 (x3, r3) = (x4, r4)" by fastforce
  obtain x5 r5 where 5: "fls_stage 1 (x4, r4) = (x5, r5)" by fastforce
  have "0 < unat x" using False by (simp add: unat_gt_0)
  then have i1: "2 ^ 16 \<le> unat x1" "unat x1 = unat x * 2 ^ (32 - r1)" "r1 \<le> 32" "15 < r1"
    using fls_stage_inv[OF 1, of x] by auto
  have i2: "2 ^ 24 \<le> unat x2" "unat x2 = unat x * 2 ^ (32 - r2)" "r2 \<le> 32" "7 < r2"
    using fls_stage_inv[OF 2, of x] i1 by auto
  have i3: "2 ^ 28 \<le> unat x3" "unat x3 = unat x * 2 ^ (32 - r3)" "r3 \<le> 32" "3 < r3"
    using fls_stage_inv[OF 3, of x] i2 by auto
  have i4: "2 ^ 30 \<le> unat x4" "unat x4 = unat x * 2 ^ (32 - r4)" "r4 \<le> 32" "1 < r4"
    using fls_stage_inv[OF 4, of x] i3 by auto
  have i5: "2 ^ 31 \<le> unat x5" "unat x5 = unat x * 2 ^ (32 - r5)" "r5 \<le> 32" "0 < r5"
    using fls_stage_inv[OF 5, of x] i4 by auto
  have "(2::nat) ^ 31 = 2 ^ (r5 - 1) * 2 ^ (32 - r5)" using i5(3,4) by (simp flip: power_add)
  with i5(1,2) have lo: "2 ^ (r5 - 1) \<le> unat x" by (metis mult_le_cancel2 zero_less_numeral zero_less_power)
  have "unat x * 2 ^ (32 - r5) < 2 ^ r5 * 2 ^ (32 - r5)"
    using unsigned_less[of x5, where ?'a = nat] i5(2,3) by (simp flip: power_add)
  then have "unat x < 2 ^ r5" by simp
  with lo have "fls x = r5" by (rule fls_unique)
  with False show ?thesis using 5 by (simp add: constant_fls_stages 1 2 3 4)
qed

lemma roundup_pow_of_two_spec:
  assumes "0 < n" "n \<le> 0x80000000"
  shows "is_power_of_2 (roundup_pow_of_two n)" "n \<le> roundup_pow_of_two n"
    "is_power_of_2 m \<Longrightarrow> n \<le> m \<Longrightarrow> roundup_pow_of_two n \<le> m"
proof -
  have n: "unat (n - 1) = unat n - 1" "unat n \<le> 2 ^ 31" "0 < unat n"
    using assms by (auto simp: unat_minus_one word_le_nat_alt unat_gt_0 word_less_nat_alt)
  have f: "fls (n - 1) < 32 \<and> unat n \<le> 2 ^ fls (n - 1) \<and> (\<forall>k. unat n \<le> 2 ^ k \<longrightarrow> fls (n - 1) \<le> k)"
  proof (cases "n - 1 = 0")
    case True
    then show ?thesis using n by (simp add: fls_zero)
  next
    case False
    note b = fls_bounds[OF False]
    have "2 ^ (fls (n - 1) - 1) < (2::nat) ^ 31" using b(3) n by linarith
    then have "fls (n - 1) - 1 < 31" by (simp only: power_strict_increasing_iff[of "2::nat"])
    moreover have "fls (n - 1) \<le> k" if "unat n \<le> 2 ^ k" for k
    proof -
      have "2 ^ (fls (n - 1) - 1) < (2::nat) ^ k" using b(3) n that by linarith
      then have "fls (n - 1) - 1 < k" by simp
      then show ?thesis by linarith
    qed
    ultimately show ?thesis using b(4) n by auto
  qed
  have r: "unat (roundup_pow_of_two n) = 2 ^ fls (n - 1)"
    using f by (simp add: roundup_pow_of_two_def push_bit_eq_mult unat_exp)
  show "is_power_of_2 (roundup_pow_of_two n)" using f r by (auto simp: is_power_of_2_iff)
  show "n \<le> roundup_pow_of_two n" using f r by (simp add: word_le_nat_alt)
  show "roundup_pow_of_two n \<le> m" if "is_power_of_2 m" "n \<le> m"
    using that f r by (auto simp: is_power_of_2_iff word_le_nat_alt)
qed

section \<open>Properties\<close>

text \<open>
  C8: one reader and one writer need no lock.  From a well-formed FIFO, after any
  interleaving of single byte copies, samplings and publications of one put and one get,
  repeated any number of times, with the bytes of each copy in any order, the bytes
  received so far followed by the bytes still queued are exactly the bytes sent, the FIFO
  is within its capacity, and no byte still to be copied by either side lies outside a
  buffer.
\<close>

theorem spsc_in_order:
  assumes "spsc_init s" and "spsc_step\<^sup>*\<^sup>* s t"
  shows "received t @ contents (fifo t) = sent t \<and>
    length (contents (fifo t)) \<le> capacity (fifo t) \<and>
    (\<forall>src len D i. wr t = W_copying src len D \<longrightarrow> i < unat len \<longrightarrow> put_byte (fifo t) src len i \<noteq> None) \<and>
    (\<forall>dst len D i. rd t = R_copying dst len D \<longrightarrow> i < unat len \<longrightarrow> get_byte (fifo t) dst len i \<noteq> None)"
proof (intro conjI allI impI)
  have inv: "spsc_inv t" by (rule spsc.inv_reachable [OF assms])
  then have k: "kfifo_inv (fifo t)" by (simp add: spsc_inv_def)
  show "received t @ contents (fifo t) = sent t" using inv by (simp add: spsc_inv_def)
  show "length (contents (fifo t)) \<le> capacity (fifo t)" by (rule length_contents_capacity [OF k])
  show "put_byte (fifo t) src len i \<noteq> None" if "wr t = W_copying src len D" "i < unat len" for src len D i
    using put_byte_ok [OF k _ that(2), of src D] inv that by (simp add: spsc_inv_def)
  show "get_byte (fifo t) dst len i \<noteq> None" if "rd t = R_copying dst len D" "i < unat len" for dst len D i
    using get_byte_ok [OF k _ that(2), of dst D] inv that by (simp add: spsc_inv_def)
qed

theorem spsc_in_order_witness:
  "let f = \<lparr>buffer = [0, 0, 0, 0], fsize = 4, fin = - 1, fout = - 1\<rparr>;
       g = \<lparr>buffer = [8, 0, 0, 0], fsize = 4, fin = - 1, fout = - 1\<rparr>;
       s = \<lparr>fifo = f, wr = W_idle, rd = R_idle, sent = [], received = []\<rparr>;
       t = s\<lparr>fifo := g, wr := W_copying [7, 8] 2 {1}\<rparr>
   in received t @ contents (fifo t) = sent t \<and> put_byte (fifo t) [7, 8] 2 0 \<noteq> None"
proof -
  define f where "f = \<lparr>buffer = [0, 0, 0, 0], fsize = 4, fin = - 1, fout = - 1\<rparr>"
  define g where "g = \<lparr>buffer = [8, 0, 0, 0], fsize = 4, fin = - 1, fout = - 1\<rparr>"
  define s where "s = \<lparr>fifo = f, wr = W_idle, rd = R_idle, sent = [], received = []\<rparr>"
  define t where "t = s\<lparr>fifo := g, wr := W_copying [7, 8] 2 {1}\<rparr>"
  have init: "spsc_init s"
    unfolding spsc_init_def s_def f_def kfifo_inv_def is_power_of_2_def contents_def by simp
  have "put_len f 2 = 2" by (simp add: put_len_def f_def)
  then have 1: "spsc_step s (s\<lparr>wr := W_copying [7, 8] 2 {}\<rparr>)"
    using w_sample[of s 2 "[7, 8]"] by (simp add: s_def)
  have "put_byte f [7, 8] 2 1 = Some g"
    by (simp add: put_byte_def put_pos_def put_first_def memcpy_def f_def g_def)
  then have 2: "spsc_step (s\<lparr>wr := W_copying [7, 8] 2 {}\<rparr>) t"
    using w_byte[of "s\<lparr>wr := W_copying [7, 8] 2 {}\<rparr>" "[7, 8]" 2 "{}" 1 g] by (simp add: s_def t_def)
  from 1 2 have steps: "spsc_step\<^sup>*\<^sup>* s t" by (meson rtranclp.simps)
  have "wr t = W_copying [7, 8] 2 {1}" by (simp add: t_def)
  then have "received t @ contents (fifo t) = sent t \<and> put_byte (fifo t) [7, 8] 2 0 \<noteq> None"
    using spsc_in_order[OF init steps] by simp
  then show ?thesis unfolding Let_def t_def s_def f_def g_def .
qed

text \<open>
  C29: any session of locked puts and gets on a well-formed FIFO completes without
  a fault; it ends in a well-formed FIFO of the same capacity, and what was queued
  before followed by what the puts accepted is what the gets delivered followed by
  what is still queued.
\<close>

theorem kfifo_session_in_order:
  assumes "kfifo_inv f"
  shows "\<exists>f' acc dlv. fifo_session kfifo_put kfifo_get f ops = Some (f', acc, dlv) \<and>
    kfifo_inv f' \<and> capacity f' = capacity f \<and> contents f @ acc = dlv @ contents f'"
  by (rule locked_fifo.session_in_order [OF assms])

theorem kfifo_session_in_order_witness:
  "let f = \<lparr>buffer = [5, 0, 0, 4], fsize = 4, fin = 1, fout = 0xffffffff\<rparr>
   in contents f = [4, 5] \<and> (\<exists>f' acc dlv.
     fifo_session kfifo_put kfifo_get f [Put [1, 2, 3], Get [0, 0, 0]] = Some (f', acc, dlv) \<and>
     [4, 5] @ acc = dlv @ contents f')"
proof -
  define f where "f = \<lparr>buffer = [5, 0, 0, 4], fsize = 4, fin = 1, fout = 0xffffffff\<rparr>"
  have c: "contents f = [4, 5]" by (simp add: contents_def slot_def f_def upt_rec)
  have "kfifo_inv f" by (simp add: kfifo_inv_def f_def is_power_of_2_def)
  from kfifo_session_in_order[OF this, of "[Put [1, 2, 3], Get [0, 0, 0]]"] c
  show ?thesis unfolding Let_def f_def by auto
qed

text \<open>
  C30: the unlocked put and get refine the operations of a bounded queue: a put
  appends the first \<open>r\<close> bytes of the source, where \<open>r\<close>, the value returned, is the
  smaller of the request and the free space; a get moves the first \<open>r\<close> bytes of
  the queue to the front of the destination and leaves the rest of it alone.
\<close>

theorem kfifo_refines_queue:
  assumes "kfifo_inv f" and "unat n \<le> length src"
  shows "(\<exists>f' r. uu_kfifo_put f src n = Some (f', r) \<and> kfifo_inv f' \<and>
      unat r = min (unat n) (capacity f - length (contents f)) \<and>
      contents f' = contents f @ take (unat r) src) \<and>
    (\<exists>f' d r. uu_kfifo_get f src n = Some (f', d, r) \<and> kfifo_inv f' \<and>
      unat r = min (unat n) (length (contents f)) \<and>
      d = take (unat r) (contents f) @ drop (unat r) src \<and>
      contents f' = drop (unat r) (contents f))"
  using raw_fifo.put_spec[OF assms] raw_fifo.get_spec[OF assms] by blast

theorem kfifo_refines_queue_witness:
  "\<exists>f' r. uu_kfifo_put \<lparr>buffer = [5, 0, 0, 4], fsize = 4, fin = 1, fout = 0xffffffff\<rparr> [1, 2, 3] 3
     = Some (f', r) \<and> contents f' = [4, 5, 1, 2] \<and> unat r = 2"
proof -
  define f where "f = \<lparr>buffer = [5, 0, 0, 4], fsize = 4, fin = 1, fout = 0xffffffff\<rparr>"
  have c: "contents f = [4, 5]" by (simp add: contents_def slot_def f_def upt_rec)
  have inv: "kfifo_inv f" by (simp add: kfifo_inv_def f_def is_power_of_2_def)
  have len: "unat (3 :: u32) \<le> length [1, 2, 3 :: u8]" by simp
  have cap: "capacity f = 4" by (simp add: capacity_def f_def)
  from kfifo_refines_queue[OF inv len] obtain f' r where
    p: "uu_kfifo_put f [1, 2, 3] 3 = Some (f', r)"
      "unat r = min (unat (3 :: u32)) (capacity f - length (contents f))"
      "contents f' = contents f @ take (unat r) [1, 2, 3]"
    by blast
  then have "unat r = 2" "contents f' = [4, 5, 1, 2]" by (simp_all add: c cap)
  with p(1) show ?thesis unfolding f_def by blast
qed

text \<open>
  C33: \<^verbatim>\<open>kfifo_alloc\<close> with memory available and a size from 1 to \<open>2 ^ 31\<close> gives an
  empty well-formed FIFO whose capacity is the least power of two that is at least
  the size asked for.
\<close>

theorem kfifo_alloc_capacity:
  assumes "0 < sz" "sz \<le> 0x80000000" and "\<And>n. \<exists>b. kmalloc n = Some b \<and> length b = unat n"
  shows "\<exists>f. kfifo_alloc kmalloc True sz = Inr (Inr f) \<and> kfifo_inv f \<and> contents f = [] \<and>
    unat sz \<le> capacity f \<and> (\<forall>k. unat sz \<le> 2 ^ k \<longrightarrow> capacity f \<le> 2 ^ k)"
proof -
  define n where "n = (if is_power_of_2 sz then sz else roundup_pow_of_two sz)"
  have n: "is_power_of_2 n" "sz \<le> n" "\<And>m. is_power_of_2 m \<Longrightarrow> sz \<le> m \<Longrightarrow> n \<le> m"
    using roundup_pow_of_two_spec[OF assms(1,2)] by (auto simp: n_def)
  from assms(3) obtain b where b: "kmalloc n = Some b" "length b = unat n" by blast
  define f where "f = \<lparr>buffer = b, fsize = n, fin = 0, fout = 0\<rparr>"
  have "kfifo_alloc kmalloc True sz = Inr (Inr f)"
    using assms(2) b n(1) by (simp add: kfifo_alloc_def kfifo_init_def f_def not_less flip: n_def)
  moreover have "kfifo_inv f" "contents f = []" "unat sz \<le> capacity f"
    using n b(2) by (simp_all add: f_def kfifo_inv_def contents_def capacity_def word_le_nat_alt)
  moreover have "capacity f \<le> 2 ^ k" if k: "unat sz \<le> 2 ^ k" for k
  proof (cases "k < 32")
    case True
    have u: "unat (2 ^ k :: u32) = 2 ^ k" using True by (simp add: unat_exp)
    then have "is_power_of_2 (2 ^ k)" using True is_power_of_2_iff by blast
    with n(3)[of "2 ^ k"] k u show ?thesis
      by (simp add: f_def capacity_def word_le_nat_alt)
  next
    case False
    have "unat n < 2 ^ 32" using unsigned_less[of n, where ?'a = nat] by simp
    also have "\<dots> \<le> (2 :: nat) ^ k" using False by (intro power_increasing) auto
    finally show ?thesis by (simp add: f_def capacity_def)
  qed
  ultimately show ?thesis by blast
qed

theorem kfifo_alloc_capacity_witness:
  "\<exists>f. kfifo_alloc (\<lambda>n. Some (replicate (unat n) 0)) True 5 = Inr (Inr f) \<and> capacity f \<le> 2 ^ 3 \<and>
     5 \<le> capacity f"
proof -
  have "\<exists>f. kfifo_alloc (\<lambda>n. Some (replicate (unat n) 0)) True 5 = Inr (Inr f) \<and> kfifo_inv f \<and>
      contents f = [] \<and> unat (5 :: u32) \<le> capacity f \<and>
      (\<forall>k. unat (5 :: u32) \<le> 2 ^ k \<longrightarrow> capacity f \<le> 2 ^ k)"
    by (rule kfifo_alloc_capacity) auto
  then obtain f where f: "kfifo_alloc (\<lambda>n. Some (replicate (unat n) 0)) True 5 = Inr (Inr f)"
    "5 \<le> capacity f" "\<forall>k. 5 \<le> (2::nat) ^ k \<longrightarrow> capacity f \<le> 2 ^ k" by auto
  from spec[OF f(3), of 3] have "capacity f \<le> 2 ^ 3" by simp
  with f(1,2) show ?thesis by blast
qed

text \<open>
  C34: the binary search that \<^verbatim>\<open>fls\<close> uses for compile-time constants and the
  count-leading-zeros instruction it uses otherwise agree on every word.
\<close>

theorem constant_fls_agrees: "constant_fls x = fls x"
  by (rule constant_fls_eq)

end
