(* ===== verification/Skbuff.thy ===== *)
theory Skbuff
  imports Prelude
begin

unbundle bit_operations_syntax

text \<open>
  Reading a packet: the part of \<^verbatim>\<open>struct sk_buff\<close> (\<^verbatim>\<open>include/linux/skbuff.h\<close>,
  \<^verbatim>\<open>net/core/skbuff.c\<close>) that the socket filter reads.  A packet has a linear part
  inside one allocated buffer, then page fragments, then a list of further
  packets.  The theory shows that \<^verbatim>\<open>skb_copy_bits\<close> reads the flattened packet.
\<close>

section \<open>Packets\<close>

text \<open>
  \<open>skb_head\<close> is the allocated buffer from \<^verbatim>\<open>skb->head\<close> to \<^verbatim>\<open>skb->end\<close>; the
  pointers into it are offsets from its start.  \<open>skb_frags\<close> holds the bytes of
  each page fragment, \<open>skb_dev\<close> the index of the device, if there is one.
\<close>

datatype sk_buff = Skb
  (skb_head: "u8 list")
  (skb_data: nat)
  (skb_tail: nat)
  (skb_len: u32)
  (skb_data_len: u32)
  (skb_network_header: int)
  (skb_mac_header: int)
  (skb_protocol: u16)
  (skb_pkt_type: u8)
  (skb_dev: "u32 option")
  (skb_frags: "u8 list list")
  (skb_frag_list: "sk_buff list")

definition skb_is_nonlinear :: "sk_buff \<Rightarrow> bool" where
  "skb_is_nonlinear skb \<longleftrightarrow> skb_data_len skb \<noteq> 0"

definition skb_headlen :: "sk_buff \<Rightarrow> u32" where
  "skb_headlen skb = skb_len skb - skb_data_len skb"

text \<open>\<open>n\<close> bytes of the allocated buffer from position \<open>i\<close>.\<close>

definition buf_read :: "sk_buff \<Rightarrow> int \<Rightarrow> int \<Rightarrow> crash + u8 list" where
  "buf_read skb i n = mem_read (skb_head skb) i n"

text \<open>
  The copy loops of \<^verbatim>\<open>skb_copy_bits\<close>.  A result \<^term>\<open>Inr None\<close> is \<^verbatim>\<open>-EFAULT\<close>,
  \<^term>\<open>Inr (Some bs)\<close> the bytes copied.  The fragment loop returns the bytes it
  copied with \<open>start\<close>, \<open>offset\<close> and \<open>len\<close> as they stand at its end (\<open>len = 0\<close>: the
  copy is complete).
\<close>

fun copy_page_frags ::
  "u8 list list \<Rightarrow> int \<Rightarrow> int \<Rightarrow> int \<Rightarrow> u8 list \<times> int \<times> int \<times> int" where
  "copy_page_frags [] start offset len = ([], start, offset, len)"
| "copy_page_frags (frag # frags) start offset len =
     (let end = start + int (length frag); copy = end - offset in
      if copy > 0 then
        let copy = (if copy > len then len else copy);
            bs = take (nat copy) (drop (nat (offset - start)) frag)
        in if len - copy = 0 then (bs, end, offset + copy, 0)
           else let (bs', st) = copy_page_frags frags end (offset + copy) (len - copy)
                in (bs @ bs', st)
      else copy_page_frags frags end offset len)"

definition prepend :: "u8 list \<Rightarrow> crash + u8 list option \<Rightarrow> crash + u8 list option" where
  "prepend bs r =
     (case r of Inl c \<Rightarrow> Inl c | Inr None \<Rightarrow> Inr None | Inr (Some bs') \<Rightarrow> Inr (Some (bs @ bs')))"

lemma size_skb_frag_list:
  "size_list size (skb_frag_list skb) < size skb"
  by (cases skb) simp

function skb_copy_bits :: "sk_buff \<Rightarrow> int \<Rightarrow> int \<Rightarrow> crash + u8 list option"
  and copy_frag_list :: "sk_buff list \<Rightarrow> int \<Rightarrow> int \<Rightarrow> int \<Rightarrow> crash + u8 list option" where
  "skb_copy_bits skb offset len =
     (let start = sint (skb_headlen skb) in
      if offset > sint (skb_len skb) - len then Inr None
      else
        let copy = start - offset in
        if copy > 0 then
          let copy = (if copy > len then len else copy) in
          case buf_read skb (int (skb_data skb) + offset) copy of
            Inl c \<Rightarrow> Inl c
          | Inr bs \<Rightarrow>
              if len - copy = 0 then Inr (Some bs)
              else case copy_page_frags (skb_frags skb) start (offset + copy) (len - copy) of
                (bs', start', offset', len') \<Rightarrow>
                  if len' = 0 then Inr (Some (bs @ bs'))
                  else prepend (bs @ bs') (copy_frag_list (skb_frag_list skb) start' offset' len')
        else case copy_page_frags (skb_frags skb) start offset len of
          (bs', start', offset', len') \<Rightarrow>
            if len' = 0 then Inr (Some bs')
            else prepend bs' (copy_frag_list (skb_frag_list skb) start' offset' len'))"
| "copy_frag_list [] start offset len = (if len = 0 then Inr (Some []) else Inr None)"
| "copy_frag_list (skb # skbs) start offset len =
     (let end = start + sint (skb_len skb); copy = end - offset in
      if copy > 0 then
        let copy = (if copy > len then len else copy) in
        case skb_copy_bits skb (offset - start) copy of
          Inl c \<Rightarrow> Inl c
        | Inr None \<Rightarrow> Inr None
        | Inr (Some bs) \<Rightarrow>
            if len - copy = 0 then Inr (Some bs)
            else prepend bs (copy_frag_list skbs end (offset + copy) (len - copy))
      else copy_frag_list skbs end offset len)"
  by pat_completeness auto
termination
  by (relation "measure (\<lambda>x. case x of Inl (skb, _, _) \<Rightarrow> size skb
        | Inr (skbs, _, _, _) \<Rightarrow> size_list size skbs)")
    (simp_all add: size_skb_frag_list)

declare skb_copy_bits.simps [simp del]

text \<open>
  \<^verbatim>\<open>skb_header_pointer\<close>: the bytes behind the pointer it returns, which points into
  the linear part when that holds them and into the caller's buffer otherwise.
\<close>

definition skb_header_pointer :: "sk_buff \<Rightarrow> int \<Rightarrow> int \<Rightarrow> crash + u8 list option" where
  "skb_header_pointer skb offset len =
     (if sint (skb_headlen skb) - offset \<ge> len
      then (case buf_read skb (int (skb_data skb) + offset) len of
              Inl c \<Rightarrow> Inl c | Inr bs \<Rightarrow> Inr (Some bs))
      else skb_copy_bits skb offset len)"

text \<open>
  Editing the linear part.  A pointer that leaves the allocated buffer is the
  panic of \<^verbatim>\<open>skb_over_panic\<close> and \<^verbatim>\<open>skb_under_panic\<close>; buffer positions are
  natural numbers, so they do not wrap around the address space.  \<open>skb_put\<close>,
  \<open>skb_push\<close> and \<open>skb_pull\<close> return the position of the pointer they return.
\<close>

fun skb_set :: "u8 list \<Rightarrow> nat \<Rightarrow> nat \<Rightarrow> u32 \<Rightarrow> sk_buff \<Rightarrow> sk_buff" where
  "skb_set h' d' t' l' (Skb h d t l dl nh mh pr pt dv frags fl) =
     Skb h' d' t' l' dl nh mh pr pt dv frags fl"

definition skb_put :: "sk_buff \<Rightarrow> u32 \<Rightarrow> crash + nat \<times> sk_buff" where
  "skb_put skb len =
     (if skb_is_nonlinear skb then Inl Bug
      else if skb_tail skb + unat len > length (skb_head skb) then Inl Bug
      else Inr (skb_tail skb,
                skb_set (skb_head skb) (skb_data skb) (skb_tail skb + unat len) (skb_len skb + len) skb))"

definition skb_push :: "sk_buff \<Rightarrow> u32 \<Rightarrow> crash + nat \<times> sk_buff" where
  "skb_push skb len =
     (if skb_data skb < unat len then Inl Bug
      else Inr (skb_data skb - unat len,
                skb_set (skb_head skb) (skb_data skb - unat len) (skb_tail skb) (skb_len skb + len) skb))"

definition uu_skb_pull :: "sk_buff \<Rightarrow> u32 \<Rightarrow> crash + nat \<times> sk_buff" where
  "uu_skb_pull skb len =
     (if skb_len skb - len < skb_data_len skb then Inl Bug
      else Inr (skb_data skb + unat len,
                skb_set (skb_head skb) (skb_data skb + unat len) (skb_tail skb) (skb_len skb - len) skb))"

definition skb_pull :: "sk_buff \<Rightarrow> u32 \<Rightarrow> crash + (nat \<times> sk_buff) option" where
  "skb_pull skb len =
     (if len > skb_len skb then Inr None
      else bindE (uu_skb_pull skb len) (\<lambda>r. Inr (Some r)))"

definition uu_skb_trim :: "sk_buff \<Rightarrow> u32 \<Rightarrow> sk_buff" where
  "uu_skb_trim skb len =
     (if skb_data_len skb \<noteq> 0 then skb
      else skb_set (skb_head skb) (skb_data skb) (skb_data skb + unat len) len skb)"

definition skb_trim :: "sk_buff \<Rightarrow> u32 \<Rightarrow> sk_buff" where
  "skb_trim skb len = (if skb_len skb > len then uu_skb_trim skb len else skb)"

definition skb_headroom :: "sk_buff \<Rightarrow> u32" where
  "skb_headroom skb = of_nat (skb_data skb)"

definition skb_tailroom :: "sk_buff \<Rightarrow> int" where
  "skb_tailroom skb =
     (if skb_is_nonlinear skb then 0 else int (length (skb_head skb)) - int (skb_tail skb))"

definition skb_reserve :: "sk_buff \<Rightarrow> nat \<Rightarrow> sk_buff" where
  "skb_reserve skb len =
     skb_set (skb_head skb) (skb_data skb + len) (skb_tail skb + len) (skb_len skb) skb"

section \<open>Well-formed packets and their bytes\<close>

definition skb_linear :: "sk_buff \<Rightarrow> u8 list" where
  "skb_linear skb = take (skb_tail skb - skb_data skb) (drop (skb_data skb) (skb_head skb))"

fun skb_bytes :: "sk_buff \<Rightarrow> u8 list" where
  "skb_bytes (Skb h d t l dl nh mh pr pt dv frags fl) =
     take (t - d) (drop d h) @ concat frags @ concat (map skb_bytes fl)"

fun skb_wf :: "sk_buff \<Rightarrow> bool" where
  "skb_wf (Skb h d t l dl nh mh pr pt dv frags fl) =
     (d \<le> t \<and> t \<le> length h \<and>
      unat dl = length (concat frags) + length (concat (map skb_bytes fl)) \<and>
      unat l = (t - d) + unat dl \<and> unat l < 2 ^ 31 \<and> list_all skb_wf fl)"

section \<open>Copying is reading the flattened packet\<close>

lemma skb_bytes_sel:
  "skb_bytes skb =
     skb_linear skb @ concat (skb_frags skb) @ concat (map skb_bytes (skb_frag_list skb))"
  by (cases skb) (simp add: skb_linear_def)

lemma skb_wfD:
  assumes "skb_wf skb"
  shows "skb_data skb \<le> skb_tail skb" "skb_tail skb \<le> length (skb_head skb)"
    "unat (skb_data_len skb) = length (concat (skb_frags skb)) +
       length (concat (map skb_bytes (skb_frag_list skb)))"
    "unat (skb_len skb) = (skb_tail skb - skb_data skb) + unat (skb_data_len skb)"
    "unat (skb_len skb) < 2 ^ 31" "list_all skb_wf (skb_frag_list skb)"
  using assms by (cases skb; simp only: skb_wf.simps sk_buff.sel)+

lemma skb_wf_linear: "skb_wf skb \<Longrightarrow> length (skb_linear skb) = skb_tail skb - skb_data skb"
  using skb_wfD(1,2) [of skb] by (simp add: skb_linear_def)

lemma skb_wf_length: "skb_wf skb \<Longrightarrow> length (skb_bytes skb) = unat (skb_len skb)"
  using skb_wf_linear [of skb] skb_wfD(3,4) [of skb] skb_bytes_sel [of skb]
  by (simp only: length_append)

lemma skb_wf_headlen:
  assumes "skb_wf skb" shows "unat (skb_headlen skb) = length (skb_linear skb)"
  using skb_wfD(4) [OF assms]
  by (simp add: skb_headlen_def unat_sub word_le_nat_alt skb_wf_linear [OF assms])

lemma skb_wf_headlen_bound: "skb_wf skb \<Longrightarrow> unat (skb_headlen skb) < 2 ^ 31"
  using skb_wf_headlen [of skb] skb_wf_linear [of skb] skb_wfD(4,5) [of skb] by linarith

lemma copy_page_frags_hit:
  assumes "start \<le> offset" "0 < len" "offset + len \<le> start + int (length (concat frags))"
  shows "\<exists>s o'. copy_page_frags frags start offset len =
    (take (nat len) (drop (nat (offset - start)) (concat frags)), s, o', 0)"
  using assms
proof (induction frags arbitrary: start offset len)
  case Nil
  then show ?case by simp
next
  case (Cons frag frags)
  let ?e = "start + int (length frag)"
  have n: "nat (offset - start) - length frag = nat (offset - ?e)" by simp
  consider (past) "?e \<le> offset" | (inside) "offset < ?e" "offset + len \<le> ?e"
    | (across) "offset < ?e" "?e < offset + len" by linarith
  then show ?case
  proof cases
    case past
    from Cons.IH [OF past Cons.prems(2), of] Cons.prems past show ?thesis
      by (auto simp: n)
  next
    case inside
    with Cons.prems show ?thesis by (auto simp: Let_def)
  next
    case across
    let ?l = "len - (?e - offset)"
    from Cons.prems across Cons.IH [of ?e ?e ?l] obtain s o' where
      "copy_page_frags frags ?e ?e ?l = (take (nat ?l) (concat frags), s, o', 0)" by auto
    moreover have "nat len - (length frag - nat (offset - start)) = nat ?l"
      using across Cons.prems by simp
    ultimately show ?thesis using across Cons.prems
      by (auto simp: Let_def n)
  qed
qed

lemma copy_page_frags_miss:
  assumes "start \<le> offset" "0 < len" "start + int (length (concat frags)) < offset + len"
  shows "copy_page_frags frags start offset len =
    (drop (nat (offset - start)) (concat frags), start + int (length (concat frags)),
     max offset (start + int (length (concat frags))),
     len - (max offset (start + int (length (concat frags))) - offset))"
  using assms
proof (induction frags arbitrary: start offset len)
  case Nil
  then show ?case by simp
next
  case (Cons frag frags)
  let ?e = "start + int (length frag)"
  have n: "nat (offset - start) - length frag = nat (offset - ?e)" by simp
  show ?case
  proof (cases "?e \<le> offset")
    case True
    from Cons.IH [OF True Cons.prems(2)] Cons.prems True show ?thesis
      by (simp add: n add.assoc)
  next
    case False
    let ?l = "len - (?e - offset)"
    from Cons.prems False Cons.IH [of ?e ?e ?l] show ?thesis
      by (simp add: Let_def n max_def algebra_simps)
  qed
qed

lemma buf_read_linear:
  assumes "skb_wf skb" "0 \<le> offset" "0 \<le> n" "offset + n \<le> int (length (skb_linear skb))"
  shows "buf_read skb (int (skb_data skb) + offset) n =
    Inr (take (nat n) (drop (nat offset) (skb_linear skb)))"
proof -
  have n: "nat (int (skb_data skb) + offset) = skb_data skb + nat offset"
    using assms by simp
  have t: "skb_data skb + nat offset + nat n \<le> skb_tail skb" "skb_tail skb \<le> length (skb_head skb)"
    using assms skb_wf_linear [OF assms(1)] skb_wfD(1,2) [OF assms(1)] by linarith+
  have "take (nat n) (drop (nat offset) (skb_linear skb)) =
      take (nat n) (drop (skb_data skb + nat offset) (skb_head skb))"
    using t by (simp add: skb_linear_def drop_take add.commute)
  moreover have "0 \<le> int (skb_data skb) + offset"
    "int (skb_data skb) + offset + n \<le> int (length (skb_head skb))"
    using t assms(2,3) by linarith+
  ultimately show ?thesis using assms(3) by (simp add: buf_read_def mem_read_ok n)
qed

text \<open>What a copy of \<open>len\<close> bytes from \<open>offset\<close> on must return.\<close>

definition read_spec :: "u8 list \<Rightarrow> int \<Rightarrow> int \<Rightarrow> u8 list option" where
  "read_spec bs offset len =
     (if offset + len \<le> int (length bs) then Some (take (nat len) (drop (nat offset) bs)) else None)"

lemma read_spec_skip:
  "int (length xs) \<le> offset \<Longrightarrow> read_spec (xs @ ys) offset len = read_spec ys (offset - int (length xs)) len"
  by (simp add: read_spec_def nat_diff_distrib)

lemma read_spec_within:
  "0 \<le> offset \<Longrightarrow> 0 < len \<Longrightarrow> offset + len \<le> int (length xs) \<Longrightarrow>
   read_spec (xs @ ys) offset len = Some (take (nat len) (drop (nat offset) xs))"
  by (simp add: read_spec_def)

lemma read_spec_across:
  assumes "0 \<le> offset" "offset < int (length xs)" "int (length xs) < offset + len"
  shows "read_spec (xs @ ys) offset len =
    map_option (\<lambda>bs. drop (nat offset) xs @ bs) (read_spec ys 0 (offset + len - int (length xs)))"
proof -
  have "nat len - (length xs - nat offset) = nat (offset + len - int (length xs))"
    using assms by linarith
  then show ?thesis using assms by (simp add: read_spec_def)
qed

lemma prepend_spec: "prepend bs (Inr r) = Inr (map_option (\<lambda>bs'. bs @ bs') r)"
  by (cases r) (simp_all add: prepend_def)

lemma copy_frag_list_spec:
  assumes "\<forall>s\<in>set skbs. \<forall>offset len. 0 \<le> offset \<longrightarrow> 0 < len \<longrightarrow>
      skb_copy_bits s offset len = Inr (read_spec (skb_bytes s) offset len)"
    and "list_all skb_wf skbs" "start \<le> offset" "0 < len"
  shows "copy_frag_list skbs start offset len =
    Inr (read_spec (concat (map skb_bytes skbs)) (offset - start) len)"
  using assms
proof (induction skbs arbitrary: start offset len)
  case Nil
  then show ?case by (simp add: read_spec_def)
next
  case (Cons skb skbs)
  let ?e = "start + int (length (skb_bytes skb))"
  have wf: "skb_wf skb" using Cons.prems by simp
  have e: "sint (skb_len skb) = int (length (skb_bytes skb))"
    using sint_small [OF skb_wfD(5) [OF wf]] skb_wf_length [OF wf] by simp
  have IH: "copy_frag_list skbs ?e o' l = Inr (read_spec (concat (map skb_bytes skbs)) (o' - ?e) l)"
    if "?e \<le> o'" "0 < l" for o' l
    using Cons.IH [OF _ _ that] Cons.prems by simp
  have P: "skb_copy_bits skb o' l = Inr (read_spec (skb_bytes skb) o' l)" if "0 \<le> o'" "0 < l" for o' l
    using Cons.prems that by simp
  consider (past) "?e \<le> offset" | (inside) "offset < ?e" "offset + len \<le> ?e"
    | (across) "offset < ?e" "?e < offset + len" by linarith
  then show ?case
  proof cases
    case past
    then show ?thesis using Cons.prems IH [OF past]
      by (simp add: e read_spec_skip Let_def algebra_simps)
  next
    case inside
    then show ?thesis using Cons.prems
      by (simp add: e P read_spec_def Let_def)
  next
    case across
    have "skb_copy_bits skb (offset - start) (?e - offset) =
        Inr (Some (drop (nat (offset - start)) (skb_bytes skb)))"
      using P [of "offset - start" "?e - offset"] across Cons.prems by (simp add: read_spec_def)
    moreover have "copy_frag_list skbs ?e ?e (len - (?e - offset)) =
        Inr (read_spec (concat (map skb_bytes skbs)) 0 (offset - start + len - int (length (skb_bytes skb))))"
      using IH [of ?e "len - (?e - offset)"] across by (simp add: algebra_simps)
    ultimately show ?thesis using across Cons.prems
      by (simp add: e prepend_spec read_spec_across Let_def)
  qed
qed

lemma copy_paged_spec:
  assumes fl: "\<And>start offset len. start \<le> offset \<Longrightarrow> 0 < len \<Longrightarrow>
      copy_frag_list fl start offset len = Inr (read_spec bs (offset - start) len)"
    and "start \<le> offset" "0 < len"
  shows "(case copy_page_frags frags start offset len of (bs', start', offset', len') \<Rightarrow>
        if len' = 0 then Inr (Some (pre @ bs'))
        else prepend (pre @ bs') (copy_frag_list fl start' offset' len')) =
    Inr (map_option (\<lambda>out. pre @ out) (read_spec (concat frags @ bs) (offset - start) len))"
proof (cases "offset + len \<le> start + int (length (concat frags))")
  case True
  then show ?thesis
    using copy_page_frags_hit [OF assms(2,3) True] assms(2,3)
    by (auto simp: read_spec_within simp del: length_concat)
next
  case False
  let ?e = "start + int (length (concat frags))"
  have "0 < len - (max offset ?e - offset)" using False assms(2,3) by (simp add: max_def)
  then show ?thesis
    using copy_page_frags_miss [OF assms(2,3)] assms(2,3) False
    by (cases "?e \<le> offset")
      (simp_all add: fl prepend_spec read_spec_skip read_spec_across option.map_comp comp_def max_def
        algebra_simps del: length_concat)
qed

lemma size_frag: "s \<in> set (skb_frag_list skb) \<Longrightarrow> size s < size skb"
  using size_skb_frag_list [of skb] size_list_estimation' [of s "skb_frag_list skb" "size s" size]
  by simp

lemma skb_copy_bits_spec:
  "skb_wf skb \<Longrightarrow> 0 \<le> offset \<Longrightarrow> 0 < len \<Longrightarrow>
   skb_copy_bits skb offset len = Inr (read_spec (skb_bytes skb) offset len)"
proof (induction skb arbitrary: offset len rule: measure_induct_rule [of size])
  case (less skb)
  let ?lin = "skb_linear skb" and ?fr = "concat (skb_frags skb)"
  let ?fl = "concat (map skb_bytes (skb_frag_list skb))"
  have start: "sint (skb_headlen skb) = int (length ?lin)"
    using skb_wf_headlen [OF less.prems(1)] sint_small [OF skb_wf_headlen_bound [OF less.prems(1)]]
    by simp
  have l: "sint (skb_len skb) = int (length (skb_bytes skb))"
    using sint_small [OF skb_wfD(5) [OF less.prems(1)]] skb_wf_length [OF less.prems(1)] by simp
  have wf: "list_all skb_wf (skb_frag_list skb)" by (rule skb_wfD(6) [OF less.prems(1)])
  have fl: "copy_frag_list (skb_frag_list skb) s o' n = Inr (read_spec ?fl (o' - s) n)"
    if "s \<le> o'" "0 < n" for s o' n
    using less.IH [OF size_frag] wf that by (intro copy_frag_list_spec) (auto simp: list_all_iff)
  note paged = copy_paged_spec [of "skb_frag_list skb" ?fl, OF fl]
  note simps = skb_copy_bits.simps [of skb offset len] start l
  consider (short) "int (length (skb_bytes skb)) < offset + len"
    | (inside) "offset + len \<le> int (length (skb_bytes skb))" "offset + len \<le> int (length ?lin)"
    | (across) "offset + len \<le> int (length (skb_bytes skb))" "offset < int (length ?lin)"
        "int (length ?lin) < offset + len"
    | (past) "offset + len \<le> int (length (skb_bytes skb))" "int (length ?lin) \<le> offset" 
    by linarith
  then show ?case
  proof cases
    case short
    then show ?thesis by (simp add: simps read_spec_def)
  next
    case inside
    then show ?thesis using less.prems
      by (simp add: simps buf_read_linear skb_bytes_sel [of skb] read_spec_within Let_def
          del: length_concat)
  next
    case across
    have "buf_read skb (int (skb_data skb) + offset) (int (length ?lin) - offset) =
        Inr (drop (nat offset) ?lin)"
      using across less.prems by (simp add: buf_read_linear)
    then show ?thesis 
      using across less.prems paged [of "int (length ?lin)" "int (length ?lin)"
          "offset + len - int (length ?lin)" "drop (nat offset) ?lin" "skb_frags skb"]
      by (simp add: simps skb_bytes_sel [of skb] read_spec_across Let_def algebra_simps
          del: length_concat)
  next
    case past
    then show ?thesis
      using less.prems paged [of "int (length ?lin)" offset len "[]" "skb_frags skb",
          unfolded append_Nil]
      by (simp add: simps skb_bytes_sel [of skb] read_spec_skip Let_def option.map_ident
          del: length_concat)
  qed
qed

lemma skb_header_pointer_spec:
  assumes "skb_wf skb" "0 \<le> offset" "0 < len"
  shows "skb_header_pointer skb offset len = Inr (read_spec (skb_bytes skb) offset len)"
proof -
  have start: "sint (skb_headlen skb) = int (length (skb_linear skb))"
    using skb_wf_headlen [OF assms(1)] sint_small [OF skb_wf_headlen_bound [OF assms(1)]] by simp
  show ?thesis
  proof (cases "offset + len \<le> int (length (skb_linear skb))")
    case True
    then show ?thesis using assms
      by (simp add: skb_header_pointer_def start buf_read_linear skb_bytes_sel [of skb] read_spec_within)
  next
    case False
    then show ?thesis using assms
      by (simp add: skb_header_pointer_def start skb_copy_bits_spec)
  qed
qed

text \<open>
  C19: Reading a well-formed packet, whatever its division into a linear part, page
  fragments and a list of further packets, is reading the flattened sequence of its
  bytes: \<^verbatim>\<open>skb_copy_bits\<close> and \<^verbatim>\<open>skb_header_pointer\<close> return the
  \<open>len\<close> bytes from \<open>offset\<close> on when the packet has them, \<^verbatim>\<open>-EFAULT\<close> or
  \<^verbatim>\<open>NULL\<close> otherwise, and never touch memory outside the buffer.
\<close>

theorem skb_reads_flattened:
  assumes "skb_wf skb" "0 \<le> offset" "0 < len"
  shows "skb_copy_bits skb offset len = Inr (read_spec (skb_bytes skb) offset len) \<and>
    skb_header_pointer skb offset len = Inr (read_spec (skb_bytes skb) offset len)"
  using skb_copy_bits_spec [OF assms] skb_header_pointer_spec [OF assms] by simp

text \<open>A packet of ten bytes in its linear part, a page fragment and a further packet.\<close>

definition example_skb :: sk_buff where
  "example_skb = Skb [0xff, 1, 2, 3, 0xff] 1 4 10 7 1 0 0x800 0 (Some 2) [[4, 5], [6]]
     [Skb [7, 8, 9, 10] 0 4 4 0 0 0 0 0 None [] []]"

theorem skb_reads_flattened_witness:
  "skb_copy_bits example_skb 2 7 = Inr (Some [3, 4, 5, 6, 7, 8, 9]) \<and>
   skb_header_pointer example_skb 2 7 = Inr (Some [3, 4, 5, 6, 7, 8, 9])"
proof -
  have "skb_wf example_skb" by (simp add: example_skb_def)
  moreover have "read_spec (skb_bytes example_skb) 2 7 = Some [3, 4, 5, 6, 7, 8, 9]"
    by (simp add: example_skb_def read_spec_def)
  ultimately show ?thesis using skb_reads_flattened [of example_skb 2 7] by simp
qed

section \<open>Editing the linear part\<close>

lemma skb_set_sel [simp]:
  "skb_head (skb_set h d t l skb) = h" "skb_data (skb_set h d t l skb) = d"
  "skb_tail (skb_set h d t l skb) = t" "skb_len (skb_set h d t l skb) = l"
  "skb_data_len (skb_set h d t l skb) = skb_data_len skb"
  "skb_frags (skb_set h d t l skb) = skb_frags skb"
  "skb_frag_list (skb_set h d t l skb) = skb_frag_list skb"
  "skb_is_nonlinear (skb_set h d t l skb) = skb_is_nonlinear skb"
  by (cases skb; simp add: skb_is_nonlinear_def)+

lemma skb_set_set [simp]: "skb_set h d t l (skb_set h' d' t' l' skb) = skb_set h d t l skb"
  by (cases skb) simp

lemma skb_set_id [simp]: "skb_set (skb_head skb) (skb_data skb) (skb_tail skb) (skb_len skb) skb = skb"
  by (cases skb) simp

lemma skb_wf_set:
  assumes "skb_wf skb" "d \<le> t" "t \<le> length h"
    "unat l = (t - d) + unat (skb_data_len skb)" "unat l < 2 ^ 31"
  shows "skb_wf (skb_set h d t l skb)"
  using assms by (cases skb) (simp only: skb_set.simps skb_wf.simps sk_buff.sel simp_thms)

lemma skb_bytes_set:
  "skb_bytes (skb_set h d t l skb) =
     take (t - d) (drop d h) @ concat (skb_frags skb) @ concat (map skb_bytes (skb_frag_list skb))"
  by (cases skb) simp

lemma skb_linear_bytes:
  assumes "skb_wf skb" "\<not> skb_is_nonlinear skb"
  shows "skb_bytes skb = skb_linear skb"
    "concat (skb_frags skb) @ concat (map skb_bytes (skb_frag_list skb)) = []"
    "unat (skb_data_len skb) = 0" "unat (skb_len skb) = skb_tail skb - skb_data skb"
proof -
  show z: "unat (skb_data_len skb) = 0" using assms(2) by (simp add: skb_is_nonlinear_def)
  then show e: "concat (skb_frags skb) @ concat (map skb_bytes (skb_frag_list skb)) = []"
    using skb_wfD(3) [OF assms(1)] by (metis add_is_0 append_is_Nil_conv length_0_conv)
  show "skb_bytes skb = skb_linear skb" using e skb_bytes_sel [of skb] by simp
  show "unat (skb_len skb) = skb_tail skb - skb_data skb" using z skb_wfD(4) [OF assms(1)] by simp
qed

lemma skb_put_spec:
  assumes "skb_wf skb" "\<not> skb_is_nonlinear skb"
    "skb_tail skb + unat n \<le> length (skb_head skb)" "length (skb_head skb) < 2 ^ 31"
  shows "\<exists>skb'. skb_put skb n = Inr (skb_tail skb, skb') \<and> skb_wf skb' \<and>
    skb_bytes skb' = skb_bytes skb @ take (unat n) (drop (skb_tail skb) (skb_head skb))"
proof -
  let ?l = "skb_len skb + n"
  note lin = skb_linear_bytes [OF assms(1,2)] and wf = skb_wfD [OF assms(1)]
  have l: "unat ?l = skb_tail skb + unat n - skb_data skb"
    using lin(4) wf(1) assms(3,4) by (simp add: unat_word_ariths)
  have "take (skb_tail skb + unat n - skb_data skb) (drop (skb_data skb) (skb_head skb)) =
      skb_linear skb @ take (unat n) (drop (skb_tail skb) (skb_head skb))"
  proof -
    have e: "skb_tail skb + unat n - skb_data skb = (skb_tail skb - skb_data skb) + unat n"
      using wf(1) by simp
    show ?thesis unfolding e take_add using wf(1) by (simp add: skb_linear_def)
  qed
  then show ?thesis
    using assms lin l wf by (simp add: skb_put_def skb_wf_set skb_bytes_set)
qed

lemma skb_pull_spec:
  assumes "skb_wf skb" "unat n \<le> skb_tail skb - skb_data skb"
  shows "\<exists>skb'. skb_pull skb n = Inr (Some (skb_data skb + unat n, skb')) \<and> skb_wf skb' \<and>
    skb_bytes skb' = drop (unat n) (skb_bytes skb) \<and> skb_push skb' n = Inr (skb_data skb, skb)"
proof -
  note wf = skb_wfD [OF assms(1)]
  have n: "n \<le> skb_len skb" using wf(4) assms(2) by (simp add: word_le_nat_alt)
  have l: "unat (skb_len skb - n) = unat (skb_len skb) - unat n" using n by (simp add: unat_sub)
  have "\<not> skb_len skb - n < skb_data_len skb" using wf(4) assms(2) by (simp add: word_less_nat_alt l)
  moreover have "take (skb_tail skb - (skb_data skb + unat n)) (drop (skb_data skb + unat n) (skb_head skb))
      = drop (unat n) (skb_linear skb)"
    by (simp add: skb_linear_def drop_take add.commute diff_diff_left)
  moreover have "skb_wf (skb_set (skb_head skb) (skb_data skb + unat n) (skb_tail skb) (skb_len skb - n) skb)"
    using wf assms l by (intro skb_wf_set) simp_all
  ultimately show ?thesis
    using n assms skb_wf_linear [OF assms(1)]
    by (simp add: skb_pull_def uu_skb_pull_def skb_bytes_set skb_bytes_sel [of skb] skb_push_def
        del: length_concat)
qed

lemma skb_trim_spec:
  assumes "skb_wf skb" "\<not> skb_is_nonlinear skb"
  shows "skb_wf (skb_trim skb n) \<and> skb_bytes (skb_trim skb n) = take (unat n) (skb_bytes skb)"
proof (cases "n < skb_len skb")
  case True
  note lin = skb_linear_bytes [OF assms] and wf = skb_wfD [OF assms(1)]
  have n: "unat n < skb_tail skb - skb_data skb" using True lin(4) by (simp add: word_less_nat_alt)
  have "skb_wf (skb_set (skb_head skb) (skb_data skb) (skb_data skb + unat n) n skb)"
    using n wf lin assms by (intro skb_wf_set) simp_all
  moreover have "take (unat n) (drop (skb_data skb) (skb_head skb)) = take (unat n) (skb_linear skb)"
    using n by (simp add: skb_linear_def min_def)
  ultimately show ?thesis
    using True lin assms(2) by (simp add: skb_trim_def uu_skb_trim_def skb_bytes_set skb_is_nonlinear_def)
next
  case False
  then show ?thesis using assms skb_wf_length [OF assms(1)]
    by (simp add: skb_trim_def word_less_nat_alt)
qed

text \<open>
  C31: On every well-formed packet, \<^verbatim>\<open>skb_pull\<close> of at most the linear part removes exactly
  the first bytes and \<^verbatim>\<open>skb_push\<close> of the same amount restores the packet.  On a linear
  packet \<^verbatim>\<open>skb_trim\<close> cuts it to the given length (leaving a shorter packet alone) and
  \<^verbatim>\<open>skb_put\<close> within the tailroom appends room at the end without a panic; these keep the
  packet well-formed.  On a packet with data outside the linear part \<^verbatim>\<open>skb_trim\<close> does nothing
  and \<^verbatim>\<open>skb_put\<close> is a \<^verbatim>\<open>BUG\<close>.
\<close>

theorem skb_linear_edits:
  assumes "skb_wf skb" "length (skb_head skb) < 2 ^ 31"
  shows "(unat n \<le> length (skb_linear skb) \<longrightarrow>
      (\<exists>p skb'. skb_pull skb n = Inr (Some (p, skb')) \<and> skb_wf skb' \<and>
        skb_bytes skb' = drop (unat n) (skb_bytes skb) \<and> skb_push skb' n = Inr (skb_data skb, skb))) \<and>
    (if skb_is_nonlinear skb then skb_trim skb n = skb \<and> skb_put skb m = Inl Bug
     else skb_wf (skb_trim skb n) \<and> skb_bytes (skb_trim skb n) = take (unat n) (skb_bytes skb) \<and>
       (unat m \<le> nat (skb_tailroom skb) \<longrightarrow>
         (\<exists>skb' bs. skb_put skb m = Inr (skb_tail skb, skb') \<and> skb_wf skb' \<and>
           skb_bytes skb' = skb_bytes skb @ bs \<and> length bs = unat m)))"
proof (intro conjI impI)
  assume "unat n \<le> length (skb_linear skb)"
  then have "unat n \<le> skb_tail skb - skb_data skb" using skb_wf_linear [OF assms(1)] by simp
  from skb_pull_spec [OF assms(1) this]
  show "\<exists>p skb'. skb_pull skb n = Inr (Some (p, skb')) \<and> skb_wf skb' \<and>
      skb_bytes skb' = drop (unat n) (skb_bytes skb) \<and> skb_push skb' n = Inr (skb_data skb, skb)"
    by blast
next
  show "if skb_is_nonlinear skb then skb_trim skb n = skb \<and> skb_put skb m = Inl Bug
     else skb_wf (skb_trim skb n) \<and> skb_bytes (skb_trim skb n) = take (unat n) (skb_bytes skb) \<and>
       (unat m \<le> nat (skb_tailroom skb) \<longrightarrow>
         (\<exists>skb' bs. skb_put skb m = Inr (skb_tail skb, skb') \<and> skb_wf skb' \<and>
           skb_bytes skb' = skb_bytes skb @ bs \<and> length bs = unat m))"
  proof (cases "skb_is_nonlinear skb")
    case True
    then show ?thesis by (simp add: skb_trim_def uu_skb_trim_def skb_put_def skb_is_nonlinear_def)
  next
    case False
    have "\<exists>skb' bs. skb_put skb m = Inr (skb_tail skb, skb') \<and> skb_wf skb' \<and>
        skb_bytes skb' = skb_bytes skb @ bs \<and> length bs = unat m" if "unat m \<le> nat (skb_tailroom skb)"
    proof -
      have m: "skb_tail skb + unat m \<le> length (skb_head skb)"
        using False that skb_wfD(2) [OF assms(1)] by (simp add: skb_tailroom_def)
      then have "length (take (unat m) (drop (skb_tail skb) (skb_head skb))) = unat m" by simp
      then show ?thesis using skb_put_spec [OF assms(1) False m assms(2)] by blast
    qed
    then show ?thesis using False skb_trim_spec [OF assms(1) False] by simp
  qed
qed

theorem skb_linear_edits_witness:
  "\<exists>p skb'. skb_pull (Skb [0xff, 1, 2, 3, 0xff] 1 4 3 0 1 0 0 0 None [] []) 2 = Inr (Some (p, skb')) \<and>
     skb_bytes skb' = [3]"
  using skb_linear_edits [of "Skb [0xff, 1, 2, 3, 0xff] 1 4 3 0 1 0 0 0 None [] []" 2 1]
  by (auto simp: skb_is_nonlinear_def skb_linear_def)

end
