(* ===== verification/Nlattr.thy ===== *)
theory Nlattr
  imports Skbuff
begin

unbundle bit_operations_syntax

text \<open>
  Netlink attributes (\<^verbatim>\<open>include/net/netlink.h\<close>, \<^verbatim>\<open>lib/nlattr.c\<close>): a stream of
  type-length-value records, its reader and its writer.  An attribute is the
  position of its header in the buffer it lives in.  The theory shows that
  reading ends on every buffer and stays inside the stream it is given, that
  \<^verbatim>\<open>nla_find\<close> and \<^verbatim>\<open>nla_parse\<close> return the first and the last attribute of a type,
  that validation enforces the policy, and that what \<^verbatim>\<open>nla_put\<close> writes is what the
  reader finds.
\<close>

section \<open>Memory\<close>

text \<open>\<^verbatim>\<open>memchr\<close> (only whether it finds the byte) and \<^verbatim>\<open>memcmp\<close> of \<^verbatim>\<open>lib/string.c\<close>.\<close>

fun memchr :: "u8 list \<Rightarrow> int \<Rightarrow> u8 \<Rightarrow> nat \<Rightarrow> crash + bool" where
  "memchr buf p c 0 = Inr False"
| "memchr buf p c (Suc n) =
     bindE (mem_read buf p 1) (\<lambda>bs. if bs = [c] then Inr True else memchr buf (p + 1) c n)"

fun memcmp :: "u8 list \<Rightarrow> u8 list \<Rightarrow> int" where
  "memcmp (a # as) (b # bs) =
     (let res = uint a - uint b in if res \<noteq> 0 then res else memcmp as bs)"
| "memcmp _ _ = 0"

text \<open>A little-endian 16-bit field.\<close>

definition u16_bytes :: "u16 \<Rightarrow> u8 list" where
  "u16_bytes x = [ucast x, ucast (drop_bit 8 x)]"

definition read_u16 :: "u8 list \<Rightarrow> int \<Rightarrow> crash + u16" where
  "read_u16 buf p =
     bindE (mem_read buf p 2)
       (\<lambda>bs. Inr (ucast (bs ! 0) OR push_bit 8 (ucast (bs ! 1))))"

section \<open>Attributes in a buffer\<close>

definition nlattr_nla_len :: "u8 list \<Rightarrow> int \<Rightarrow> crash + u16" where
  "nlattr_nla_len buf p = read_u16 buf p"

definition nlattr_nla_type :: "u8 list \<Rightarrow> int \<Rightarrow> crash + u16" where
  "nlattr_nla_type buf p = read_u16 buf (p + 2)"

definition NLA_TYPE_MASK :: u16 where
  "NLA_TYPE_MASK = NOT (0x8000 OR 0x4000)"

definition NLA_ALIGN :: "int \<Rightarrow> int" where
  "NLA_ALIGN len = (len + 4 - 1) AND NOT (4 - 1)"

definition NLA_HDRLEN :: int where
  "NLA_HDRLEN = NLA_ALIGN 4"

definition nla_attr_size :: "int \<Rightarrow> int" where
  "nla_attr_size payload = NLA_HDRLEN + payload"

definition nla_total_size :: "int \<Rightarrow> int" where
  "nla_total_size payload = NLA_ALIGN (nla_attr_size payload)"

definition nla_padlen :: "int \<Rightarrow> int" where
  "nla_padlen payload = nla_total_size payload - nla_attr_size payload"

definition nla_type :: "u8 list \<Rightarrow> int \<Rightarrow> crash + int" where
  "nla_type buf p = bindE (nlattr_nla_type buf p) (\<lambda>t. Inr (uint (t AND NLA_TYPE_MASK)))"

definition nla_data :: "int \<Rightarrow> int" where
  "nla_data p = p + NLA_HDRLEN"

definition nla_len :: "u8 list \<Rightarrow> int \<Rightarrow> crash + int" where
  "nla_len buf p = bindE (nlattr_nla_len buf p) (\<lambda>l. Inr (uint l - NLA_HDRLEN))"

text \<open>The conjuncts are evaluated from left to right: the length is read only when a header fits.\<close>

definition nla_ok :: "u8 list \<Rightarrow> int \<Rightarrow> int \<Rightarrow> crash + bool" where
  "nla_ok buf p remaining =
     (if remaining \<ge> 4
      then bindE (nlattr_nla_len buf p) (\<lambda>l. Inr (uint l \<ge> 4 \<and> uint l \<le> remaining))
      else Inr False)"

definition nla_next :: "u8 list \<Rightarrow> int \<Rightarrow> int \<Rightarrow> crash + int \<times> int" where
  "nla_next buf p remaining =
     bindE (nlattr_nla_len buf p)
       (\<lambda>l. let totlen = NLA_ALIGN (uint l) in Inr (p + totlen, remaining - totlen))"

text \<open>
  The loop macro \<^verbatim>\<open>nla_for_each_attr(pos, head, len, rem)\<close> with the body \<open>body\<close>, which
  leaves the loop with \<open>Inl\<close> and goes on with \<open>Inr\<close>.  The loop ends with the body's
  value, or with the state and the bytes left over.
\<close>

lemma and_not_mask: "x AND NOT (mask m) = push_bit m (drop_bit m x)" for x :: int
proof (rule bit_eqI)
  fix k
  show "bit (x AND NOT (mask m)) k \<longleftrightarrow> bit (push_bit m (drop_bit m x)) k"
    by (cases "m \<le> k")
      (simp_all add: bit_and_iff bit_not_iff bit_mask_iff bit_push_bit_iff bit_drop_bit_eq)
qed

lemma NLA_ALIGN_eq: "NLA_ALIGN n = 4 * ((n + 3) div 4)"
proof -
  have "(4 - 1 :: int) = mask 2" by (simp add: mask_eq_exp_minus_1)
  then have "NLA_ALIGN n = push_bit 2 (drop_bit 2 (n + 4 - 1))"
    unfolding NLA_ALIGN_def by (simp only: and_not_mask)
  then show ?thesis by (simp add: push_bit_eq_mult drop_bit_eq_div)
qed

lemma NLA_HDRLEN_eq [simp]: "NLA_HDRLEN = 4"
  by (simp add: NLA_HDRLEN_def NLA_ALIGN_eq)

lemma NLA_ALIGN_bounds: "n \<le> NLA_ALIGN n" "NLA_ALIGN n < n + 4"
  by (simp_all add: NLA_ALIGN_eq)

lemma nla_next_less:
  assumes "nla_ok buf p rem = Inr True" "nla_next buf p rem = Inr (p', rem')"
  shows "rem' < rem \<and> 4 \<le> rem"
proof -
  from assms(1) obtain l where l: "4 \<le> rem" "nlattr_nla_len buf p = Inr l" "4 \<le> uint l"
    by (auto simp: nla_ok_def split: if_splits)
  then show ?thesis using assms(2) NLA_ALIGN_bounds(1) [of "uint l"]
    by (simp add: nla_next_def Let_def)
qed

function nla_for_each_attr ::
  "(int \<Rightarrow> 's \<Rightarrow> crash + ('r + 's)) \<Rightarrow> u8 list \<Rightarrow> int \<Rightarrow> int \<Rightarrow> 's \<Rightarrow> crash + ('r + 's \<times> int)" where
  "nla_for_each_attr body buf p rem s =
     bindE (nla_ok buf p rem) (\<lambda>ok.
       if \<not> ok then Inr (Inr (s, rem))
       else bindE (body p s) (\<lambda>r. case r of
              Inl v \<Rightarrow> Inr (Inl v)
            | Inr s' \<Rightarrow> bindE (nla_next buf p rem) (\<lambda>(p', rem').
                nla_for_each_attr body buf p' rem' s')))"
  by auto
termination
  by (relation "measure (\<lambda>(body, buf, p, rem, s). nat rem)") (auto dest: nla_next_less)

declare nla_for_each_attr.simps [simp del]

section \<open>Searching, validating, parsing\<close>

definition nla_find :: "u8 list \<Rightarrow> int \<Rightarrow> int \<Rightarrow> int \<Rightarrow> crash + int option" where
  "nla_find buf p len attrtype =
     bindE (nla_for_each_attr
              (\<lambda>nla _. bindE (nla_type buf nla)
                         (\<lambda>t. Inr (if t = attrtype then Inl nla else Inr ())))
              buf p len ())
       (\<lambda>r. case r of Inl nla \<Rightarrow> Inr (Some nla) | Inr _ \<Rightarrow> Inr None)"

definition nla_find_nested :: "u8 list \<Rightarrow> int \<Rightarrow> int \<Rightarrow> crash + int option" where
  "nla_find_nested buf nla attrtype =
     bindE (nla_len buf nla) (\<lambda>len. nla_find buf (nla_data nla) len attrtype)"

text \<open>The attribute kinds of a policy are the numbers of the enumeration.\<close>

abbreviation "NLA_UNSPEC \<equiv> (0 :: u16)"
abbreviation "NLA_U8 \<equiv> (1 :: u16)"
abbreviation "NLA_STRING \<equiv> (5 :: u16)"
abbreviation "NLA_FLAG \<equiv> (6 :: u16)"
abbreviation "NLA_NESTED \<equiv> (8 :: u16)"
abbreviation "NLA_NESTED_COMPAT \<equiv> (9 :: u16)"
abbreviation "NLA_NUL_STRING \<equiv> (10 :: u16)"
abbreviation "NLA_BINARY \<equiv> (11 :: u16)"
abbreviation "NLA_TYPE_MAX \<equiv> (11 :: u16)"

record nla_policy =
  pol_type :: u16
  pol_len :: u16

definition nla_attr_minlen :: "u16 list" where
  "nla_attr_minlen = [0, 1, 2, 4, 8, 0, 0, 0, 4, 0, 0, 0]"

text \<open>
  \<^verbatim>\<open>validate_nla\<close>: \<^term>\<open>Inr None\<close> is the return value 0, \<^term>\<open>Inr (Some e)\<close> a
  negative error.  The cases of its \<^verbatim>\<open>switch\<close> that fall through call the next one.
\<close>

definition validate_string :: "u8 list \<Rightarrow> int \<Rightarrow> int \<Rightarrow> nla_policy \<Rightarrow> crash + errno option" where
  "validate_string buf nla attrlen pt =
     (if attrlen < 1 then Inr (Some ERANGE)
      else if pol_len pt \<noteq> 0 then
        bindE (mem_read buf (nla_data nla + attrlen - 1) 1) (\<lambda>b.
          let attrlen = (if b = [0] then attrlen - 1 else attrlen)
          in Inr (if attrlen > uint (pol_len pt) then Some ERANGE else None))
      else Inr None)"

definition validate_nul_string :: "u8 list \<Rightarrow> int \<Rightarrow> int \<Rightarrow> nla_policy \<Rightarrow> crash + errno option" where
  "validate_nul_string buf nla attrlen pt =
     (let minlen = (if pol_len pt \<noteq> 0 then min attrlen (uint (pol_len pt) + 1) else attrlen)
      in if minlen = 0 then Inr (Some EINVAL)
         else bindE (memchr buf (nla_data nla) 0 (nat (minlen mod 2 ^ 32))) (\<lambda>found.
                if \<not> found then Inr (Some EINVAL) else validate_string buf nla attrlen pt))"

definition validate_compat :: "u8 list \<Rightarrow> int \<Rightarrow> int \<Rightarrow> nla_policy \<Rightarrow> crash + errno option" where
  "validate_compat buf nla attrlen pt =
     (let len = uint (pol_len pt) in
      if attrlen < len then Inr (Some ERANGE)
      else if attrlen < NLA_ALIGN len then Inr None
      else if attrlen < NLA_ALIGN len + NLA_HDRLEN then Inr (Some ERANGE)
      else bindE (nla_len buf (nla_data nla + NLA_ALIGN len)) (\<lambda>inner.
             Inr (if attrlen < NLA_ALIGN len + NLA_HDRLEN + inner then Some ERANGE else None)))"

definition validate_minlen :: "int \<Rightarrow> nla_policy \<Rightarrow> crash + errno option" where
  "validate_minlen attrlen pt =
     (let minlen = (if pol_len pt \<noteq> 0 then uint (pol_len pt)
                    else if pol_type pt \<noteq> NLA_UNSPEC then uint (nla_attr_minlen ! unat (pol_type pt))
                    else 0)
      in Inr (if attrlen < minlen then Some ERANGE else None))"

definition validate_nla :: "u8 list \<Rightarrow> int \<Rightarrow> int \<Rightarrow> nla_policy list \<Rightarrow> crash + errno option" where
  "validate_nla buf nla maxtype policy =
     bindE (nla_len buf nla) (\<lambda>attrlen.
     bindE (nla_type buf nla) (\<lambda>type.
       if type \<le> 0 \<or> type > maxtype then Inr None
       else if length policy \<le> nat type then Inl Bad_index
       else let pt = policy ! nat type in
         if pol_type pt > NLA_TYPE_MAX then Inl Bug
         else if pol_type pt = NLA_FLAG then Inr (if attrlen > 0 then Some ERANGE else None)
         else if pol_type pt = NLA_NUL_STRING then validate_nul_string buf nla attrlen pt
         else if pol_type pt = NLA_STRING then validate_string buf nla attrlen pt
         else if pol_type pt = NLA_BINARY
           then Inr (if pol_len pt \<noteq> 0 \<and> attrlen > uint (pol_len pt) then Some ERANGE else None)
         else if pol_type pt = NLA_NESTED_COMPAT then validate_compat buf nla attrlen pt
         else if pol_type pt = NLA_NESTED \<and> attrlen = 0 then Inr None
         else validate_minlen attrlen pt))"

definition nla_validate :: "u8 list \<Rightarrow> int \<Rightarrow> int \<Rightarrow> int \<Rightarrow> nla_policy list \<Rightarrow> crash + errno option" where
  "nla_validate buf p len maxtype policy =
     bindE (nla_for_each_attr
              (\<lambda>nla _. bindE (validate_nla buf nla maxtype policy)
                         (\<lambda>err. Inr (case err of Some e \<Rightarrow> Inl e | None \<Rightarrow> Inr ())))
              buf p len ())
       (\<lambda>r. case r of Inl e \<Rightarrow> Inr (Some e) | Inr _ \<Rightarrow> Inr None)"

text \<open>
  \<^verbatim>\<open>nla_parse\<close>: the error, if any, and the table \<^verbatim>\<open>tb\<close> as it stands at the end.
  A policy of \<^term>\<open>None\<close> is the null pointer.  The caller provides a table of \<open>maxtype + 1\<close>
  pointers; for \<open>maxtype < -1\<close> the size of the \<^verbatim>\<open>memset\<close>, an unsigned number of 32 bits, is
  that of no table.
\<close>

definition nla_parse ::
  "int \<Rightarrow> u8 list \<Rightarrow> int \<Rightarrow> int \<Rightarrow> nla_policy list option \<Rightarrow> crash + errno option \<times> int option list" where
  "nla_parse maxtype buf p len policy =
     (if maxtype < -1 \<and> 4 * (maxtype + 1) mod 2 ^ 32 \<noteq> 0 then Inl Out_of_bounds else
      bindE (nla_for_each_attr
              (\<lambda>nla tb. bindE (nla_type buf nla) (\<lambda>type.
                 if type > 0 \<and> type \<le> maxtype then
                   bindE (case policy of Some pol \<Rightarrow> validate_nla buf nla maxtype pol | None \<Rightarrow> Inr None)
                     (\<lambda>err. Inr (case err of
                        Some e \<Rightarrow> Inl (e, tb)
                      | None \<Rightarrow> Inr (tb[nat type := Some nla])))
                 else Inr (Inr tb)))
              buf p len (replicate (nat (maxtype + 1)) None))
       (\<lambda>r. case r of Inl (e, tb) \<Rightarrow> Inr (Some e, tb) | Inr (tb, rem) \<Rightarrow> Inr (None, tb)))"



section \<open>Copying and comparing payloads\<close>

definition nla_strlcpy :: "u8 list \<Rightarrow> u8 list \<Rightarrow> int \<Rightarrow> u32 \<Rightarrow> crash + u32 \<times> u8 list" where
  "nla_strlcpy dst buf nla dstsize =
     bindE (nla_len buf nla) (\<lambda>l.
       let srclen = word_of_int l in
       bindE (if srclen > 0 then mem_read buf (nla_data nla + uint srclen - 1) 1 else Inr []) (\<lambda>b.
         let srclen = (if srclen > 0 \<and> b = [0] then srclen - 1 else srclen) in
         if dstsize > 0 then
           let len = (if srclen \<ge> dstsize then dstsize - 1 else srclen) in
           bindE (mem_write dst 0 (replicate (unat dstsize) 0)) (\<lambda>dst.
           bindE (mem_read buf (nla_data nla) (uint len)) (\<lambda>src.
           bindE (mem_write dst 0 src) (\<lambda>dst. Inr (srclen, dst))))
         else Inr (srclen, dst)))"

definition nla_memcpy :: "u8 list \<Rightarrow> u8 list \<Rightarrow> int \<Rightarrow> int \<Rightarrow> crash + int \<times> u8 list" where
  "nla_memcpy dest buf src count =
     bindE (nla_len buf src) (\<lambda>l.
       let minlen = min count l in
       bindE (mem_read buf (nla_data src) minlen) (\<lambda>bs.
       bindE (mem_write dest 0 bs) (\<lambda>dest. Inr (minlen, dest))))"

definition nla_memcmp :: "u8 list \<Rightarrow> int \<Rightarrow> u8 list \<Rightarrow> crash + int" where
  "nla_memcmp buf nla data =
     bindE (nla_len buf nla) (\<lambda>l.
       let d = l - int (length data) in
       if d = 0 then bindE (mem_read buf (nla_data nla) l) (\<lambda>bs. Inr (memcmp bs data))
       else Inr d)"

text \<open>\<open>str\<close> is the characters before the terminating zero.\<close>

definition nla_strcmp :: "u8 list \<Rightarrow> int \<Rightarrow> u8 list \<Rightarrow> crash + int" where
  "nla_strcmp buf nla str =
     bindE (nla_len buf nla) (\<lambda>l.
       let len = int (length str) + 1; d = l - len in
       if d = 0 then bindE (mem_read buf (nla_data nla) len) (\<lambda>bs. Inr (memcmp bs (str @ [0])))
       else Inr d)"

section \<open>The attributes of a stream\<close>

text \<open>
  The positions the loop visits, and what it finds there: the length field, the
  type and the payload of the attribute at \<open>q\<close>.
\<close>

definition attr_len :: "u8 list \<Rightarrow> int \<Rightarrow> int" where
  "attr_len buf q = (case nlattr_nla_len buf q of Inr l \<Rightarrow> uint l | Inl _ \<Rightarrow> 0)"

definition attr_type :: "u8 list \<Rightarrow> int \<Rightarrow> int" where
  "attr_type buf q = (case nla_type buf q of Inr t \<Rightarrow> t | Inl _ \<Rightarrow> 0)"

definition attr_payload :: "u8 list \<Rightarrow> int \<Rightarrow> u8 list" where
  "attr_payload buf q = take (nat (attr_len buf q - 4)) (drop (nat (q + 4)) buf)"

function nla_positions :: "u8 list \<Rightarrow> int \<Rightarrow> int \<Rightarrow> int list" where
  "nla_positions buf p rem =
     (if rem \<ge> 4 \<and> 4 \<le> attr_len buf p \<and> attr_len buf p \<le> rem
      then p # nla_positions buf (p + NLA_ALIGN (attr_len buf p)) (rem - NLA_ALIGN (attr_len buf p))
      else [])"
  by auto
termination
proof (relation "measure (\<lambda>(buf, p, rem). nat rem)")
  fix buf p and rem :: int
  assume "rem \<ge> 4 \<and> 4 \<le> attr_len buf p \<and> attr_len buf p \<le> rem"
  then show "((buf, p + NLA_ALIGN (attr_len buf p), rem - NLA_ALIGN (attr_len buf p)), buf, p, rem)
      \<in> measure (\<lambda>(buf, p, rem). nat rem)"
    using NLA_ALIGN_bounds(1) [of "attr_len buf p"] by auto
qed simp

declare nla_positions.simps [simp del]

fun each_attr :: "(int \<Rightarrow> 's \<Rightarrow> crash + ('r + 's)) \<Rightarrow> int list \<Rightarrow> 's \<Rightarrow> crash + ('r + 's)" where
  "each_attr body [] s = Inr (Inr s)"
| "each_attr body (q # qs) s =
     bindE (body q s) (\<lambda>r. case r of Inl v \<Rightarrow> Inr (Inl v) | Inr s' \<Rightarrow> each_attr body qs s')"

lemma read_u16_ok:
  assumes "0 \<le> p" "p + 2 \<le> int (length buf)"
  shows "\<exists>x. read_u16 buf p = Inr x"
  using assms by (simp add: read_u16_def mem_read_ok)

lemma attr_len_ok:
  assumes "0 \<le> p" "p + 2 \<le> int (length buf)"
  shows "\<exists>l. nlattr_nla_len buf p = Inr l \<and> attr_len buf p = uint l"
  using read_u16_ok [OF assms] by (auto simp: nlattr_nla_len_def attr_len_def)

lemma attr_len_eqs:
  assumes "0 \<le> p" "p + 2 \<le> int (length buf)"
  shows "nla_len buf p = Inr (attr_len buf p - 4)"
    "rem \<ge> 4 \<Longrightarrow> nla_ok buf p rem = Inr (4 \<le> attr_len buf p \<and> attr_len buf p \<le> rem)"
    "nla_next buf p rem = Inr (p + NLA_ALIGN (attr_len buf p), rem - NLA_ALIGN (attr_len buf p))"
  using attr_len_ok [OF assms] by (auto simp: nla_len_def nla_ok_def nla_next_def Let_def)

lemma attr_type_ok:
  assumes "0 \<le> p" "p + 4 \<le> int (length buf)"
  shows "nla_type buf p = Inr (attr_type buf p)"
proof -
  have "\<exists>x. read_u16 buf (p + 2) = Inr x" using assms by (intro read_u16_ok) simp_all
  then show ?thesis by (auto simp: nla_type_def nlattr_nla_type_def attr_type_def)
qed

lemma attr_type_bounds: "0 \<le> attr_type buf p" "attr_type buf p < 2 ^ 14"
proof -
  have "uint (t AND NLA_TYPE_MASK) < 2 ^ 14" for t
  proof -
    have "NLA_TYPE_MASK = mask 14" by (simp add: NLA_TYPE_MASK_def mask_eq_exp_minus_1)
    then have "t AND NLA_TYPE_MASK = take_bit 14 t" by (simp add: take_bit_eq_mask)
    then show ?thesis using take_bit_int_less_exp [of 14 "uint t"] by (simp add: unsigned_take_bit_eq)
  qed
  then show "attr_type buf p < 2 ^ 14" "0 \<le> attr_type buf p"
    by (auto simp: attr_type_def nla_type_def bindE_def split: sum.splits)
qed

lemma nla_for_each_attr_eq:
  assumes "0 \<le> p" "p + rem \<le> int (length buf)"
  shows "\<exists>rest. nla_for_each_attr body buf p rem s =
    bindE (each_attr body (nla_positions buf p rem) s)
      (\<lambda>r. case r of Inl v \<Rightarrow> Inr (Inl v) | Inr s' \<Rightarrow> Inr (Inr (s', rest)))"
  using assms
proof (induction buf p rem arbitrary: s rule: nla_positions.induct)
  case (1 buf p rem)
  show ?case
  proof (cases "4 \<le> rem \<and> 4 \<le> attr_len buf p \<and> attr_len buf p \<le> rem")
    case True
    have b: "p + 2 \<le> int (length buf)" using True "1.prems" by linarith
    let ?a = "NLA_ALIGN (attr_len buf p)"
    have "0 \<le> p + ?a" using NLA_ALIGN_bounds(1) [of "attr_len buf p"] True "1.prems" by linarith
    then have IH: "\<exists>rest. nla_for_each_attr body buf (p + ?a) (rem - ?a) s' =
        bindE (each_attr body (nla_positions buf (p + ?a) (rem - ?a)) s')
          (\<lambda>r. case r of Inl v \<Rightarrow> Inr (Inl v) | Inr s'' \<Rightarrow> Inr (Inr (s'', rest)))" for s'
      using "1.IH" [OF True, of s'] "1.prems" by simp
    show ?thesis
      using IH True
      by (simp add: nla_for_each_attr.simps [of body buf p rem] nla_positions.simps [of buf p rem]
          attr_len_eqs [OF "1.prems"(1) b] bindE_def split: sum.split)
  next
    case False
    have "nla_ok buf p rem = Inr False"
    proof (cases "4 \<le> rem")
      case True
      then have "p + 2 \<le> int (length buf)" using "1.prems" by linarith
      then show ?thesis using attr_len_eqs(2) [OF "1.prems"(1) _ True] False True by simp
    qed (simp add: nla_ok_def)
    then show ?thesis using False
      by (auto simp: nla_for_each_attr.simps [of body buf p rem] nla_positions.simps [of buf p rem])
  qed
qed

lemma nla_positions_bounds:
  assumes "q \<in> set (nla_positions buf p rem)" 
  shows "p \<le> q \<and> 4 \<le> attr_len buf q \<and> q + attr_len buf q \<le> p + rem"
  using assms
proof (induction buf p rem rule: nla_positions.induct)
  case (1 buf p rem)
  then show ?case
    using NLA_ALIGN_bounds [of "attr_len buf p"]
    by (subst (asm) (2) nla_positions.simps) (fastforce split: if_splits)
qed

section \<open>What the readers return\<close>

text \<open>The attribute at \<open>q\<close> lies within the buffer.\<close>

definition attr_in :: "u8 list \<Rightarrow> int \<Rightarrow> bool" where
  "attr_in buf q \<longleftrightarrow> 0 \<le> q \<and> 4 \<le> attr_len buf q \<and> q + attr_len buf q \<le> int (length buf)"

lemma nla_positions_in:
  assumes "0 \<le> p" "p + rem \<le> int (length buf)" "q \<in> set (nla_positions buf p rem)"
  shows "attr_in buf q"
  using nla_positions_bounds [OF assms(3)] assms(1,2) by (simp add: attr_in_def)

lemma attr_in_eqs:
  assumes "attr_in buf q"
  shows "nla_len buf q = Inr (int (length (attr_payload buf q)))"
    "nla_type buf q = Inr (attr_type buf q)"
    "int (length (attr_payload buf q)) = attr_len buf q - 4"
proof -
  have q: "0 \<le> q" "q + 2 \<le> int (length buf)" "q + 4 \<le> int (length buf)"
    using assms by (simp_all add: attr_in_def)
  show l: "int (length (attr_payload buf q)) = attr_len buf q - 4"
    using assms unfolding attr_in_def attr_payload_def by (simp add: min_def) linarith
  then show "nla_len buf q = Inr (int (length (attr_payload buf q)))"
    using attr_len_eqs(1) [OF q(1,2)] by simp
  show "nla_type buf q = Inr (attr_type buf q)" by (rule attr_type_ok [OF q(1,3)])
qed

lemma payload_read:
  assumes "attr_in buf q" "0 \<le> k" "0 \<le> n" "k + n \<le> int (length (attr_payload buf q))"
  shows "mem_read buf (nla_data q + k) n = Inr (take (nat n) (drop (nat k) (attr_payload buf q)))"
proof -
  have "nat (q + 4 + k) = nat (q + 4) + nat k"
    using assms by (simp add: attr_in_def nat_add_distrib)
  then have "drop (nat (q + 4 + k)) buf = drop (nat k) (drop (nat (q + 4)) buf)"
    by (simp add: add.commute)
  moreover have "nat n \<le> nat (attr_len buf q - 4) - nat k"
    using assms attr_in_eqs(3) [OF assms(1)] by linarith
  moreover have "0 \<le> q + 4 + k" "q + 4 + k + n \<le> int (length buf)"
    using assms attr_in_eqs(3) [OF assms(1)] unfolding attr_in_def by linarith+
  ultimately show ?thesis
    using assms(3) by (simp add: nla_data_def mem_read_ok attr_payload_def drop_take min_def)
qed

lemma nla_find_spec:
  assumes "0 \<le> p" "p + len \<le> int (length buf)"
  shows "nla_find buf p len a = Inr (List.find (\<lambda>q. attr_type buf q = a) (nla_positions buf p len))"
proof -
  let ?body = "\<lambda>nla _. bindE (nla_type buf nla) (\<lambda>t. Inr (if t = a then Inl nla else Inr ()))"
  have "each_attr ?body qs () =
      Inr (case List.find (\<lambda>q. attr_type buf q = a) qs of Some q \<Rightarrow> Inl q | None \<Rightarrow> Inr ())"
    if "\<forall>q\<in>set qs. attr_in buf q" for qs
    using that by (induction qs) (simp_all add: attr_in_eqs)
  from this [of "nla_positions buf p len"]
  show ?thesis
    using nla_for_each_attr_eq [OF assms, of ?body "()"] nla_positions_in [OF assms]
    by (auto simp: nla_find_def split: option.splits)
qed

text \<open>
  The last attribute of a type among positions, which is the one that stays in
  the table of \<^verbatim>\<open>nla_parse\<close>.
\<close>

definition last_attr :: "u8 list \<Rightarrow> int list \<Rightarrow> int \<Rightarrow> int option" where
  "last_attr buf qs t = List.find (\<lambda>q. attr_type buf q = t) (rev qs)"

definition table_of :: "u8 list \<Rightarrow> int list \<Rightarrow> int \<Rightarrow> int option list" where
  "table_of buf qs maxtype =
     map (\<lambda>t. if t = 0 then None else last_attr buf qs (int t)) [0..<nat (maxtype + 1)]"

lemma find_append: "List.find P (xs @ ys) = (case List.find P xs of Some x \<Rightarrow> Some x | None \<Rightarrow> List.find P ys)"
  by (induction xs) simp_all

lemma table_of_snoc:
  "table_of buf (qs @ [q]) maxtype =
     (if 0 < attr_type buf q \<and> attr_type buf q \<le> maxtype
      then (table_of buf qs maxtype)[nat (attr_type buf q) := Some q]
      else table_of buf qs maxtype)"
  using attr_type_bounds(1) [of buf q]
  by (auto simp: table_of_def last_attr_def nth_list_update intro!: nth_equalityI)

lemma parse_loop:
  assumes "\<forall>q\<in>set qs. attr_in buf q"
    "\<forall>q\<in>set qs. \<forall>pol. policy = Some pol \<longrightarrow> 0 < attr_type buf q \<longrightarrow> attr_type buf q \<le> maxtype \<longrightarrow>
       validate_nla buf q maxtype pol = Inr None"
  shows "each_attr (\<lambda>nla tb. bindE (nla_type buf nla) (\<lambda>type.
      if type > 0 \<and> type \<le> maxtype then
        bindE (case policy of Some pol \<Rightarrow> validate_nla buf nla maxtype pol | None \<Rightarrow> Inr None)
          (\<lambda>err. Inr (case err of Some e \<Rightarrow> Inl (e, tb) | None \<Rightarrow> Inr (tb[nat type := Some nla])))
      else Inr (Inr tb))) qs (table_of buf done maxtype) =
    Inr (Inr (table_of buf (done @ qs) maxtype))"
  using assms
proof (induction qs arbitrary: "done")
  case (Cons q qs)
  then show ?case
    using Cons.IH [of "done @ [q]"]
    by (auto simp: attr_in_eqs table_of_snoc split: option.splits)
qed simp

lemma nla_parse_spec:
  assumes "0 \<le> p" "p + len \<le> int (length buf)"
    and "\<forall>q\<in>set (nla_positions buf p len). \<forall>pol. policy = Some pol \<longrightarrow> 0 < attr_type buf q \<longrightarrow>
       attr_type buf q \<le> maxtype \<longrightarrow> validate_nla buf q maxtype pol = Inr None"
    and "-1 \<le> maxtype"
  shows "nla_parse maxtype buf p len policy =
    Inr (None, table_of buf (nla_positions buf p len) maxtype)"
proof -
  have "table_of buf [] maxtype = replicate (nat (maxtype + 1)) None"
    by (auto simp: table_of_def last_attr_def intro!: nth_equalityI)
  then have "each_attr (\<lambda>nla tb. bindE (nla_type buf nla) (\<lambda>type.
      if type > 0 \<and> type \<le> maxtype then
        bindE (case policy of Some pol \<Rightarrow> validate_nla buf nla maxtype pol | None \<Rightarrow> Inr None)
          (\<lambda>err. Inr (case err of Some e \<Rightarrow> Inl (e, tb) | None \<Rightarrow> Inr (tb[nat type := Some nla])))
      else Inr (Inr tb))) (nla_positions buf p len) (replicate (nat (maxtype + 1)) None) =
    Inr (Inr (table_of buf (nla_positions buf p len) maxtype))" (is "each_attr ?body _ _ = _")
    using parse_loop [of "nla_positions buf p len" buf policy maxtype "[]"]
      nla_positions_in [OF assms(1,2)] assms(3) by simp
  then show ?thesis
    using nla_for_each_attr_eq [OF assms(1,2), of ?body "replicate (nat (maxtype + 1)) None"]
    using assms(4) unfolding nla_parse_def by auto
qed

section \<open>Validation enforces the policy\<close>

text \<open>
  What a policy demands of a payload.  A string may have one terminating zero
  beyond its maximal length.
\<close>

definition strip_nul :: "u8 list \<Rightarrow> u8 list" where
  "strip_nul bs = (if bs \<noteq> [] \<and> last bs = 0 then butlast bs else bs)"

definition string_ok :: "nat \<Rightarrow> u8 list \<Rightarrow> bool" where
  "string_ok len bs \<longleftrightarrow> bs \<noteq> [] \<and> (len \<noteq> 0 \<longrightarrow> length (strip_nul bs) \<le> len)"

definition compat_ok :: "int \<Rightarrow> u8 list \<Rightarrow> bool" where
  "compat_ok len bs \<longleftrightarrow> len \<le> int (length bs) \<and>
     (int (length bs) < NLA_ALIGN len \<or>
      NLA_ALIGN len + 4 \<le> int (length bs) \<and>
      NLA_ALIGN len + attr_len bs (NLA_ALIGN len) \<le> int (length bs))"

definition policy_ok :: "nla_policy \<Rightarrow> u8 list \<Rightarrow> bool" where
  "policy_ok pt bs =
     (let len = unat (pol_len pt) in
      if pol_type pt = NLA_FLAG then bs = []
      else if pol_type pt = NLA_NUL_STRING
        then 0 \<in> set (if len \<noteq> 0 then take (len + 1) bs else bs) \<and> string_ok len bs
      else if pol_type pt = NLA_STRING then string_ok len bs
      else if pol_type pt = NLA_BINARY then len = 0 \<or> length bs \<le> len
      else if pol_type pt = NLA_NESTED_COMPAT then compat_ok (int len) bs
      else if pol_type pt = NLA_NESTED \<and> bs = [] then True
      else (if len \<noteq> 0 then len else unat (nla_attr_minlen ! unat (pol_type pt))) \<le> length bs)"

lemma memchr_spec:
  "0 \<le> p \<Longrightarrow> p + int n \<le> int (length buf) \<Longrightarrow>
   memchr buf p c n = Inr (c \<in> set (take n (drop (nat p) buf)))"
proof (induction n arbitrary: p)
  case (Suc n)
  have p: "nat p < length buf" "nat (p + 1) = Suc (nat p)" using Suc.prems by simp_all
  then have d: "drop (nat p) buf = buf ! nat p # drop (nat (p + 1)) buf"
    using Cons_nth_drop_Suc [OF p(1)] by simp
  have "mem_read buf p 1 = Inr [buf ! nat p]" using Suc.prems by (simp add: mem_read_ok d)
  then show ?case using Suc.IH [of "p + 1"] Suc.prems by (auto simp: d)
qed simp

lemma memchr_payload:
  assumes "attr_in buf q" "n \<le> length (attr_payload buf q)"
  shows "memchr buf (nla_data q) c n = Inr (c \<in> set (take n (attr_payload buf q)))"
proof -
  have "n \<le> nat (attr_len buf q - 4)" using assms attr_in_eqs(3) [OF assms(1)] by linarith
  then have "take n (attr_payload buf q) = take n (drop (nat (q + 4)) buf)"
    by (simp add: attr_payload_def min_def)
  then show ?thesis
    using memchr_spec [of "q + 4" n buf c] assms attr_in_eqs(3) [OF assms(1)]
    by (simp add: nla_data_def attr_in_def)
qed

lemma attr_payload_length:
  assumes "attr_in buf q" shows "length (attr_payload buf q) < 2 ^ 16"
proof -
  have "uint l < 2 ^ 16" for l :: u16 using uint_lt2p [of l] by simp
  then have "attr_len buf q < 2 ^ 16" by (auto simp: attr_len_def split: sum.splits)
  then show ?thesis using attr_in_eqs(3) [OF assms] by simp
qed

lemma last_read:
  assumes "attr_in buf q" "attr_payload buf q \<noteq> []"
  shows "mem_read buf (nla_data q + int (length (attr_payload buf q)) - 1) 1 = Inr [last (attr_payload buf q)]"
proof -
  let ?bs = "attr_payload buf q"
  have "drop (nat (int (length ?bs) - 1)) ?bs = [last ?bs]"
    using assms(2) by (metis append_butlast_last_id append_eq_conv_conj length_butlast nat_int nat_diff_distrib'
        of_nat_0_le_iff of_nat_1 zle_int zero_le_one)
  then show ?thesis using payload_read [OF assms(1), of "int (length ?bs) - 1" 1] assms(2)
    by (simp add: Suc_leI add_diff_eq)
qed

lemma validate_string_spec:
  assumes "attr_in buf q"
  shows "validate_string buf q (int (length (attr_payload buf q))) pt =
    Inr (if string_ok (unat (pol_len pt)) (attr_payload buf q) then None else Some ERANGE)"
proof (cases "attr_payload buf q = []")
  case False
  let ?bs = "attr_payload buf q"
  note last_read [OF assms False]
  then have "validate_string buf q (int (length ?bs)) pt =
      Inr (if pol_len pt \<noteq> 0 \<and> int (length (strip_nul ?bs)) > uint (pol_len pt) then Some ERANGE else None)"
    using False by (auto simp: validate_string_def strip_nul_def Let_def Suc_le_eq add_diff_eq of_nat_diff)
  moreover have "int (length (strip_nul ?bs)) > uint (pol_len pt) \<longleftrightarrow>
      length (strip_nul ?bs) > unat (pol_len pt)"
    by (metis of_nat_less_iff of_nat_unat)
  ultimately show ?thesis using False by (auto simp: string_ok_def unat_eq_zero)
qed (simp add: validate_string_def string_ok_def)

lemma validate_nul_string_spec:
  assumes "attr_in buf q"
  shows "\<exists>e. validate_nul_string buf q (int (length (attr_payload buf q))) pt = Inr e \<and>
    (e = None \<longleftrightarrow> 0 \<in> set (if unat (pol_len pt) \<noteq> 0 then take (unat (pol_len pt) + 1) (attr_payload buf q)
                            else attr_payload buf q) \<and>
      string_ok (unat (pol_len pt)) (attr_payload buf q))"
proof -
  let ?bs = "attr_payload buf q"
  define n where "n = (if pol_len pt \<noteq> 0 then min (length ?bs) (unat (pol_len pt) + 1) else length ?bs)"
  have n: "(if pol_len pt \<noteq> 0 then min (int (length ?bs)) (uint (pol_len pt) + 1) else int (length ?bs))
      = int n" by (simp add: n_def of_nat_min add.commute)
  have le: "n \<le> length ?bs" by (simp add: n_def)
  have "int (length ?bs) < 2 ^ 16" using attr_payload_length [OF assms] by simp
  then have m: "nat (int n mod 2 ^ 32) = n" using le by (simp add: nat_mod_distrib)
  have t: "take n ?bs = (if unat (pol_len pt) \<noteq> 0 then take (unat (pol_len pt) + 1) ?bs else ?bs)"
    by (simp add: n_def unat_eq_zero min_def)
  show ?thesis
  proof (cases "n = 0")
    case True
    then show ?thesis
      unfolding validate_nul_string_def n Let_def using t by simp
  next
    case False
    then show ?thesis
      unfolding validate_nul_string_def n Let_def m memchr_payload [OF assms le]
      using validate_string_spec [OF assms, of pt] t by simp
  qed
qed

lemma attr_len_drop:
  assumes "attr_in buf q" "0 \<le> k" "k + 2 \<le> int (length (attr_payload buf q))"
  shows "nlattr_nla_len buf (nla_data q + k) = nlattr_nla_len (attr_payload buf q) k"
  using payload_read [OF assms(1,2), of 2] assms(2,3)
  by (simp add: nlattr_nla_len_def read_u16_def mem_read_ok)

lemma validate_compat_spec:
  assumes "attr_in buf q"
  shows "validate_compat buf q (int (length (attr_payload buf q))) pt =
    Inr (if compat_ok (int (unat (pol_len pt))) (attr_payload buf q) then None else Some ERANGE)"
proof -
  let ?bs = "attr_payload buf q" and ?l = "uint (pol_len pt)"
  have pos: "0 \<le> NLA_ALIGN ?l" using NLA_ALIGN_bounds(1) [of ?l] uint_nonnegative [of "pol_len pt"] by linarith
  show ?thesis
  proof (cases "NLA_ALIGN ?l + 4 \<le> int (length ?bs)")
    case True
    then obtain x where x: "nlattr_nla_len ?bs (NLA_ALIGN ?l) = Inr x" "attr_len ?bs (NLA_ALIGN ?l) = uint x"
      using attr_len_ok [OF pos, of ?bs] by auto
    then have "nla_len buf (nla_data q + NLA_ALIGN ?l) = Inr (uint x - 4)"
      using attr_len_drop [OF assms pos] True by (simp add: nla_len_def)
    then show ?thesis using True NLA_ALIGN_bounds(1) [of ?l] x(2)
      by (simp add: validate_compat_def compat_ok_def Let_def)
  next
    case False
    then show ?thesis by (auto simp: validate_compat_def compat_ok_def Let_def)
  qed
qed

lemma validate_minlen_spec:
  "validate_minlen (int (length bs)) pt =
    Inr (if (if unat (pol_len pt) \<noteq> 0 then unat (pol_len pt)
             else unat (nla_attr_minlen ! unat (pol_type pt))) \<le> length bs then None else Some ERANGE)"
proof -
  have i: "int (length bs) < uint w \<longleftrightarrow> \<not> unat w \<le> length bs" for w :: u16
    by (metis not_le of_nat_less_iff of_nat_unat)
  have z: "uint (nla_attr_minlen ! 0) = 0" "unat (nla_attr_minlen ! 0) = 0" by (simp_all add: nla_attr_minlen_def)
  show ?thesis
    by (cases "pol_type pt = 0") (simp_all add: validate_minlen_def Let_def i z unat_eq_zero)
qed

lemma validate_nla_spec:
  assumes q: "attr_in buf q"
    and pol: "maxtype < int (length policy)" "\<forall>pt\<in>set policy. pol_type pt \<le> NLA_TYPE_MAX"
  shows "\<exists>e. validate_nla buf q maxtype policy = Inr e \<and>
    (e = None \<longleftrightarrow> 0 < attr_type buf q \<and> attr_type buf q \<le> maxtype \<longrightarrow>
       policy_ok (policy ! nat (attr_type buf q)) (attr_payload buf q))"
proof (cases "0 < attr_type buf q \<and> attr_type buf q \<le> maxtype")
  case True
  let ?t = "nat (attr_type buf q)" let ?pt = "policy ! ?t" and ?bs = "attr_payload buf q"
  have t: "?t < length policy" using True pol(1) by linarith
  then have b: "\<not> pol_type ?pt > NLA_TYPE_MAX" using pol(2) nth_mem [OF t] by (auto simp: not_less)
  have bin: "(pol_len ?pt \<noteq> 0 \<and> int (length ?bs) > uint (pol_len ?pt)) \<longleftrightarrow>
      \<not> (unat (pol_len ?pt) = 0 \<or> length ?bs \<le> unat (pol_len ?pt))"
    by (metis linorder_not_le of_nat_less_iff of_nat_unat unat_eq_zero)
  obtain e where e: "validate_nul_string buf q (int (length ?bs)) ?pt = Inr e"
    "e = None \<longleftrightarrow> 0 \<in> set (if unat (pol_len ?pt) \<noteq> 0 then take (unat (pol_len ?pt) + 1) ?bs else ?bs) \<and>
      string_ok (unat (pol_len ?pt)) ?bs"
    using validate_nul_string_spec [OF q, of ?pt] by blast
  let ?len = "unat (pol_len ?pt)"
  have "validate_nla buf q maxtype policy =
      (if pol_type ?pt = NLA_FLAG then Inr (if ?bs = [] then None else Some ERANGE)
       else if pol_type ?pt = NLA_NUL_STRING then Inr e
       else if pol_type ?pt = NLA_STRING then Inr (if string_ok ?len ?bs then None else Some ERANGE)
       else if pol_type ?pt = NLA_BINARY then Inr (if ?len = 0 \<or> length ?bs \<le> ?len then None else Some ERANGE)
       else if pol_type ?pt = NLA_NESTED_COMPAT
         then Inr (if compat_ok (int ?len) ?bs then None else Some ERANGE)
       else if pol_type ?pt = NLA_NESTED \<and> ?bs = [] then Inr None
       else Inr (if (if ?len \<noteq> 0 then ?len else unat (nla_attr_minlen ! unat (pol_type ?pt))) \<le> length ?bs
                 then None else Some ERANGE))"
    using True t b
    unfolding validate_nla_def attr_in_eqs(1,2) [OF q] bindE_simps Let_def bin e(1)
      validate_string_spec [OF q] validate_compat_spec [OF q] validate_minlen_spec
    by simp
  then show ?thesis using True e(2) unfolding policy_ok_def Let_def by (simp split: if_split)
qed (auto simp: validate_nla_def attr_in_eqs [OF q])

text \<open>The attributes that a policy concerns all meet it.\<close>

definition stream_ok :: "u8 list \<Rightarrow> int list \<Rightarrow> int \<Rightarrow> nla_policy list \<Rightarrow> bool" where
  "stream_ok buf qs maxtype policy \<longleftrightarrow>
     list_all (\<lambda>q. 0 < attr_type buf q \<and> attr_type buf q \<le> maxtype \<longrightarrow>
       policy_ok (policy ! nat (attr_type buf q)) (attr_payload buf q)) qs"

lemma stream_ok_simps [simp]:
  "stream_ok buf [] maxtype policy"
  "stream_ok buf (q # qs) maxtype policy \<longleftrightarrow>
     (0 < attr_type buf q \<and> attr_type buf q \<le> maxtype \<longrightarrow>
       policy_ok (policy ! nat (attr_type buf q)) (attr_payload buf q)) \<and> stream_ok buf qs maxtype policy"
  by (simp_all add: stream_ok_def)

lemma validate_loop:
  assumes "\<forall>q\<in>set qs. attr_in buf q"
    "maxtype < int (length policy)" "\<forall>pt\<in>set policy. pol_type pt \<le> NLA_TYPE_MAX"
  shows "\<exists>r. each_attr (\<lambda>nla _. bindE (validate_nla buf nla maxtype policy)
       (\<lambda>err. Inr (case err of Some e \<Rightarrow> Inl e | None \<Rightarrow> Inr ()))) qs () = Inr r \<and>
     (r = Inr () \<longleftrightarrow> stream_ok buf qs maxtype policy)"
  using assms(1)
proof (induction qs)
  case (Cons q qs)
  obtain e where "validate_nla buf q maxtype policy = Inr e"
    "e = None \<longleftrightarrow> (0 < attr_type buf q \<and> attr_type buf q \<le> maxtype \<longrightarrow>
       policy_ok (policy ! nat (attr_type buf q)) (attr_payload buf q))"
    using validate_nla_spec [OF _ assms(2,3), of buf q] Cons.prems by auto
  then show ?case using Cons by (cases e) auto
qed simp

lemma nla_validate_spec:
  assumes "0 \<le> p" "p + len \<le> int (length buf)"
    "maxtype < int (length policy)" "\<forall>pt\<in>set policy. pol_type pt \<le> NLA_TYPE_MAX"
  shows "\<exists>e. nla_validate buf p len maxtype policy = Inr e \<and>
    (e = None \<longleftrightarrow> stream_ok buf (nla_positions buf p len) maxtype policy)"
proof -
  let ?body = "\<lambda>nla _. bindE (validate_nla buf nla maxtype policy)
      (\<lambda>err. Inr (case err of Some e \<Rightarrow> Inl e | None \<Rightarrow> Inr ()))"
  obtain r where "each_attr ?body (nla_positions buf p len) () = Inr r"
    "r = Inr () \<longleftrightarrow> stream_ok buf (nla_positions buf p len) maxtype policy"
    using validate_loop [OF _ assms(3,4), of "nla_positions buf p len" buf]
      nla_positions_in [OF assms(1,2)] by blast
  then show ?thesis
    using nla_for_each_attr_eq [OF assms(1,2), of ?body "()"]
    by (cases r) (auto simp: nla_validate_def)
qed

lemma parse_loop_policy:
  assumes "\<forall>q\<in>set qs. attr_in buf q"
    "maxtype < int (length policy)" "\<forall>pt\<in>set policy. pol_type pt \<le> NLA_TYPE_MAX"
  shows "\<exists>r. each_attr (\<lambda>nla tb. bindE (nla_type buf nla) (\<lambda>type.
      if type > 0 \<and> type \<le> maxtype then
        bindE (case Some policy of Some pol \<Rightarrow> validate_nla buf nla maxtype pol | None \<Rightarrow> Inr None)
          (\<lambda>err. Inr (case err of Some e \<Rightarrow> Inl (e, tb) | None \<Rightarrow> Inr (tb[nat type := Some nla])))
      else Inr (Inr tb))) qs (table_of buf done maxtype) = Inr r \<and>
    (if stream_ok buf qs maxtype policy then r = Inr (table_of buf (done @ qs) maxtype)
     else \<exists>x. r = Inl x)"
  using assms(1)
proof (induction qs arbitrary: "done")
  case (Cons q qs)
  obtain e where e: "validate_nla buf q maxtype policy = Inr e"
    "e = None \<longleftrightarrow> (0 < attr_type buf q \<and> attr_type buf q \<le> maxtype \<longrightarrow>
       policy_ok (policy ! nat (attr_type buf q)) (attr_payload buf q))"
    using validate_nla_spec [OF _ assms(2,3), of buf q] Cons.prems by auto
  show ?case
    using Cons.IH [of "done @ [q]"] e Cons.prems
    by (cases e) (auto simp: attr_in_eqs table_of_snoc)
qed simp

lemma nla_parse_policy_spec:
  assumes "0 \<le> p" "p + len \<le> int (length buf)"
    "maxtype < int (length policy)" "\<forall>pt\<in>set policy. pol_type pt \<le> NLA_TYPE_MAX" "-1 \<le> maxtype"
  shows "\<exists>e tb. nla_parse maxtype buf p len (Some policy) = Inr (e, tb) \<and>
    (e = None \<longleftrightarrow> stream_ok buf (nla_positions buf p len) maxtype policy) \<and>
    (e = None \<longrightarrow> tb = table_of buf (nla_positions buf p len) maxtype)"
proof -
  let ?body = "\<lambda>nla tb. bindE (nla_type buf nla) (\<lambda>type.
      if type > 0 \<and> type \<le> maxtype then
        bindE (case Some policy of Some pol \<Rightarrow> validate_nla buf nla maxtype pol | None \<Rightarrow> Inr None)
          (\<lambda>err. Inr (case err of Some e \<Rightarrow> Inl (e, tb) | None \<Rightarrow> Inr (tb[nat type := Some nla])))
      else Inr (Inr tb))"
  let ?tb = "replicate (nat (maxtype + 1)) None"
  have "table_of buf [] maxtype = ?tb"
    by (auto simp: table_of_def last_attr_def intro!: nth_equalityI)
  then obtain r where r: "each_attr ?body (nla_positions buf p len) ?tb = Inr r"
    "if stream_ok buf (nla_positions buf p len) maxtype policy
     then r = Inr (table_of buf (nla_positions buf p len) maxtype) else \<exists>x. r = Inl x"
    using parse_loop_policy [OF _ assms(3,4), of "nla_positions buf p len" buf "[]", unfolded append_Nil]
      nla_positions_in [OF assms(1,2)] by auto
  show ?thesis
    using nla_for_each_attr_eq [OF assms(1,2), of ?body ?tb] r assms(5)
    unfolding nla_parse_def
    by (cases r) (auto split: if_splits prod.splits)
qed

section \<open>Copying and comparing payloads\<close>

lemma mem_write_prefix:
  "length bs \<le> length buf \<Longrightarrow> mem_write buf 0 bs = Inr (bs @ drop (length bs) buf)"
  by (simp add: mem_write_def)

lemma payload_read0:
  assumes "attr_in buf q" "0 \<le> n" "n \<le> int (length (attr_payload buf q))"
  shows "mem_read buf (nla_data q) n = Inr (take (nat n) (attr_payload buf q))"
  using payload_read [OF assms(1), of 0 n] assms(2,3) by simp

lemma memcmp_eq_0: "length as = length bs \<Longrightarrow> memcmp as bs = 0 \<longleftrightarrow> as = bs"
  by (induction as bs rule: memcmp.induct) (auto simp: Let_def dest: unsigned_word_eqI)

lemma nla_memcpy_spec:
  assumes "attr_in buf q" "0 \<le> count" "nat count \<le> length dest"
  defines "m \<equiv> min (nat count) (length (attr_payload buf q))"
  shows "nla_memcpy dest buf q count = Inr (int m, take m (attr_payload buf q) @ drop m dest)"
proof -
  have "min count (int (length (attr_payload buf q))) = int m" using assms(2) by (simp add: m_def)
  then show ?thesis
    using assms(1,3) by (simp add: nla_memcpy_def attr_in_eqs payload_read0 mem_write_prefix m_def)
qed

lemma nla_memcmp_spec:
  assumes "attr_in buf q"
  shows "\<exists>d. nla_memcmp buf q data = Inr d \<and> (d = 0 \<longleftrightarrow> attr_payload buf q = data)"
  using memcmp_eq_0 [of "attr_payload buf q" data]
  by (auto simp: nla_memcmp_def attr_in_eqs(1) [OF assms] payload_read0 [OF assms] Let_def)

lemma nla_strcmp_spec:
  assumes "attr_in buf q"
  shows "\<exists>d. nla_strcmp buf q str = Inr d \<and> (d = 0 \<longleftrightarrow> attr_payload buf q = str @ [0])"
proof (cases "length (attr_payload buf q) = length str + 1")
  case True
  then show ?thesis using memcmp_eq_0 [of "attr_payload buf q" "str @ [0]"]
    by (auto simp: nla_strcmp_def attr_in_eqs(1) [OF assms] payload_read0 [OF assms] Let_def)
next
  case False
  then show ?thesis by (auto simp: nla_strcmp_def attr_in_eqs(1) [OF assms] Let_def)
qed

text \<open>What \<^verbatim>\<open>nla_strlcpy\<close> leaves in a destination of \<open>n\<close> bytes: at most \<open>n - 1\<close> bytes, padded with zeros.\<close>

definition strlcpy_result :: "u8 list \<Rightarrow> nat \<Rightarrow> u8 list \<Rightarrow> u8 list" where
  "strlcpy_result src n dst =
     (let k = min (length src) (n - 1) in take k src @ replicate (n - k) 0 @ drop n dst)"

lemma nla_strlcpy_spec:
  assumes "attr_in buf q" "0 < n" "unat n \<le> length dst"
  defines "src \<equiv> strip_nul (attr_payload buf q)"
  shows "nla_strlcpy dst buf q n = Inr (of_nat (length src), strlcpy_result src (unat n) dst)"
proof -
  let ?bs = "attr_payload buf q"
  have len: "length ?bs < 2 ^ 16" "length src < 2 ^ 16"
    using attr_payload_length [OF assms(1)] by (auto simp: src_def strip_nul_def)
  have u: "unat (of_nat (length ?bs) :: u32) = length ?bs" "unat (of_nat (length src) :: u32) = length src"
    using len by (simp_all add: unat_of_nat)
  let ?k = "min (length src) (unat n - 1)"
  have n: "0 < unat n" using assms(2) by (simp add: word_less_nat_alt)
  have pos: "of_nat (length ?bs) > (0 :: u32) \<longleftrightarrow> ?bs \<noteq> []"
    using u(1) by (simp add: word_less_nat_alt)
  have src: "of_nat (length src) =
      (if ?bs \<noteq> [] \<and> last ?bs = 0 then of_nat (length ?bs) - 1 else of_nat (length ?bs) :: u32)"
    by (simp add: src_def strip_nul_def of_nat_diff Suc_leI)
  have ui: "uint (of_nat (length ?bs) :: u32) = int (length ?bs)"
    using u(1) by (metis of_nat_unat)
  have step: "nla_strlcpy dst buf q n =
      (let len = (if of_nat (length src) \<ge> n then n - 1 else of_nat (length src)) in
       bindE (mem_write dst 0 (replicate (unat n) 0)) (\<lambda>dst.
       bindE (mem_read buf (nla_data q) (uint len)) (\<lambda>bs.
       bindE (mem_write dst 0 bs) (\<lambda>dst. Inr (of_nat (length src), dst)))))"
    unfolding nla_strlcpy_def attr_in_eqs(1) [OF assms(1)] bindE_simps of_int_of_nat_eq Let_def pos ui src
    using assms(2) last_read [OF assms(1)] by (cases "?bs = []"; cases "last ?bs = 0") simp_all
  have k: "uint (if of_nat (length src) \<ge> n then n - 1 else of_nat (length src)) = int ?k"
  proof -
    have "unat (if of_nat (length src) \<ge> n then n - 1 else of_nat (length src)) = ?k"
    proof (cases "n \<le> of_nat (length src)")
      case True
      then have "unat n \<le> length src" by (simp add: word_le_nat_alt u(2))
      moreover have "unat (n - 1) = unat n - 1" using n by (simp add: unat_sub word_le_nat_alt)
      ultimately show ?thesis unfolding if_P [OF True] by linarith
    next
      case False
      then have "length src < unat n" by (simp add: word_le_nat_alt u(2))
      then show ?thesis unfolding if_not_P [OF False] using u(2) by linarith
    qed
    then show ?thesis by (metis of_nat_unat)
  qed
  have pre: "src = take (length src) ?bs" by (auto simp: src_def strip_nul_def butlast_conv_take)
  have t: "take ?k ?bs = take ?k src"
    by (subst (3) pre) (simp add: min_def)
  have "length src \<le> length ?bs" by (simp add: src_def strip_nul_def)
  then have "?k \<le> length ?bs" by simp
  then have "mem_read buf (nla_data q) (int ?k) = Inr (take ?k src)"
    using payload_read0 [OF assms(1), of "int ?k"] t by simp
  then show ?thesis
    unfolding step Let_def k
    using assms(3) n by (simp add: mem_write_prefix strlcpy_result_def Let_def min_def)
qed

section \<open>Properties\<close>

text \<open>
  C18: Parsing a stream that lies inside its buffer, with a policy that covers the
  types up to \<open>maxtype\<close>, ends without a crash on every content.  It succeeds exactly
  when all attributes of types 1 to \<open>maxtype\<close> meet their policy, as does
  \<^verbatim>\<open>nla_validate\<close>; after success the table holds, for each of these types, the last
  attribute of the type in the stream.  The table has \<open>maxtype + 1\<close> entries, \<open>maxtype\<close> being
  at least \<open>-1\<close>.
\<close>

theorem nla_parse_enforces_policy:
  assumes "0 \<le> p" "p + len \<le> int (length buf)"
    "maxtype < int (length policy)" "\<forall>pt\<in>set policy. pol_type pt \<le> NLA_TYPE_MAX" "-1 \<le> maxtype"
  shows "\<exists>e e' tb. nla_parse maxtype buf p len (Some policy) = Inr (e, tb) \<and>
    nla_validate buf p len maxtype policy = Inr e' \<and>
    (e = None \<longleftrightarrow> stream_ok buf (nla_positions buf p len) maxtype policy) \<and>
    (e' = None \<longleftrightarrow> stream_ok buf (nla_positions buf p len) maxtype policy) \<and>
    (e = None \<longrightarrow> tb = table_of buf (nla_positions buf p len) maxtype)"
  using nla_parse_policy_spec [OF assms] nla_validate_spec [OF assms(1-4)] by blast

text \<open>A flag, then two bytes of type 2, in little-endian headers.\<close>

definition example_stream :: "u8 list" where
  "example_stream = [4, 0, 1, 0, 6, 0, 2, 0, 7, 8, 0, 0]"

definition example_policy :: "nla_policy list" where
  "example_policy = [\<lparr>pol_type = 0, pol_len = 0\<rparr>, \<lparr>pol_type = 6, pol_len = 0\<rparr>, \<lparr>pol_type = 2, pol_len = 0\<rparr>]"

lemma example_positions: "nla_positions example_stream 0 12 = [0, 4]"
proof -
  have "attr_len example_stream 0 = 4" "attr_len example_stream 4 = 6"
    by (simp_all add: attr_len_def nlattr_nla_len_def read_u16_def mem_read_def example_stream_def)
  then show ?thesis by (simp add: nla_positions.simps NLA_ALIGN_eq)
qed

lemma example_attrs:
  "attr_type example_stream 0 = 1" "attr_type example_stream 4 = 2"
  "attr_payload example_stream 0 = []" "attr_payload example_stream 4 = [7, 8]"
  by (simp_all add: attr_type_def nla_type_def nlattr_nla_type_def NLA_TYPE_MASK_def attr_payload_def
      attr_len_def nlattr_nla_len_def read_u16_def mem_read_def example_stream_def)

theorem nla_parse_enforces_policy_witness:
  "nla_parse 2 example_stream 0 12 (Some example_policy) = Inr (None, [None, Some 0, Some 4])"
proof -
  have "stream_ok example_stream (nla_positions example_stream 0 12) 2 example_policy"
    by (simp add: example_positions example_attrs example_policy_def policy_ok_def nla_attr_minlen_def)
  moreover have "table_of example_stream (nla_positions example_stream 0 12) 2 = [None, Some 0, Some 4]"
    by (simp add: example_positions table_of_def last_attr_def example_attrs upt_rec)
  ultimately show ?thesis
    using nla_parse_enforces_policy [of 0 12 example_stream 2 example_policy]
    by (auto simp: example_stream_def example_policy_def)
qed

text \<open>
  C32: Copying a string attribute into a destination of \<open>n > 0\<close> bytes fills exactly
  those \<open>n\<close> bytes: the first bytes of the payload, which loses one terminating zero,
  then zeros up to the end, so that the result is terminated; the value returned is the
  length of the payload without a terminating zero (the comment says: the length of the
  source buffer).
\<close>

theorem nla_strlcpy_terminates_string:
  assumes "attr_in buf q" "0 < n" "unat n \<le> length dst"
  shows "\<exists>dst'. nla_strlcpy dst buf q n = Inr (of_nat (length (strip_nul (attr_payload buf q))), dst') \<and>
    length dst' = length dst \<and> dst' ! (unat n - 1) = 0 \<and> drop (unat n) dst' = drop (unat n) dst \<and>
    take (unat n - 1) dst' = take (unat n - 1) (strip_nul (attr_payload buf q) @ replicate (unat n) 0)"
proof -
  let ?s = "strip_nul (attr_payload buf q)" and ?n = "unat n"
  have n: "0 < ?n" using assms(2) by (simp add: word_less_nat_alt)
  have l: "length (strlcpy_result ?s ?n dst) = length dst"
    using assms(3) n by (simp add: strlcpy_result_def Let_def)
  have z: "strlcpy_result ?s ?n dst ! (?n - 1) = 0"
    using n by (auto simp: strlcpy_result_def Let_def nth_append min_def)
  have d: "drop ?n (strlcpy_result ?s ?n dst) = drop ?n dst"
    using n by (simp add: strlcpy_result_def Let_def)
  have t: "take (?n - 1) (strlcpy_result ?s ?n dst) = take (?n - 1) (?s @ replicate ?n 0)"
    using n by (auto simp: strlcpy_result_def Let_def min_def)
  show ?thesis
    using nla_strlcpy_spec [OF assms] l z d t by blast
qed

theorem nla_strlcpy_terminates_string_witness:
  "\<exists>dst'. nla_strlcpy [9, 9, 9] example_stream 4 2 = Inr (2, dst') \<and> dst' ! 1 = 0 \<and> drop 2 dst' = [9]"
proof -
  have "attr_in example_stream 4"
    by (simp add: attr_in_def attr_len_def nlattr_nla_len_def read_u16_def mem_read_def example_stream_def)
  then show ?thesis
    using nla_strlcpy_terminates_string [of example_stream 4 2 "[9, 9, 9]"]
    by (auto simp: example_attrs strip_nul_def)
qed


end
