(* ===== verification/Nlattr_Put.thy ===== *)
theory Nlattr_Put
  imports Nlattr
begin

unbundle bit_operations_syntax

text \<open>
  Writing netlink attributes into a packet (the second half of \<^verbatim>\<open>lib/nlattr.c\<close>), and
  the round trip: what \<^verbatim>\<open>nla_put\<close> appends is what \<^verbatim>\<open>nla_find\<close> and \<^verbatim>\<open>nla_memcpy\<close> read
  back.
\<close>

section \<open>Writing attributes\<close>

definition skb_write :: "sk_buff \<Rightarrow> int \<Rightarrow> u8 list \<Rightarrow> crash + sk_buff" where
  "skb_write skb p bs =
     bindE (mem_write (skb_head skb) p bs) (\<lambda>h.
       Inr (skb_set h (skb_data skb) (skb_tail skb) (skb_len skb) skb))"

definition uu_nla_reserve :: "sk_buff \<Rightarrow> int \<Rightarrow> int \<Rightarrow> crash + int \<times> sk_buff" where
  "uu_nla_reserve skb attrtype attrlen =
     bindE (skb_put skb (word_of_int (nla_total_size attrlen))) (\<lambda>(nla, skb).
     bindE (skb_write skb (int nla + 2) (u16_bytes (word_of_int attrtype))) (\<lambda>skb.
     let nla_len = word_of_int (nla_attr_size attrlen) :: u16 in
     bindE (skb_write skb (int nla) (u16_bytes nla_len)) (\<lambda>skb.
     bindE (skb_write skb (int nla + uint nla_len) (replicate (nat (nla_padlen attrlen)) 0)) (\<lambda>skb.
       Inr (int nla, skb)))))"

definition uu_nla_reserve_nohdr :: "sk_buff \<Rightarrow> int \<Rightarrow> crash + int \<times> sk_buff" where
  "uu_nla_reserve_nohdr skb attrlen =
     bindE (skb_put skb (word_of_int (NLA_ALIGN attrlen))) (\<lambda>(start, skb).
     bindE (skb_write skb (int start) (replicate (nat (NLA_ALIGN attrlen)) 0)) (\<lambda>skb.
       Inr (int start, skb)))"

definition nla_reserve :: "sk_buff \<Rightarrow> int \<Rightarrow> int \<Rightarrow> crash + (int \<times> sk_buff) option" where
  "nla_reserve skb attrtype attrlen =
     (if skb_tailroom skb < nla_total_size attrlen then Inr None
      else bindE (uu_nla_reserve skb attrtype attrlen) (\<lambda>r. Inr (Some r)))"

definition nla_reserve_nohdr :: "sk_buff \<Rightarrow> int \<Rightarrow> crash + (int \<times> sk_buff) option" where
  "nla_reserve_nohdr skb attrlen =
     (if skb_tailroom skb < NLA_ALIGN attrlen then Inr None
      else bindE (uu_nla_reserve_nohdr skb attrlen) (\<lambda>r. Inr (Some r)))"

text \<open>The length argument of the functions below is the length of \<open>data\<close>.\<close>

definition uu_nla_put :: "sk_buff \<Rightarrow> int \<Rightarrow> u8 list \<Rightarrow> crash + sk_buff" where
  "uu_nla_put skb attrtype data =
     bindE (uu_nla_reserve skb attrtype (int (length data))) (\<lambda>(nla, skb).
       skb_write skb (nla_data nla) data)"

definition uu_nla_put_nohdr :: "sk_buff \<Rightarrow> u8 list \<Rightarrow> crash + sk_buff" where
  "uu_nla_put_nohdr skb data =
     bindE (uu_nla_reserve_nohdr skb (int (length data))) (\<lambda>(start, skb).
       skb_write skb start data)"

definition nla_put :: "sk_buff \<Rightarrow> int \<Rightarrow> u8 list \<Rightarrow> crash + errno + sk_buff" where
  "nla_put skb attrtype data =
     (if skb_tailroom skb < nla_total_size (int (length data)) then Inr (Inl EMSGSIZE)
      else bindE (uu_nla_put skb attrtype data) (\<lambda>skb. Inr (Inr skb)))"

definition nla_put_nohdr :: "sk_buff \<Rightarrow> u8 list \<Rightarrow> crash + errno + sk_buff" where
  "nla_put_nohdr skb data =
     (if skb_tailroom skb < NLA_ALIGN (int (length data)) then Inr (Inl EMSGSIZE)
      else bindE (uu_nla_put_nohdr skb data) (\<lambda>skb. Inr (Inr skb)))"

definition nla_append :: "sk_buff \<Rightarrow> u8 list \<Rightarrow> crash + errno + sk_buff" where
  "nla_append skb data =
     (if skb_tailroom skb < NLA_ALIGN (int (length data)) then Inr (Inl EMSGSIZE)
      else bindE (skb_put skb (of_nat (length data))) (\<lambda>(p, skb).
           bindE (skb_write skb (int p) data) (\<lambda>skb. Inr (Inr skb))))"

section \<open>What is written\<close>

text \<open>The bytes of one attribute: header, payload, padding.\<close>

definition encode_attr :: "int \<Rightarrow> u8 list \<Rightarrow> u8 list" where
  "encode_attr t data =
     u16_bytes (word_of_int (4 + int (length data))) @ u16_bytes (word_of_int t) @ data @
     replicate (nat (nla_padlen (int (length data)))) 0"

lemma length_u16_bytes [simp]: "length (u16_bytes x) = 2"
  by (simp add: u16_bytes_def)

lemma nla_sizes:
  "nla_attr_size n = 4 + n" "nla_total_size n = NLA_ALIGN (4 + n)"
  "nla_padlen n = NLA_ALIGN (4 + n) - (4 + n)"
  by (simp_all add: nla_attr_size_def nla_total_size_def nla_padlen_def)

lemma length_encode_attr: "int (length (encode_attr t data)) = NLA_ALIGN (4 + int (length data))"
  using NLA_ALIGN_bounds(1) [of "4 + int (length data)"] by (simp add: encode_attr_def nla_sizes)

lemma skb_write_set:
  "length old = length bs \<Longrightarrow>
   skb_write (skb_set (xs @ old @ ys) d t l skb) (int (length xs)) bs =
     Inr (skb_set (xs @ bs @ ys) d t l skb)"
  by (simp add: skb_write_def mem_write_ok)

lemma nla_put_writes:
  assumes "length data < 2 ^ 16 - 4" "length old = length (encode_attr t data)"
    "\<not> skb_is_nonlinear skb"
  shows "uu_nla_put (skb_set (pre @ old @ post) d (length pre) l skb) t data =
    Inr (skb_set (pre @ encode_attr t data @ post) d (length pre + length (encode_attr t data))
           (l + of_nat (length (encode_attr t data))) skb)"
proof -
  let ?n = "int (length data)" and ?m = "length (encode_attr t data)"
  let ?pad = "nat (nla_padlen ?n)"
  have m: "?m = 4 + length data + ?pad" by (simp add: encode_attr_def)
  have tot: "nla_total_size ?n = int ?m" by (simp add: nla_sizes length_encode_attr)
  have d: "length data < 65532" using assms(1) by simp
  have m32: "unat (of_nat ?m :: u32) = ?m"
  proof -
    have "int ?m < 65540"
      using d NLA_ALIGN_bounds(2) [of "4 + ?n"] length_encode_attr [of t data] by linarith
    then show ?thesis by (simp add: unat_of_nat)
  qed
  have len16: "uint (word_of_int (nla_attr_size ?n) :: u16) = 4 + ?n"
    using d unfolding nla_sizes(1) uint_word_of_int by simp
  obtain a b c e where old: "old = a @ b @ c @ e" "length a = 2" "length b = 2"
    "length c = length data" "length e = ?pad"
  proof
    have "drop 2 (drop 2 old) = drop 4 old" "drop (length data) (drop 4 old) = drop (4 + length data) old"
      by (simp_all add: add.commute)
    then show "old = take 2 old @ take 2 (drop 2 old) @ take (length data) (drop 4 old) @
        drop (4 + length data) old"
      by (metis append_take_drop_id)
    show "length (take 2 old) = 2" "length (take 2 (drop 2 old)) = 2"
      "length (take (length data) (drop 4 old)) = length data" "length (drop (4 + length data) old) = ?pad"
      using assms(2) m by simp_all
  qed
  let ?l = "l + of_nat ?m" and ?t = "length pre + ?m"
  have put: "skb_put (skb_set (pre @ old @ post) d (length pre) l skb) (word_of_int (nla_total_size ?n)) =
      Inr (length pre, skb_set (pre @ old @ post) d ?t ?l skb)"
    using assms(2,3) m32 by (simp add: skb_put_def tot)
  have w1: "skb_write (skb_set (pre @ old @ post) d ?t ?l skb) (int (length pre) + 2) (u16_bytes x) =
      Inr (skb_set (pre @ a @ u16_bytes x @ c @ e @ post) d ?t ?l skb)" for x
    using skb_write_set [of b "u16_bytes x" "pre @ a" "c @ e @ post"] old by (simp add: add.commute)
  have w2: "skb_write (skb_set (pre @ a @ y @ post') d ?t ?l skb) (int (length pre)) (u16_bytes x) =
      Inr (skb_set (pre @ u16_bytes x @ y @ post') d ?t ?l skb)" for x y post'
    using skb_write_set [of a "u16_bytes x" pre "y @ post'"] old by simp
  have w3: "skb_write (skb_set (pre @ u16_bytes x @ u16_bytes y @ c @ e @ post) d ?t ?l skb)
      (int (length pre) + (4 + ?n)) (replicate ?pad 0) =
      Inr (skb_set (pre @ u16_bytes x @ u16_bytes y @ c @ replicate ?pad 0 @ post) d ?t ?l skb)" for x y
    using skb_write_set [of e "replicate ?pad 0" "pre @ u16_bytes x @ u16_bytes y @ c" post] old
    by (simp add: algebra_simps)
  have w4: "skb_write (skb_set (pre @ u16_bytes x @ u16_bytes y @ c @ z @ post) d ?t ?l skb)
      (int (length pre) + 4) data =
      Inr (skb_set (pre @ u16_bytes x @ u16_bytes y @ data @ z @ post) d ?t ?l skb)" for x y z
    using skb_write_set [of c data "pre @ u16_bytes x @ u16_bytes y" "z @ post"] old
    by (simp add: algebra_simps)
  have enc: "pre @ encode_attr t data @ post =
      pre @ u16_bytes (word_of_int (nla_attr_size ?n)) @ u16_bytes (word_of_int t) @ data @ replicate ?pad 0 @ post"
    by (simp add: encode_attr_def nla_sizes)
  show ?thesis
    unfolding uu_nla_put_def uu_nla_reserve_def put Let_def len16 enc
    by (simp only: bindE_simps prod.case w1 w2 w3 w4 nla_data_def NLA_HDRLEN_eq)
qed

text \<open>A sender's loop: put attributes one after the other until one does not fit.\<close>

fun nla_put_all :: "sk_buff \<Rightarrow> (int \<times> u8 list) list \<Rightarrow> crash + errno + sk_buff" where
  "nla_put_all skb [] = Inr (Inr skb)"
| "nla_put_all skb ((t, data) # attrs) =
     bindE (nla_put skb t data) (\<lambda>r. case r of Inl e \<Rightarrow> Inr (Inl e) | Inr skb \<Rightarrow> nla_put_all skb attrs)"

definition encode_attrs :: "(int \<times> u8 list) list \<Rightarrow> u8 list" where
  "encode_attrs attrs = concat (map (\<lambda>(t, data). encode_attr t data) attrs)"

definition attrs_ok :: "(int \<times> u8 list) list \<Rightarrow> bool" where
  "attrs_ok attrs \<longleftrightarrow> list_all (\<lambda>(t, data). 0 \<le> t \<and> t < 2 ^ 14 \<and> length data < 2 ^ 16 - 4) attrs"

lemma encode_attrs_simps [simp]:
  "encode_attrs [] = []"
  "encode_attrs ((t, data) # attrs) = encode_attr t data @ encode_attrs attrs"
  by (simp_all add: encode_attrs_def)

lemma attrs_ok_simps [simp]:
  "attrs_ok []"
  "attrs_ok ((t, data) # attrs) \<longleftrightarrow> 0 \<le> t \<and> t < 2 ^ 14 \<and> length data < 2 ^ 16 - 4 \<and> attrs_ok attrs"
  by (simp_all add: attrs_ok_def)

lemma nla_put_spec:
  assumes "skb_wf skb" "\<not> skb_is_nonlinear skb" "length (skb_head skb) < 2 ^ 31"
    "length data < 2 ^ 16 - 4" "length (encode_attr t data) \<le> nat (skb_tailroom skb)"
  shows "\<exists>skb'. nla_put skb t data = Inr (Inr skb') \<and> skb_wf skb' \<and> \<not> skb_is_nonlinear skb' \<and>
    skb_data skb' = skb_data skb \<and> length (skb_head skb') = length (skb_head skb) \<and>
    skb_bytes skb' = skb_bytes skb @ encode_attr t data \<and>
    skb_tailroom skb' = skb_tailroom skb - int (length (encode_attr t data))"
proof -
  let ?h = "skb_head skb" and ?t = "skb_tail skb" and ?enc = "encode_attr t data"
  let ?m = "length ?enc"
  note wf = skb_wfD [OF assms(1)] and lin = skb_linear_bytes [OF assms(1,2)]
  have room: "?t + ?m \<le> length ?h" using assms(2,5) wf(2) by (simp add: skb_tailroom_def)
  define pre old post where "pre = take ?t ?h" "old = take ?m (drop ?t ?h)" "post = drop ?m (drop ?t ?h)"
  have h: "?h = pre @ old @ post" "length pre = ?t" "length old = ?m"
    using room by (simp_all add: pre_old_post_def del: drop_drop)
  have "skb = skb_set (pre @ old @ post) (skb_data skb) (length pre) (skb_len skb) skb"
    by (simp add: h(2) flip: h(1))
  then have put: "uu_nla_put skb t data = Inr (skb_set (pre @ ?enc @ post) (skb_data skb) (?t + ?m)
      (skb_len skb + of_nat ?m) skb)" (is "_ = Inr ?skb'")
    using nla_put_writes [OF assms(4) h(3) assms(2), of pre post "skb_data skb" "skb_len skb"] h(2) by simp
  have len: "unat (skb_len skb + of_nat ?m) = ?t + ?m - skb_data skb"
    using lin(4) wf(1) room assms(3) by (simp add: unat_word_ariths unat_of_nat)
  have "skb_wf ?skb'"
    using wf room assms(1,3) len lin(3) h by (intro skb_wf_set) simp_all
  moreover have "skb_bytes ?skb' = skb_bytes skb @ ?enc"
  proof -
    have "drop (skb_data skb) (pre @ ?enc @ post) = skb_linear skb @ ?enc @ post"
      using wf(1) h(2) by (simp add: skb_linear_def pre_old_post_def drop_take)
    moreover have "length (skb_linear skb) = ?t - skb_data skb" by (rule skb_wf_linear [OF assms(1)])
    ultimately show ?thesis using wf(1) lin by (simp add: skb_bytes_set)
  qed
  moreover have "skb_tailroom ?skb' = skb_tailroom skb - int ?m" 
    using h assms(2) by (simp add: skb_tailroom_def)
  moreover have "\<not> skb_tailroom skb < nla_total_size (int (length data))"
    using assms(5) length_encode_attr [of t data] NLA_ALIGN_bounds(1) [of "4 + int (length data)"]
    unfolding nla_sizes(2) by linarith
  ultimately show ?thesis using put h assms(2) by (simp add: nla_put_def)
qed

lemma nla_put_all_spec:
  assumes "skb_wf skb" "\<not> skb_is_nonlinear skb" "length (skb_head skb) < 2 ^ 31"
    "attrs_ok attrs" "length (encode_attrs attrs) \<le> nat (skb_tailroom skb)"
  shows "\<exists>skb'. nla_put_all skb attrs = Inr (Inr skb') \<and> skb_wf skb' \<and> \<not> skb_is_nonlinear skb' \<and>
    skb_data skb' = skb_data skb \<and> skb_bytes skb' = skb_bytes skb @ encode_attrs attrs"
  using assms
proof (induction attrs arbitrary: skb)
  case (Cons a attrs)
  obtain t data where a: "a = (t, data)" by fastforce
  obtain skb1 where "nla_put skb t data = Inr (Inr skb1)" "skb_wf skb1" "\<not> skb_is_nonlinear skb1"
    "skb_data skb1 = skb_data skb" "length (skb_head skb1) = length (skb_head skb)"
    "skb_bytes skb1 = skb_bytes skb @ encode_attr t data"
    "skb_tailroom skb1 = skb_tailroom skb - int (length (encode_attr t data))"
    using nla_put_spec [of skb data t] Cons.prems a by auto
  then show ?case using Cons.IH [of skb1] Cons.prems a by auto
qed simp

section \<open>Reading back\<close>

lemma u16_round_trip:
  "(ucast (ucast w :: u8) :: u16) OR push_bit 8 (ucast (ucast (drop_bit 8 w) :: u8)) = w"
  by (rule bit_word_eqI) (auto simp: bit_simps)

lemma read_u16_bytes: "read_u16 (xs @ u16_bytes w @ ys) (int (length xs)) = Inr w"
  by (simp add: read_u16_def mem_read_ok u16_bytes_def u16_round_trip)

lemma attr_at:
  assumes "0 \<le> t" "t < 2 ^ 14" "length data < 2 ^ 16 - 4"
  shows "attr_len (pre @ encode_attr t data @ post) (int (length pre)) = 4 + int (length data)"
    "attr_type (pre @ encode_attr t data @ post) (int (length pre)) = t"
    "attr_payload (pre @ encode_attr t data @ post) (int (length pre)) = data"
proof -
  let ?buf = "pre @ encode_attr t data @ post"
  let ?tail = "data @ replicate (nat (nla_padlen (int (length data)))) 0 @ post"
  have d: "length data < 65532" "t < 16384" using assms(2,3) by simp_all
  have "read_u16 ?buf (int (length pre)) = Inr (word_of_int (4 + int (length data)))"
    using read_u16_bytes [of pre "word_of_int (4 + int (length data))" "u16_bytes (word_of_int t) @ ?tail"]
    by (simp add: encode_attr_def)
  moreover have "uint (word_of_int (4 + int (length data)) :: u16) = 4 + int (length data)"
    using d unfolding uint_word_of_int by simp
  ultimately show l: "attr_len ?buf (int (length pre)) = 4 + int (length data)"
    unfolding attr_len_def nlattr_nla_len_def by (simp only: sum.case)
  have "read_u16 ?buf (int (length pre) + 2) = Inr (word_of_int t)"
    using read_u16_bytes [of "pre @ u16_bytes (word_of_int (4 + int (length data)))" "word_of_int t" ?tail]
    by (simp add: encode_attr_def add.commute)
  moreover have "uint (word_of_int t AND NLA_TYPE_MASK) = t"
  proof -
    have "NLA_TYPE_MASK = mask 14" by (simp add: NLA_TYPE_MASK_def mask_eq_exp_minus_1)
    then have "(word_of_int t :: u16) AND NLA_TYPE_MASK = take_bit 14 (word_of_int t)"
      by (simp add: take_bit_eq_mask)
    then show ?thesis using assms(1) d
      by (simp add: unsigned_take_bit_eq uint_word_of_int take_bit_int_eq_self)
  qed
  ultimately show "attr_type ?buf (int (length pre)) = t"
    by (simp add: attr_type_def nla_type_def nlattr_nla_type_def)
  have n: "nat (int (length pre) + 4) = length pre + 4" by simp
  show "attr_payload ?buf (int (length pre)) = data"
    unfolding attr_payload_def l n by (simp add: encode_attr_def u16_bytes_def)
qed

text \<open>The first of the attributes with type \<open>a\<close>.\<close>

definition first_attr :: "int \<Rightarrow> (int \<times> u8 list) list \<Rightarrow> u8 list option" where
  "first_attr a attrs = map_option snd (List.find (\<lambda>(t, _). t = a) attrs)"

lemma find_encoded:
  assumes "attrs_ok attrs"
  shows "map_option (attr_payload (pre @ encode_attrs attrs @ post))
      (List.find (\<lambda>q. attr_type (pre @ encode_attrs attrs @ post) q = a)
        (nla_positions (pre @ encode_attrs attrs @ post) (int (length pre))
           (int (length (encode_attrs attrs))))) = first_attr a attrs"
  using assms
proof (induction attrs arbitrary: pre)
  case Nil
  then show ?case by (simp add: nla_positions.simps first_attr_def)
next
  case (Cons x attrs)
  obtain t data where x: "x = (t, data)" by fastforce
  let ?buf = "pre @ encode_attrs (x # attrs) @ post" and ?p = "int (length pre)"
  have ok: "0 \<le> t" "t < 2 ^ 14" "length data < 2 ^ 16 - 4" "attrs_ok attrs"
    using Cons.prems by (simp_all add: x)
  note at = attr_at [OF ok(1-3), of pre "encode_attrs attrs @ post"]
  let ?e = "encode_attr t data"
  have pos: "nla_positions ?buf ?p (int (length (encode_attrs (x # attrs)))) =
      ?p # nla_positions ?buf (int (length (pre @ ?e))) (int (length (encode_attrs attrs)))"
    using NLA_ALIGN_bounds(1) [of "4 + int (length data)"] length_encode_attr [of t data]
    by (subst nla_positions.simps) (simp add: at x)
  have buf': "?buf = (pre @ ?e) @ encode_attrs attrs @ post" by (simp add: x)
  have IH: "map_option (attr_payload ?buf) (List.find (\<lambda>q. attr_type ?buf q = a)
      (nla_positions ?buf (int (length (pre @ ?e))) (int (length (encode_attrs attrs))))) = first_attr a attrs"
    unfolding buf' by (rule Cons.IH [OF ok(4)])
  show ?case
    unfolding pos using IH at by (auto simp: x first_attr_def)
qed

lemma skb_stream:
  assumes "skb_wf skb" "\<not> skb_is_nonlinear skb"
  obtains pre post where "skb_head skb = pre @ skb_bytes skb @ post" "length pre = skb_data skb"
    "int (length (skb_bytes skb)) = uint (skb_len skb)"
proof
  note wf = skb_wfD [OF assms(1)]
  show "skb_head skb = take (skb_data skb) (skb_head skb) @ skb_bytes skb @ drop (skb_tail skb) (skb_head skb)"
    using wf(1,2) skb_linear_bytes(1) [OF assms]
    by (simp add: skb_linear_def)
      (metis append_take_drop_id drop_drop le_add_diff_inverse2)
  show "length (take (skb_data skb) (skb_head skb)) = skb_data skb" using wf(1,2) by simp
  show "int (length (skb_bytes skb)) = uint (skb_len skb)"
    using skb_wf_length [OF assms(1)] by simp
qed

text \<open>
  C15: Attributes that \<^verbatim>\<open>nla_put\<close> writes one after the other into an empty linear packet with
  room for them are all written, without a crash, and read back: \<^verbatim>\<open>nla_find\<close> on the
  packet finds an attribute of a type exactly when one was put, and \<^verbatim>\<open>nla_memcpy\<close> of
  what it finds yields the payload of the first one put with that type.  The types are
  below \<open>2 ^ 14\<close> and the payloads shorter than \<open>2 ^ 16 - 4\<close> bytes: \<^verbatim>\<open>nla_put\<close> checks neither,
  but cuts the length to 16 bits, and readers mask the two upper bits of the type.
\<close>

theorem nla_put_then_find:
  assumes "skb_wf skb" "\<not> skb_is_nonlinear skb" "skb_bytes skb = []" "length (skb_head skb) < 2 ^ 31"
    "attrs_ok attrs" "length (encode_attrs attrs) \<le> nat (skb_tailroom skb)"
  shows "\<exists>skb'. nla_put_all skb attrs = Inr (Inr skb') \<and> skb_wf skb' \<and>
    (\<exists>r. nla_find (skb_head skb') (int (skb_data skb')) (uint (skb_len skb')) a = Inr r \<and>
      (case first_attr a attrs of
         None \<Rightarrow> r = None
       | Some data \<Rightarrow> \<exists>q. r = Some q \<and>
           nla_memcpy (replicate (length data) 0) (skb_head skb') q (int (length data)) =
             Inr (int (length data), data)))"
proof -
  obtain skb' where skb': "nla_put_all skb attrs = Inr (Inr skb')" "skb_wf skb'" "\<not> skb_is_nonlinear skb'"
    "skb_bytes skb' = encode_attrs attrs"
    using nla_put_all_spec [OF assms(1,2,4-6)] assms(3) by auto
  obtain pre post where h: "skb_head skb' = pre @ encode_attrs attrs @ post" "length pre = skb_data skb'"
    "int (length (encode_attrs attrs)) = uint (skb_len skb')"
    using skb_stream [OF skb'(2,3)] unfolding skb'(4) by metis
  let ?qs = "nla_positions (skb_head skb') (int (skb_data skb')) (uint (skb_len skb'))"
  let ?r = "List.find (\<lambda>q. attr_type (skb_head skb') q = a) ?qs"
  have b: "0 \<le> int (skb_data skb')" "int (skb_data skb') + uint (skb_len skb') \<le> int (length (skb_head skb'))"
    using h by simp_all
  have find: "nla_find (skb_head skb') (int (skb_data skb')) (uint (skb_len skb')) a = Inr ?r"
    by (rule nla_find_spec [OF b])
  have pay: "map_option (attr_payload (skb_head skb')) ?r = first_attr a attrs"
    using find_encoded [OF assms(5), of pre post a] h by simp
  have "attr_in (skb_head skb') q" if "?r = Some q" for q
    using that nla_positions_in [OF b] by (auto simp: find_Some_iff)
  then have "nla_memcpy (replicate (length (attr_payload (skb_head skb') q)) 0) (skb_head skb') q
      (int (length (attr_payload (skb_head skb') q))) =
      Inr (int (length (attr_payload (skb_head skb') q)), attr_payload (skb_head skb') q)"
    if "?r = Some q" for q
    using that nla_memcpy_spec [of "skb_head skb'" q] by simp
  then have "case first_attr a attrs of None \<Rightarrow> ?r = None
      | Some data \<Rightarrow> \<exists>q. ?r = Some q \<and>
          nla_memcpy (replicate (length data) 0) (skb_head skb') q (int (length data)) =
            Inr (int (length data), data)"
    unfolding pay [symmetric] by (cases ?r) simp_all
  then show ?thesis using skb'(1,2) find by blast
qed

text \<open>An empty packet with 28 bytes of room, and two attributes of type 3 around one of type 5.\<close>

theorem nla_put_then_find_witness:
  "\<exists>skb'. nla_put_all (Skb (replicate 32 0xff) 4 4 0 0 0 0 0 0 None [] [])
       [(5, [1, 2]), (3, [7, 8, 9]), (3, [])] = Inr (Inr skb') \<and>
     (\<exists>q. nla_find (skb_head skb') (int (skb_data skb')) (uint (skb_len skb')) 3 = Inr (Some q) \<and>
        nla_memcpy [0, 0, 0] (skb_head skb') q 3 = Inr (3, [7, 8, 9]))"
proof -
  let ?skb = "Skb (replicate 32 0xff) 4 4 0 0 0 0 0 0 None [] []"
  let ?attrs = "[(5, [1, 2]), (3, [7, 8, 9]), (3, [])] :: (int \<times> u8 list) list"
  have "skb_wf ?skb" "\<not> skb_is_nonlinear ?skb" "skb_bytes ?skb = []" "nat (skb_tailroom ?skb) = 28"
    by (simp_all add: skb_is_nonlinear_def skb_tailroom_def)
  moreover have "length (encode_attrs ?attrs) \<le> 28"
    by (simp add: encode_attr_def nla_sizes NLA_ALIGN_eq)
  moreover have "first_attr 3 ?attrs = Some [7, 8, 9]" by (simp add: first_attr_def)
  ultimately show ?thesis
    using nla_put_then_find [of ?skb ?attrs 3] by (auto simp: numeral_3_eq_3)
qed

end
