(* ===== verification/Bpf_Safe.thy ===== *)
theory Bpf_Safe
  imports Bpf
begin

unbundle bit_operations_syntax

text \<open>
  What the checker of socket filters guarantees about the interpreter.
\<close>

section \<open>Which instructions can crash\<close>

text \<open>
  The crash \<open>c\<close> that the instruction can end in although the checker accepts it:
  a shift by 32 or more, and the loads with a negative offset, which read around
  the packet headers or ancillary data.
\<close>

fun hazard :: "opcode \<Rightarrow> sock_filter \<Rightarrow> bpf_state \<Rightarrow> crash \<Rightarrow> bool" where
  "hazard (Alu op src) f st c =
     ((op = Alu_lsh \<or> op = Alu_rsh) \<and> unat (source src f st) \<ge> 32 \<and> c = Undefined_shift)"
| "hazard (Ld_abs w) f st c = (sint (sf_k f) < 0 \<and> c \<in> {Out_of_bounds, Null_deref})"
| "hazard (Ld_ind w) f st c = (sint (reg_X st + sf_k f) < 0 \<and> c \<in> {Out_of_bounds, Null_deref})"
| "hazard Ldx_msh f st c = (sint (sf_k f) < 0 \<and> c = Out_of_bounds)"
| "hazard _ f st c = False"

lemma mem_read_crash: "mem_read buf i n = Inl c \<Longrightarrow> c = Out_of_bounds"
  by (auto simp: mem_read_def split: if_splits)

lemma read_u16_crash: "read_u16 buf p = Inl c \<Longrightarrow> c = Out_of_bounds"
  by (auto simp: read_u16_def bindE_Inl_iff dest: mem_read_crash)

lemmas nla_read_defs = nla_ok_def nla_next_def nla_len_def nla_type_def
  nlattr_nla_len_def nlattr_nla_type_def

lemma nla_read_crash:
  "nla_ok buf p rem = Inl c \<Longrightarrow> c = Out_of_bounds"
  "nla_next buf p rem = Inl c \<Longrightarrow> c = Out_of_bounds"
  "nla_len buf p = Inl c \<Longrightarrow> c = Out_of_bounds"
  "nla_type buf p = Inl c \<Longrightarrow> c = Out_of_bounds"
  "nlattr_nla_len buf p = Inl c \<Longrightarrow> c = Out_of_bounds"
  by (auto simp: nla_read_defs bindE_Inl_iff Let_def split: if_splits dest: read_u16_crash)

lemma nla_for_each_attr_crash:
  assumes "nla_for_each_attr body buf p rem s = Inl c" "\<forall>q s c. body q s = Inl c \<longrightarrow> c = Out_of_bounds"
  shows "c = Out_of_bounds"
  using assms
proof (induction body buf p rem s rule: nla_for_each_attr.induct)
  case (1 body buf p rem s)
  show ?case
  proof (cases "\<exists>s'. nla_ok buf p rem = Inr True \<and> body p s = Inr (Inr s')")
    case True
    then obtain s' where s': "nla_ok buf p rem = Inr True" "body p s = Inr (Inr s')" by blast
    show ?thesis
    proof (cases "nla_next buf p rem")
      case (Inl c')
      then show ?thesis using "1.prems"(1) s' nla_read_crash(2) [OF Inl]
        by (simp add: nla_for_each_attr.simps [of body buf p rem s])
    next
      case (Inr pr)
      obtain p' rem' where pr: "pr = (p', rem')" by fastforce
      have "nla_for_each_attr body buf p' rem' s' = Inl c"
        using "1.prems"(1) s' Inr pr by (simp add: nla_for_each_attr.simps [of body buf p rem s])
      then show ?thesis
        using "1.IH" [OF s'(1) _ s'(2) refl Inr, of p' rem'] pr "1.prems"(2) by simp
    qed
  next
    case False
    then show ?thesis
      using "1.prems" nla_read_crash(1) [of buf p rem]
      by (cases "nla_ok buf p rem"; cases "body p s")
        (auto simp: nla_for_each_attr.simps [of body buf p rem s] split: if_splits sum.splits)
  qed
qed

lemma nla_find_crash:
  assumes "nla_find buf p len a = Inl c" shows "c = Out_of_bounds"
proof -
  let ?body = "\<lambda>nla (_::unit). bindE (nla_type buf nla) (\<lambda>t. Inr (if t = a then Inl nla else Inr ()))"
  have "(case r of Inl nla \<Rightarrow> Inr (Some nla) | Inr _ \<Rightarrow> Inr None) \<noteq> Inl c" for r :: "int + unit \<times> int"
    by (cases r) simp_all
  then have "nla_for_each_attr ?body buf p len () = Inl c"
    using assms unfolding nla_find_def bindE_Inl_iff by blast
  then show ?thesis
    by (rule nla_for_each_attr_crash) (auto simp: bindE_Inl_iff dest: nla_read_crash)
qed

lemma nla_find_nested_crash: "nla_find_nested buf nla a = Inl c \<Longrightarrow> c = Out_of_bounds"
  by (auto simp: nla_find_nested_def bindE_Inl_iff dest: nla_read_crash nla_find_crash)

section \<open>One step of a checked program\<close>

lemma decode_mem: "decode c = Some op \<Longrightarrow> (c, op) \<in> set opcodes"
  by (auto simp: decode_def dest: map_of_SomeD)

lemma decode_ret: "decode c = Some op \<Longrightarrow> BPF_CLASS c = BPF_RET \<longleftrightarrow> op = Ret_k \<or> op = Ret_a"
  by (drule decode_mem) (auto simp: opcodes_def BPF_CLASS_def)

lemma chk_loop_nth:
  "chk_loop flen p fs \<Longrightarrow> i < length fs \<Longrightarrow>
   \<exists>op. decode (sf_code (fs ! i)) = Some op \<and> chk_insn flen (p + i) op (fs ! i)"
proof (induction fs arbitrary: p i)
  case (Cons f fs)
  then show ?case using Cons.IH [of "p + 1" "i - 1"]
    by (cases i) (auto split: option.splits)
qed simp

text \<open>What the checker establishes of every instruction.\<close>

definition checked :: "sock_filter list \<Rightarrow> bool" where
  "checked prog \<longleftrightarrow> 0 < length prog \<and> length prog \<le> BPF_MAXINSNS \<and>
     (\<forall>i<length prog. \<exists>op. decode (sf_code (prog ! i)) = Some op \<and> chk_insn (length prog) i op (prog ! i) \<and>
        (i + 1 = length prog \<longrightarrow> op = Ret_k \<or> op = Ret_a))"

lemma sk_chk_filter_checked:
  assumes "sk_chk_filter prog = None" shows "checked prog"
proof -
  have len: "0 < length prog" "length prog \<le> BPF_MAXINSNS" and loop: "chk_loop (length prog) 0 prog"
    and ret: "BPF_CLASS (sf_code (prog ! (length prog - 1))) = BPF_RET"
    using assms by (auto simp: sk_chk_filter_def split: if_splits)
  have "\<exists>op. decode (sf_code (prog ! i)) = Some op \<and> chk_insn (length prog) i op (prog ! i) \<and>
      (i + 1 = length prog \<longrightarrow> op = Ret_k \<or> op = Ret_a)" if i: "i < length prog" for i
  proof -
    obtain op where op: "decode (sf_code (prog ! i)) = Some op" "chk_insn (length prog) i op (prog ! i)"
      using chk_loop_nth [OF loop i] by auto
    moreover have "op = Ret_k \<or> op = Ret_a" if "i + 1 = length prog"
      using ret decode_ret [OF op(1)] that by (metis add_diff_cancel_right')
    ultimately show ?thesis by blast
  qed
  then show ?thesis using len by (auto simp: checked_def)
qed

definition state_ok :: "sock_filter list \<Rightarrow> bpf_state \<Rightarrow> bool" where
  "state_ok prog st \<longleftrightarrow> 0 \<le> pc st \<and> pc st < int (length prog) \<and> length (scratch st) = BPF_MEMWORDS"

text \<open>An outcome is fine when it goes on to a later instruction or stops for a known reason.\<close>

fun fine :: "sock_filter list \<Rightarrow> bpf_state \<Rightarrow> (crash \<Rightarrow> bool) \<Rightarrow> outcome \<Rightarrow> bool" where
  "fine prog st h (Continue st') = (state_ok prog st' \<and> pc st < pc st')"
| "fine prog st h (Stop (Ret v)) = True"
| "fine prog st h (Stop Warn_ret) = False"
| "fine prog st h (Stop (Crash c)) = h c"

lemma fine_next:
  assumes "state_ok prog st" "pc st + 1 < int (length prog)" "pc st' = pc st"
    "length (scratch st') = BPF_MEMWORDS"
  shows "fine prog st h (next_insn st')"
  using assms by (simp add: next_insn_def state_ok_def)

lemma load_pointer_cases:
  assumes "skb_wf skb" "0 < sz"
  shows "(\<exists>bs. load_pointer skb k sz = Inr (Some bs)) \<or> load_pointer skb k sz = Inr None \<or>
    load_pointer skb k sz = Inl Out_of_bounds \<and> k < 0"
proof (cases "0 \<le> k")
  case True
  then show ?thesis using skb_header_pointer_spec [OF assms(1) True assms(2)]
    by (cases "read_spec (skb_bytes skb) k sz") (simp_all add: load_pointer_def)
next
  case False
  then show ?thesis
    by (cases "buf_read skb (the (uu_load_pointer skb k)) sz")
      (auto simp: load_pointer_def buf_read_def dest: mem_read_crash split: option.splits)
qed

lemma attr_result_fine:
  assumes "state_ok prog st" "pc st + 1 < int (length prog)" "\<And>c. r = Inl c \<Longrightarrow> h c"
  shows "fine prog st h (attr_result skb st r)"
proof -
  have "length (scratch st) = BPF_MEMWORDS" using assms(1) by (simp add: state_ok_def)
  then show ?thesis
    using assms by (auto simp: attr_result_def intro!: fine_next split: sum.splits option.splits)
qed

lemma ancillary_fine:
  assumes "state_ok prog st" "pc st + 1 < int (length prog)" "k < 0 \<Longrightarrow> h Out_of_bounds \<and> h Null_deref"
  shows "fine prog st h (ancillary skb k st)"
proof -
  have mem: "length (scratch st) = BPF_MEMWORDS" using assms(1) by (simp add: state_ok_def)
  have ad: "fine prog st h (ad_nlattr skb st)" "fine prog st h (ad_nlattr_nest skb st)" if "k < 0"
    using assms that
    by (auto simp: ad_nlattr_def ad_nlattr_nest_def Let_def intro!: attr_result_fine split: sum.splits
        dest!: nla_find_crash nla_find_nested_crash nla_read_crash)
  show ?thesis
    using assms mem ad
    by (auto simp: ancillary_def Let_def intro!: fine_next split: option.splits)
qed

lemma load_step_fine:
  assumes "skb_wf skb" "state_ok prog st" "pc st + 1 < int (length prog)"
    "k < 0 \<Longrightarrow> h Out_of_bounds \<and> h Null_deref"
  shows "fine prog st h (load_step skb w k st)"
proof -
  have mem: "length (scratch st) = BPF_MEMWORDS" using assms(2) by (simp add: state_ok_def)
  have "0 < width_size w" by (cases w) simp_all
  then show ?thesis
    using load_pointer_cases [OF assms(1), of "width_size w" k] ancillary_fine [OF assms(2,3,4)] assms mem
    by (auto simp: load_step_def intro!: fine_next)
qed

lemma fine_jump:
  assumes "state_ok prog st" "pc st \<le> p" "p + 1 < int (length prog)"
  shows "fine prog st h (next_insn (st\<lparr>pc := p\<rparr>))"
  using assms by (simp add: next_insn_def state_ok_def)

lemma ja_fine:
  assumes "state_ok prog st" "length prog \<le> BPF_MAXINSNS"
    "sf_k f < word_of_int (int (length prog) - int (nat (pc st)) - 1)"
  shows "fine prog st h (ja_step f st)"
proof -
  have p: "0 \<le> pc st" "pc st < int (length prog)" using assms(1) by (simp_all add: state_ok_def)
  let ?d = "length prog - nat (pc st) - 1" and ?k = "unat (sf_k f)"
  have e: "int (length prog) - int (nat (pc st)) - 1 = int ?d" using p by simp
  have "unat (of_nat ?d :: u32) = ?d" using assms(2) by (simp add: unat_of_nat)
  then have k: "?k < ?d" using assms(3) unfolding e by (simp add: word_less_nat_alt)
  have w: "word_of_int (pc st) + sf_k f = of_nat (nat (pc st) + ?k)" using p by simp
  have "nat (pc st) + ?k < 2 ^ 32" using k assms(2) by simp
  then have "unat (of_nat (nat (pc st) + ?k) :: u32) = nat (pc st) + ?k"
    by (simp only: unat_of_nat) simp
  then have "sint (word_of_int (pc st) + sf_k f) = int (nat (pc st) + ?k)"
    unfolding w using sint_small [of "of_nat (nat (pc st) + ?k)"] k assms(2) by simp
  then show ?thesis
    unfolding ja_step_def using p k by (intro fine_jump [OF assms(1)]) linarith+
qed

lemma jmp_fine:
  assumes "state_ok prog st" "nat (pc st) + unat (sf_jt f) + 1 < length prog"
    "nat (pc st) + unat (sf_jf f) + 1 < length prog"
  shows "fine prog st h (jmp_step op src f st)"
proof -
  let ?d = "if jmp_cond op (reg_A st) (source src f st) then sf_jt f else sf_jf f"
  have "0 \<le> pc st" using assms(1) by (simp add: state_ok_def)
  moreover have "nat (pc st) + unat ?d + 1 < length prog" using assms(2,3) by simp
  ultimately have "pc st + int (unat ?d) + 1 < int (length prog)" by linarith
  then show ?thesis
    unfolding jmp_step_def by (intro fine_jump [OF assms(1)]) simp_all
qed

lemma alu_fine:
  assumes "state_ok prog st" "pc st + 1 < int (length prog)"
    "op = Alu_div \<and> src = Src_K \<Longrightarrow> sf_k f \<noteq> 0"
  shows "fine prog st (hazard (Alu op src) f st) (alu_step op src f st)"
proof -
  have mem: "length (scratch st) = BPF_MEMWORDS" using assms(1) by (simp add: state_ok_def)
  show ?thesis using assms mem
    by (cases op; cases src) (auto simp: alu_step_def intro!: fine_next)
qed

lemma mem_fine:
  assumes "state_ok prog st" "pc st + 1 < int (length prog)" "sf_k f < of_nat BPF_MEMWORDS"
  shows "fine prog st h (mem_set f st v)"
    "(\<And>v. fine prog st h (cont v)) \<Longrightarrow> fine prog st h (mem_get f st cont)"
proof -
  have mem: "length (scratch st) = BPF_MEMWORDS" using assms(1) by (simp add: state_ok_def)
  have k: "unat (sf_k f) < BPF_MEMWORDS" using assms(3) by (simp add: word_less_nat_alt)
  show "fine prog st h (mem_set f st v)"
    using assms mem k by (auto simp: mem_set_def intro!: fine_next)
  show "fine prog st h (mem_get f st cont)" if "\<And>v. fine prog st h (cont v)"
    using mem k that by (simp add: mem_get_def)
qed

lemma exec_fine:
  assumes "skb_wf skb" "checked prog" "state_ok prog st"
    "decode (sf_code (prog ! nat (pc st))) = Some op"
  defines "f \<equiv> prog ! nat (pc st)"
  shows "fine prog st (hazard op f st) (exec skb op f st)"
proof -
  have p: "0 \<le> pc st" "nat (pc st) < length prog" and mem: "length (scratch st) = BPF_MEMWORDS"
    using assms(3) unfolding state_ok_def by linarith+
  have chk: "chk_insn (length prog) (nat (pc st)) op f" and len: "length prog \<le> BPF_MAXINSNS"
    using assms(2,4) p(2) by (auto simp: checked_def f_def)
  show ?thesis
  proof (cases "op = Ret_k \<or> op = Ret_a")
    case False
    then have "nat (pc st) + 1 \<noteq> length prog"
      using assms(2,4) p(2) unfolding checked_def by fastforce
    then have nx: "pc st + 1 < int (length prog)" using p by linarith
    note simple = fine_next [OF assms(3) nx]
    show ?thesis
    proof (cases op)
      case (Alu o' src)
      have "sf_k f \<noteq> 0" if "o' = Alu_div \<and> src = Src_K" using chk that Alu by simp
      then show ?thesis using Alu alu_fine [OF assms(3) nx] by simp
    next
      case Ja
      then show ?thesis using chk ja_fine [OF assms(3) len] by simp
    next
      case (Jmp o' src)
      then show ?thesis using chk jmp_fine [OF assms(3)] by simp
    next
      case Ldx_msh
      then show ?thesis
        using load_pointer_cases [OF assms(1), of 1 "sint (sf_k f)"] mem
        by (auto simp: msh_step_def intro!: simple)
    next
      case (Ld_abs w)
      then show ?thesis using load_step_fine [OF assms(1,3) nx] by simp
    next
      case (Ld_ind w)
      then show ?thesis using load_step_fine [OF assms(1,3) nx] by simp
    qed (insert chk mem, auto intro!: simple mem_fine [OF assms(3) nx])
  qed (auto)
qed

section \<open>Runs of checked programs\<close>

definition filter_next :: "sk_buff \<Rightarrow> sock_filter list \<Rightarrow> bpf_state \<Rightarrow> bpf_state \<Rightarrow> bool" where
  "filter_next skb prog st st' \<longleftrightarrow> filter_step skb prog st = Continue st'"

text \<open>The loop cut off after \<open>n\<close> turns.\<close>

fun filter_steps :: "nat \<Rightarrow> sk_buff \<Rightarrow> sock_filter list \<Rightarrow> bpf_state \<Rightarrow> verdict option" where
  "filter_steps 0 skb prog st = None"
| "filter_steps (Suc n) skb prog st =
     (case filter_step skb prog st of
        Stop v \<Rightarrow> Some v
      | Continue st' \<Rightarrow> filter_steps n skb prog st')"

lemma filter_steps_loop: "filter_steps n skb prog st = Some v \<Longrightarrow> filter_loop skb prog st = Some v"
proof (induction n arbitrary: st)
  case (Suc n)
  then show ?case by (subst filter_loop.simps) (auto split: outcome.splits)
qed simp

lemma filter_step_fine:
  assumes "skb_wf skb" "checked prog" "state_ok prog st"
  shows "\<exists>op. decode (sf_code (prog ! nat (pc st))) = Some op \<and>
    filter_step skb prog st = exec skb op (prog ! nat (pc st)) st \<and>
    fine prog st (hazard op (prog ! nat (pc st)) st) (filter_step skb prog st)"
proof -
  have p: "0 \<le> pc st" "pc st < int (length prog)" "nat (pc st) < length prog"
    using assms(3) unfolding state_ok_def by linarith+
  then obtain op where op: "decode (sf_code (prog ! nat (pc st))) = Some op"
    using assms(2) unfolding checked_def by blast
  then show ?thesis
    using exec_fine [OF assms op] p by (simp add: filter_step_def)
qed

lemma filter_next_inv:
  assumes "skb_wf skb" "checked prog" "state_ok prog st" "filter_next skb prog st st'"
  shows "state_ok prog st' \<and> pc st < pc st'"
  using filter_step_fine [OF assms(1-3)] assms(4) by (auto simp: filter_next_def)

lemma filter_steps_progress:
  assumes "skb_wf skb" "checked prog" "state_ok prog st" "length prog \<le> nat (pc st) + n"
  shows "\<exists>v st' op. filter_steps n skb prog st = Some v \<and> (filter_next skb prog)\<^sup>*\<^sup>* st st' \<and>
    decode (sf_code (prog ! nat (pc st'))) = Some op \<and> v \<noteq> Warn_ret \<and>
    (\<forall>c. v = Crash c \<longrightarrow> hazard op (prog ! nat (pc st')) st' c)"
  using assms(3,4)
proof (induction n arbitrary: st)
  case 0
  then show ?case by (auto simp: state_ok_def)
next
  case (Suc n)
  obtain op where op: "decode (sf_code (prog ! nat (pc st))) = Some op"
    "fine prog st (hazard op (prog ! nat (pc st)) st) (filter_step skb prog st)"
    using filter_step_fine [OF assms(1,2) Suc.prems(1)] by blast
  show ?case
  proof (cases "filter_step skb prog st")
    case (Continue st1)
    then have s1: "state_ok prog st1" "pc st < pc st1" using op(2) by simp_all
    have "length prog \<le> nat (pc st1) + n" using Suc.prems s1 unfolding state_ok_def by linarith
    from Suc.IH [OF s1(1) this] obtain v st' op' where
      "filter_steps n skb prog st1 = Some v" "(filter_next skb prog)\<^sup>*\<^sup>* st1 st'"
      "decode (sf_code (prog ! nat (pc st'))) = Some op'" "v \<noteq> Warn_ret"
      "\<forall>c. v = Crash c \<longrightarrow> hazard op' (prog ! nat (pc st')) st' c" by blast
    moreover have "filter_next skb prog st st1" using Continue by (simp add: filter_next_def)
    ultimately show ?thesis using Continue
      by (metis (no_types, lifting) converse_rtranclp_into_rtranclp filter_steps.simps(2) outcome.simps(5))
  next
    case (Stop v)
    then show ?thesis using op by (cases v) (fastforce simp: rtranclp.rtrancl_refl)+
  qed
qed

lemma start_state_ok: "checked prog \<Longrightarrow> length mem0 = BPF_MEMWORDS \<Longrightarrow> state_ok prog (start_state mem0)"
  by (simp add: checked_def state_ok_def start_state_def)

text \<open>
  C1: A program that \<^verbatim>\<open>sk_chk_filter\<close> accepts, run on any well-formed packet with any
  content of the scratch memory, stops after at most as many turns of the loop as it has
  instructions.  It never executes an illegal instruction, and if it crashes, then in an
  instruction it reaches whose operand is a hazard: a shift by at least 32, or a load
  with a negative offset.  In particular it never divides by zero and never leaves the
  scratch memory or the program.
\<close>

theorem checked_filter_runs:
  assumes "sk_chk_filter prog = None" "skb_wf skb" "length mem0 = BPF_MEMWORDS"
  shows "\<exists>v. sk_run_filter skb prog mem0 = Some v \<and>
    filter_steps (length prog) skb prog (start_state mem0) = Some v \<and> v \<noteq> Warn_ret \<and>
    (\<forall>c. v = Crash c \<longrightarrow> (\<exists>st op. (filter_next skb prog)\<^sup>*\<^sup>* (start_state mem0) st \<and>
       decode (sf_code (prog ! nat (pc st))) = Some op \<and> hazard op (prog ! nat (pc st)) st c))"
proof -
  have c: "checked prog" by (rule sk_chk_filter_checked [OF assms(1)])
  obtain v st' op where "filter_steps (length prog) skb prog (start_state mem0) = Some v"
    "(filter_next skb prog)\<^sup>*\<^sup>* (start_state mem0) st'"
    "decode (sf_code (prog ! nat (pc st'))) = Some op" "v \<noteq> Warn_ret"
    "\<forall>c. v = Crash c \<longrightarrow> hazard op (prog ! nat (pc st')) st' c"
    using filter_steps_progress [OF assms(2) c start_state_ok [OF c assms(3)], of "length prog"]
    by (auto simp: start_state_def)
  then show ?thesis
    using filter_steps_loop by (auto simp: sk_run_filter_def)
qed

text \<open>Accept packets of at least 14 bytes whose ethernet type, at offset 12, is 0x800.\<close>

definition example_filter :: "sock_filter list" where
  "example_filter =
    [\<lparr>sf_code = 0x28, sf_jt = 0, sf_jf = 0, sf_k = 12\<rparr>,
     \<lparr>sf_code = 0x15, sf_jt = 0, sf_jf = 1, sf_k = 0x800\<rparr>,
     \<lparr>sf_code = 0x06, sf_jt = 0, sf_jf = 0, sf_k = 0xffff\<rparr>,
     \<lparr>sf_code = 0x06, sf_jt = 0, sf_jf = 0, sf_k = 0\<rparr>]"

lemmas decode_simps = decode_def opcodes_def

lemma example_filter_checked: "sk_chk_filter example_filter = None"
  by (simp add: sk_chk_filter_def example_filter_def decode_simps BPF_CLASS_def)

theorem checked_filter_runs_witness:
  "\<exists>v. sk_run_filter example_skb example_filter (replicate 16 7) = Some v \<and> v \<noteq> Warn_ret"
proof -
  have "skb_wf example_skb" by (simp add: example_skb_def)
  then show ?thesis
    using checked_filter_runs [OF example_filter_checked, of example_skb "replicate 16 7"] by auto
qed

section \<open>Plain programs\<close>

text \<open>
  Programs without the hazards: shifts only by constants below 32, loads only at constant
  offsets in the packet.
\<close>

fun plain_insn :: "opcode \<Rightarrow> sock_filter \<Rightarrow> bool" where
  "plain_insn (Alu op src) f =
     (op = Alu_lsh \<or> op = Alu_rsh \<longrightarrow> src = Src_K \<and> unat (sf_k f) < 32)"
| "plain_insn (Ld_abs w) f = (0 \<le> sint (sf_k f))"
| "plain_insn (Ld_ind w) f = False"
| "plain_insn Ldx_msh f = (0 \<le> sint (sf_k f))"
| "plain_insn _ f = True"

definition plain :: "sock_filter list \<Rightarrow> bool" where
  "plain prog \<longleftrightarrow> list_all (\<lambda>f. case decode (sf_code f) of None \<Rightarrow> False | Some op \<Rightarrow> plain_insn op f) prog"

lemma plain_no_hazard: "plain_insn op f \<Longrightarrow> \<not> hazard op f st c"
  by (cases op) auto

lemma plain_nth:
  "plain prog \<Longrightarrow> i < length prog \<Longrightarrow> decode (sf_code (prog ! i)) = Some op \<Longrightarrow> plain_insn op (prog ! i)"
  by (force simp: plain_def list_all_length)

lemma checked_step_invariant:
  assumes "skb_wf skb" "checked prog"
  shows "step_invariant (\<lambda>st. \<exists>mem0. length mem0 = BPF_MEMWORDS \<and> st = start_state mem0)
    (filter_next skb prog) (state_ok prog)"
  using filter_next_inv [OF assms] start_state_ok [OF assms(2)] by unfold_locales auto

lemma filter_steps_mono:
  "filter_steps n skb prog st = Some v \<Longrightarrow> n \<le> m \<Longrightarrow> filter_steps m skb prog st = Some v"
proof (induction n arbitrary: m st)
  case (Suc n)
  then show ?case by (cases m) (auto split: outcome.splits)
qed simp

lemma plain_run:
  assumes "skb_wf skb" "checked prog" "plain prog" "length mem0 = BPF_MEMWORDS"
  shows "\<exists>v. filter_steps (length prog) skb prog (start_state mem0) = Some (Ret v)"
proof -
  obtain v st op where v: "filter_steps (length prog) skb prog (start_state mem0) = Some v"
    "(filter_next skb prog)\<^sup>*\<^sup>* (start_state mem0) st"
    "decode (sf_code (prog ! nat (pc st))) = Some op" "v \<noteq> Warn_ret"
    "\<forall>c. v = Crash c \<longrightarrow> hazard op (prog ! nat (pc st)) st c"
    using filter_steps_progress [OF assms(1,2) start_state_ok [OF assms(2,4)], of "length prog"]
    by (auto simp: start_state_def)
  have "state_ok prog st"
    using step_invariant.inv_steps [OF checked_step_invariant [OF assms(1,2)] v(2)]
      start_state_ok [OF assms(2,4)] by blast
  then have "nat (pc st) < length prog" unfolding state_ok_def by linarith
  then have "plain_insn op (prog ! nat (pc st))" by (rule plain_nth [OF assms(3) _ v(3)])
  then show ?thesis using v(1,4,5) plain_no_hazard by (cases v) auto
qed

text \<open>The bytes of the packet determine what a plain instruction does.\<close>

lemma load_pointer_bytes:
  assumes "skb_wf skb" "0 \<le> k" "0 < sz"
  shows "load_pointer skb k sz = Inr (read_spec (skb_bytes skb) k sz)"
  using skb_header_pointer_spec [OF assms] assms(2) by (simp add: load_pointer_def)

lemma ancillary_nonneg: "0 \<le> k \<Longrightarrow> ancillary skb k st = Stop (Ret 0)"
  by (simp add: ancillary_def)

lemma load_step_bytes:
  assumes "skb_wf skb" "skb_wf skb'" "skb_bytes skb = skb_bytes skb'" "0 \<le> k"
  shows "load_step skb w k st = load_step skb' w k st"
proof -
  have "0 < width_size w" by (cases w) simp_all
  then show ?thesis using assms
    by (simp add: load_step_def load_pointer_bytes ancillary_nonneg split: option.split)
qed

lemma skb_len_bytes:
  assumes "skb_wf skb" "skb_wf skb'" "skb_bytes skb = skb_bytes skb'"
  shows "skb_len skb = skb_len skb'"
  using skb_wf_length [OF assms(1)] skb_wf_length [OF assms(2)] assms(3) by (simp add: word_unat_eq_iff)

lemma exec_bytes:
  assumes "skb_wf skb" "skb_wf skb'" "skb_bytes skb = skb_bytes skb'" "plain_insn op f"
  shows "exec skb op f st = exec skb' op f st"
  using assms(4)
  by (cases op) (simp_all add: load_step_bytes [OF assms(1-3)] skb_len_bytes [OF assms(1-3)]
      msh_step_def load_pointer_bytes [OF assms(1)] load_pointer_bytes [OF assms(2)] assms(3))

lemma filter_steps_bytes:
  assumes "skb_wf skb" "skb_wf skb'" "skb_bytes skb = skb_bytes skb'" "plain prog"
  shows "filter_steps n skb prog st = filter_steps n skb' prog st"
proof (induction n arbitrary: st)
  case (Suc n)
  have "filter_step skb prog st = filter_step skb' prog st"
    using plain_nth [OF assms(4), of "nat (pc st)"] exec_bytes [OF assms(1-3)]
    by (auto simp: filter_step_def Let_def nat_less_iff split: option.split)
  then show ?case using Suc.IH by (simp split: outcome.split)
qed simp

text \<open>
  C6: A checked program that shifts only by constants below 32 and loads only at constant
  offsets of the packet never crashes: on every well-formed packet, with any content of
  the uninitialised scratch memory, it returns a length.  With the same content of the
  scratch memory the length depends only on the bytes of the packet, not on how they are
  divided into a linear part, page fragments and further packets.
\<close>

theorem plain_filter_safe:
  assumes "sk_chk_filter prog = None" "plain prog" "length mem0 = BPF_MEMWORDS"
    "skb_wf skb" "skb_wf skb'" "skb_bytes skb = skb_bytes skb'"
  shows "\<exists>v. sk_run_filter skb prog mem0 = Some (Ret v) \<and> sk_run_filter skb' prog mem0 = Some (Ret v)"
proof -
  obtain v where "filter_steps (length prog) skb prog (start_state mem0) = Some (Ret v)"
    using plain_run [OF assms(4) sk_chk_filter_checked [OF assms(1)] assms(2,3)] by blast
  then show ?thesis
    using filter_steps_bytes [OF assms(4-6,2)] filter_steps_loop unfolding sk_run_filter_def by metis
qed

text \<open>The ten bytes of the example packet, in one piece.\<close>

theorem plain_filter_safe_witness:
  "\<exists>v. sk_run_filter example_skb example_filter (replicate 16 7) = Some (Ret v) \<and>
     sk_run_filter (Skb [1, 2, 3, 4, 5, 6, 7, 8, 9, 10] 0 10 10 0 0 0 0 0 None [] [])
       example_filter (replicate 16 7) = Some (Ret v)"
proof -
  have "plain example_filter" by (simp add: plain_def example_filter_def decode_simps sint_u32)
  moreover have "skb_wf example_skb"
    "skb_wf (Skb [1, 2, 3, 4, 5, 6, 7, 8, 9, 10] 0 10 10 0 0 0 0 0 None [] [])"
    "skb_bytes example_skb = skb_bytes (Skb [1, 2, 3, 4, 5, 6, 7, 8, 9, 10] 0 10 10 0 0 0 0 0 None [] [])"
    by (simp_all add: example_skb_def)
  ultimately show ?thesis
    using plain_filter_safe [OF example_filter_checked, of "replicate 16 7"] by simp
qed

section \<open>What the checker lets through\<close>

abbreviation insn :: "u16 \<Rightarrow> u32 \<Rightarrow> sock_filter" where
  "insn c v \<equiv> \<lparr>sf_code = c, sf_jt = 0, sf_jf = 0, sf_k = v\<rparr>"

abbreviation linear_skb :: "u8 list \<Rightarrow> sk_buff" where
  "linear_skb bs \<equiv> Skb bs 0 (length bs) (of_nat (length bs)) 0 0 0 0 0 None [] []"

lemma run_by_steps: "filter_steps n skb prog (start_state mem0) = Some v \<Longrightarrow> sk_run_filter skb prog mem0 = Some v"
  by (simp add: sk_run_filter_def filter_steps_loop)

lemmas run_simps = start_state_def filter_step_def decode_simps next_insn_def mem_get_def Let_def

text \<open>
  C26: The scratch memory is not initialised and the checker does not ask for a store before
  a load: the accepted program that loads the first scratch word and returns it returns
  whatever the kernel stack held there.
\<close>

theorem checked_filter_reads_stack:
  "sk_chk_filter [insn 0x60 0, insn 0x16 0] = None \<and>
   sk_run_filter skb [insn 0x60 0, insn 0x16 0] (w # replicate 15 0) = Some (Ret w)"
proof
  show "sk_chk_filter [insn 0x60 0, insn 0x16 0] = None"
    by (simp add: sk_chk_filter_def decode_simps BPF_CLASS_def)
  show "sk_run_filter skb [insn 0x60 0, insn 0x16 0] (w # replicate 15 0) = Some (Ret w)"
    by (rule run_by_steps [of "Suc (Suc 0)"]) (simp add: run_simps)
qed

lemma nla_find_first_bad:
  assumes "4 \<le> len" "nlattr_nla_len buf p = Inl c"
  shows "nla_find buf p len a = Inl c"
  using assms by (simp add: nla_find_def nla_for_each_attr.simps [of _ buf p] nla_ok_def)

text \<open>
  C23: The netlink attribute loads leave the packet.  On a packet shorter than an attribute
  header the bound \<^verbatim>\<open>skb->len - sizeof(struct nlattr)\<close> wraps around, so that an \<open>A\<close> close
  to \<open>2 ^ 32\<close> passes and the search starts before the packet; and the length check of the
  nested load subtracts in the wrong order, so an attribute that claims to be longer than the
  packet passes and the search for nested attributes runs over its end.
\<close>

theorem nlattr_loads_overrun:
  "sk_chk_filter [insn 0x00 0xfffffff0, insn 0x20 0xfffff00c, insn 0x16 0] = None \<and>
   sk_run_filter (linear_skb [1, 2]) [insn 0x00 0xfffffff0, insn 0x20 0xfffff00c, insn 0x16 0] mem0 =
     Some (Crash Out_of_bounds) \<and>
   sk_chk_filter [insn 0x01 5, insn 0x20 0xfffff010, insn 0x16 0] = None \<and>
   sk_run_filter (linear_skb [0xff, 0xff, 1, 0, 16, 0, 1, 0]) [insn 0x01 5, insn 0x20 0xfffff010, insn 0x16 0] mem0 =
     Some (Crash Out_of_bounds)"
proof (intro conjI)
  let ?st = "\<lparr>pc = 1, reg_A = 0xfffffff0, reg_X = 0, scratch = mem0\<rparr>"
  have "nla_find [1, 2] (- 16) 18 0 = Inl Out_of_bounds"
    by (rule nla_find_first_bad) (simp_all add: nlattr_nla_len_def read_u16_def mem_read_def)
  then have "ad_nlattr (linear_skb [1, 2]) ?st = Stop (Crash Out_of_bounds)"
    by (simp add: ad_nlattr_def skb_is_nonlinear_def data_at_def sint_u32 attr_result_def)
  then show "sk_run_filter (linear_skb [1, 2]) [insn 0x00 0xfffffff0, insn 0x20 0xfffff00c, insn 0x16 0] mem0 =
      Some (Crash Out_of_bounds)"
    by (intro run_by_steps [of "Suc (Suc 0)"])
      (simp add: run_simps load_step_def load_pointer_def sint_u32 ancillary_def)
next
  let ?buf = "[0xff, 0xff, 1, 0, 16, 0, 1, 0] :: u8 list"
  let ?st = "\<lparr>pc = 1, reg_A = 0, reg_X = 5, scratch = mem0\<rparr>"
  have len: "nlattr_nla_len ?buf 0 = Inr 0xffff" "nlattr_nla_len ?buf 4 = Inr 16"
    "nlattr_nla_len ?buf 20 = Inl Out_of_bounds"
    by (simp_all add: nlattr_nla_len_def read_u16_def mem_read_def)
  have "nla_find ?buf 20 65515 5 = Inl Out_of_bounds" by (rule nla_find_first_bad) (simp_all add: len)
  moreover have "nla_type ?buf 4 = Inr 1"
    by (simp add: nla_type_def nlattr_nla_type_def read_u16_def mem_read_def NLA_TYPE_MASK_def)
  ultimately have "nla_find ?buf 4 65531 5 = Inl Out_of_bounds"
    by (simp add: nla_find_def nla_for_each_attr.simps [of _ ?buf 4] nla_ok_def nla_next_def len NLA_ALIGN_eq)
  then have "ad_nlattr_nest (linear_skb ?buf) ?st = Stop (Crash Out_of_bounds)"
    by (simp add: ad_nlattr_nest_def skb_is_nonlinear_def data_at_def sint_u32 attr_result_def len
        nla_find_nested_def nla_len_def nla_data_def)
  then show "sk_run_filter (linear_skb ?buf) [insn 0x01 5, insn 0x20 0xfffff010, insn 0x16 0] mem0 =
      Some (Crash Out_of_bounds)"
    by (intro run_by_steps [of "Suc (Suc 0)"])
      (simp add: run_simps load_step_def load_pointer_def sint_u32 ancillary_def)
qed (simp_all add: sk_chk_filter_def decode_simps BPF_CLASS_def)

text \<open>
  C25: Hazards that the checker accepts: a load relative to the link-layer header that starts
  inside the packet but ends behind the buffer, a load of the interface index of a packet
  without a device, and a shift by 32.
\<close>

theorem checker_accepts_hazards:
  "sk_chk_filter [insn 0x20 0xffe00001, insn 0x16 0] = None \<and>
   sk_run_filter (linear_skb [1, 2]) [insn 0x20 0xffe00001, insn 0x16 0] mem0 = Some (Crash Out_of_bounds) \<and>
   sk_chk_filter [insn 0x20 0xfffff008, insn 0x16 0] = None \<and>
   sk_run_filter (linear_skb [1, 2]) [insn 0x20 0xfffff008, insn 0x16 0] mem0 = Some (Crash Null_deref) \<and>
   sk_chk_filter [insn 0x64 32, insn 0x16 0] = None \<and>
   sk_run_filter skb [insn 0x64 32, insn 0x16 0] mem0 = Some (Crash Undefined_shift)"
proof (intro conjI)
  show "sk_run_filter skb [insn 0x64 32, insn 0x16 0] mem0 = Some (Crash Undefined_shift)"
    by (rule run_by_steps [of "Suc 0"]) (simp add: run_simps alu_step_def)
  show "sk_run_filter (linear_skb [1, 2]) [insn 0x20 0xfffff008, insn 0x16 0] mem0 = Some (Crash Null_deref)"
    by (rule run_by_steps [of "Suc 0"]) (simp add: run_simps load_step_def load_pointer_def sint_u32 ancillary_def)
  show "sk_run_filter (linear_skb [1, 2]) [insn 0x20 0xffe00001, insn 0x16 0] mem0 = Some (Crash Out_of_bounds)"
    by (rule run_by_steps [of "Suc 0"])
      (simp add: run_simps load_step_def load_pointer_def uu_load_pointer_def buf_read_def mem_read_def sint_u32)
qed (simp_all add: sk_chk_filter_def decode_simps BPF_CLASS_def)

end
