(* ===== verification/Sk_Filter.thy ===== *)
theory Sk_Filter
  imports Bpf_Safe
begin

text \<open>
  Attaching filters to sockets (\<^verbatim>\<open>net/core/filter.c\<close>, \<^verbatim>\<open>net/core/sock.c\<close>,
  \<^verbatim>\<open>include/net/sock.h\<close>): allocation against the socket's option memory, reference
  counts, and release after a grace period.  The theory shows that over any
  sequence of operations a filter is freed exactly when nothing refers to it and never
  used after that, that the memory charged to a socket is the size of its filter and what
  the other options of the socket charged, and that only checked programs are ever
  attached.  One operation can fail: two sockets that share a filter must not give it up
  within the same grace period.
\<close>

section \<open>Sockets and filters\<close>

text \<open>
  Filters live at addresses.  \<open>rcu\<close> holds the filters whose release waits for a
  grace period (\<^verbatim>\<open>call_rcu_bh\<close>).  The ledger \<open>other_mem\<close> is not part of the code: it is what all
  users of the option memory of a socket but the filter - multicast memberships, IPv6
  options, control messages - took from it with \<^verbatim>\<open>sock_kmalloc\<close>, less what they gave back with
  \<^verbatim>\<open>sock_kfree_s\<close>.  An operation on a socket that does not exist or on a freed filter is the
  crash \<open>Dangling\<close>.
\<close>

record sk_filter =
  fp_refcnt :: int
  fp_len :: u32
  fp_insns :: "sock_filter list"

record sock =
  sk_filter_ptr :: "nat option"
  sk_omem_alloc :: int

record net =
  socks :: "nat \<rightharpoonup> sock"
  filters :: "nat \<rightharpoonup> sk_filter"
  rcu :: "nat list"
  other_mem :: "nat \<Rightarrow> int"

text \<open>The program a user passes: a null pointer, an unreadable one, or instructions.\<close>

datatype user_prog = Null_prog | Bad_prog | Prog "sock_filter list"

abbreviation "sizeof_sock_filter \<equiv> (8 :: u32)"
abbreviation "sizeof_sk_filter \<equiv> (16 :: u32)"

definition sk_filter_len :: "sk_filter \<Rightarrow> u32" where
  "sk_filter_len fp = fp_len fp * sizeof_sock_filter + sizeof_sk_filter"

section \<open>Memory accounting\<close>

text \<open>
  \<^verbatim>\<open>sock_kmalloc\<close> with the limit \<^verbatim>\<open>sysctl_optmem_max\<close>; \<open>mem\<close> is what \<^verbatim>\<open>kmalloc\<close> returns.
\<close>

definition sock_kmalloc :: "int \<Rightarrow> sock \<Rightarrow> u32 \<Rightarrow> nat option \<Rightarrow> nat option \<times> sock" where
  "sock_kmalloc optmem_max sk sz mem =
     (if uint sz \<le> optmem_max \<and> sk_omem_alloc sk + sint sz < optmem_max
      then let sk = sk\<lparr>sk_omem_alloc := sk_omem_alloc sk + sint sz\<rparr> in
        case mem of
          Some a \<Rightarrow> (Some a, sk)
        | None \<Rightarrow> (None, sk\<lparr>sk_omem_alloc := sk_omem_alloc sk - sint sz\<rparr>)
      else (None, sk))"

definition sock_kfree_s :: "sock \<Rightarrow> u32 \<Rightarrow> sock" where
  "sock_kfree_s sk sz = sk\<lparr>sk_omem_alloc := sk_omem_alloc sk - sint sz\<rparr>"

text \<open>\<^verbatim>\<open>sk_filter_release\<close>: drop a reference, free the filter with the last one.\<close>

definition sk_filter_release :: "nat \<Rightarrow> (nat \<rightharpoonup> sk_filter) \<Rightarrow> crash + (nat \<rightharpoonup> sk_filter)" where
  "sk_filter_release a fs =
     (case fs a of
        None \<Rightarrow> Inl Dangling
      | Some fp \<Rightarrow>
          Inr (if fp_refcnt fp - 1 = 0 then fs(a := None)
               else fs(a \<mapsto> fp\<lparr>fp_refcnt := fp_refcnt fp - 1\<rparr>)))"

definition uncharge :: "sock \<Rightarrow> sk_filter \<Rightarrow> sock" where
  "uncharge sk fp = sk\<lparr>sk_omem_alloc := sk_omem_alloc sk - uint (sk_filter_len fp)\<rparr>"

definition sk_filter_charge ::
  "sock \<Rightarrow> nat \<Rightarrow> (nat \<rightharpoonup> sk_filter) \<Rightarrow> crash + sock \<times> (nat \<rightharpoonup> sk_filter)" where
  "sk_filter_charge sk a fs =
     (case fs a of
        None \<Rightarrow> Inl Dangling
      | Some fp \<Rightarrow>
          Inr (sk\<lparr>sk_omem_alloc := sk_omem_alloc sk + uint (sk_filter_len fp)\<rparr>,
               fs(a \<mapsto> fp\<lparr>fp_refcnt := fp_refcnt fp + 1\<rparr>)))"

section \<open>Operations\<close>

text \<open>
  \<^verbatim>\<open>call_rcu_bh\<close> on the head embedded in a filter.  \<^verbatim>\<open>__call_rcu\<close> clears the link of the head
  and appends it to the list; if the head is in the list already, this cuts off what was
  queued behind it and closes a loop at the end.
\<close>

definition call_rcu_bh :: "nat \<Rightarrow> nat list \<Rightarrow> crash + nat list" where
  "call_rcu_bh a q = (if a \<in> set q then Inl Corrupt_list else Inr (q @ [a]))"

definition sk_filter_delayed_uncharge :: "net \<Rightarrow> nat \<Rightarrow> nat \<Rightarrow> crash + net" where
  "sk_filter_delayed_uncharge n s a =
     (case (socks n s, filters n a) of
        (Some sk, Some fp) \<Rightarrow>
          bindE (call_rcu_bh a (rcu n)) (\<lambda>q. Inr (n\<lparr>socks := (socks n)(s \<mapsto> uncharge sk fp), rcu := q\<rparr>))
      | _ \<Rightarrow> Inl Dangling)"

definition sk_filter_rcu_release :: "net \<Rightarrow> crash + net" where
  "sk_filter_rcu_release n =
     (case rcu n of
        [] \<Rightarrow> Inr n
      | a # as \<Rightarrow> bindE (sk_filter_release a (filters n)) (\<lambda>fs. Inr (n\<lparr>rcu := as, filters := fs\<rparr>)))"

text \<open>
  \<^verbatim>\<open>sk_attach_filter\<close> on socket \<open>s\<close>.  The length of a program is an \<^verbatim>\<open>unsigned short\<close>.
  The result is the error, if any.
\<close>

definition sk_attach_filter ::
  "int \<Rightarrow> nat option \<Rightarrow> u16 \<Rightarrow> user_prog \<Rightarrow> nat \<Rightarrow> net \<Rightarrow> crash + errno option \<times> net" where
  "sk_attach_filter optmem_max mem len fprog s n =
     (case socks n s of
        None \<Rightarrow> Inl Dangling
      | Some sk \<Rightarrow>
        (let fsize = sizeof_sock_filter * ucast len in
         if fprog = Null_prog then Inr (Some EINVAL, n)
         else case sock_kmalloc optmem_max sk (fsize + sizeof_sk_filter) mem of
           (None, sk) \<Rightarrow> Inr (Some ENOMEM, n\<lparr>socks := (socks n)(s \<mapsto> sk)\<rparr>)
         | (Some a, sk) \<Rightarrow>
           (case fprog of
              Prog insns \<Rightarrow>
                (let fp = \<lparr>fp_refcnt = 1, fp_len = ucast len, fp_insns = insns\<rparr> in
                 case sk_chk_filter insns of
                   Some e \<Rightarrow>
                     bindE (sk_filter_release a ((filters n)(a \<mapsto> fp))) (\<lambda>fs.
                       Inr (Some e, n\<lparr>socks := (socks n)(s \<mapsto> uncharge sk fp), filters := fs\<rparr>))
                 | None \<Rightarrow>
                     (let old_fp = sk_filter_ptr sk;
                          n = n\<lparr>socks := (socks n)(s \<mapsto> sk\<lparr>sk_filter_ptr := Some a\<rparr>),
                                filters := (filters n)(a \<mapsto> fp)\<rparr>
                      in bindE (case old_fp of
                                  None \<Rightarrow> Inr n
                                | Some old \<Rightarrow> sk_filter_delayed_uncharge n s old)
                           (\<lambda>n. Inr (None, n))))
            | _ \<Rightarrow>
                Inr (Some EFAULT,
                     n\<lparr>socks := (socks n)(s \<mapsto> sock_kfree_s sk (fsize + sizeof_sk_filter))\<rparr>))))"

definition sk_detach_filter :: "nat \<Rightarrow> net \<Rightarrow> crash + errno option \<times> net" where
  "sk_detach_filter s n =
     (case socks n s of
        None \<Rightarrow> Inl Dangling
      | Some sk \<Rightarrow>
          (case sk_filter_ptr sk of
             None \<Rightarrow> Inr (Some ENOENT, n)
           | Some a \<Rightarrow>
               bindE (sk_filter_delayed_uncharge
                        (n\<lparr>socks := (socks n)(s \<mapsto> sk\<lparr>sk_filter_ptr := None\<rparr>)\<rparr>) s a)
                 (\<lambda>n. Inr (None, n))))"

text \<open>
  The parts of \<^verbatim>\<open>sk_clone\<close> and \<^verbatim>\<open>__sk_free\<close> that concern the filter: the clone starts as a
  copy with no option memory and takes a reference; freeing drops it at once.
\<close>

definition sk_clone :: "nat \<Rightarrow> nat \<Rightarrow> net \<Rightarrow> crash + net" where
  "sk_clone s newsk n =
     (case socks n s of
        None \<Rightarrow> Inl Dangling
      | Some sk \<Rightarrow>
          (let new = sk\<lparr>sk_omem_alloc := 0\<rparr> in
           case sk_filter_ptr new of
             None \<Rightarrow> Inr (n\<lparr>socks := (socks n)(newsk \<mapsto> new)\<rparr>)
           | Some a \<Rightarrow>
               bindE (sk_filter_charge new a (filters n)) (\<lambda>(new, fs).
                 Inr (n\<lparr>socks := (socks n)(newsk \<mapsto> new), filters := fs\<rparr>))))"

definition uu_sk_free :: "nat \<Rightarrow> net \<Rightarrow> crash + net" where
  "uu_sk_free s n =
     (case socks n s of
        None \<Rightarrow> Inl Dangling
      | Some sk \<Rightarrow>
          (case sk_filter_ptr sk of
             None \<Rightarrow> Inr (n\<lparr>socks := (socks n)(s := None)\<rparr>)
           | Some a \<Rightarrow>
               bindE (sk_filter_release a (filters n)) (\<lambda>fs.
                 Inr (n\<lparr>socks := (socks n)(s := None), filters := fs\<rparr>))))"

text \<open>
  What can happen to sockets, their filters and their option memory.  \<^verbatim>\<open>kmalloc\<close> returns an
  address that is not in use; a program read from the user has the length the user gave.
  Other users of the option memory take and give back blocks of any size, at any time.
\<close>

inductive net_step :: "int \<Rightarrow> net \<Rightarrow> net \<Rightarrow> bool" for optmem_max where
  create: "socks n s = None \<Longrightarrow>
    net_step optmem_max n (n\<lparr>socks := (socks n)(s \<mapsto> \<lparr>sk_filter_ptr = None, sk_omem_alloc = 0\<rparr>),
                             other_mem := (other_mem n)(s := 0)\<rparr>)"
| attach: "\<lbrakk>\<forall>a. mem = Some a \<longrightarrow> filters n a = None; \<forall>insns. fprog = Prog insns \<longrightarrow> length insns = unat len;
     sk_attach_filter optmem_max mem len fprog s n = Inr (r, n')\<rbrakk> \<Longrightarrow> net_step optmem_max n n'"
| detach: "sk_detach_filter s n = Inr (r, n') \<Longrightarrow> net_step optmem_max n n'"
| clone: "socks n newsk = None \<Longrightarrow> sk_clone s newsk n = Inr n' \<Longrightarrow>
    net_step optmem_max n (n'\<lparr>other_mem := (other_mem n)(newsk := 0)\<rparr>)"
| free: "uu_sk_free s n = Inr n' \<Longrightarrow> net_step optmem_max n n'"
| grace_period: "sk_filter_rcu_release n = Inr n' \<Longrightarrow> net_step optmem_max n n'"
| option_alloc: "socks n s = Some sk \<Longrightarrow> sock_kmalloc optmem_max sk sz mem = (r, sk') \<Longrightarrow>
    net_step optmem_max n (n\<lparr>socks := (socks n)(s \<mapsto> sk'),
      other_mem := (other_mem n)(s := other_mem n s + (if r = None then 0 else sint sz))\<rparr>)"
| option_free: "socks n s = Some sk \<Longrightarrow>
    net_step optmem_max n (n\<lparr>socks := (socks n)(s \<mapsto> sock_kfree_s sk sz),
      other_mem := (other_mem n)(s := other_mem n s - sint sz)\<rparr>)"

definition net_init :: "net \<Rightarrow> bool" where
  "net_init n \<longleftrightarrow> socks n = Map.empty \<and> filters n = Map.empty \<and> rcu n = []"

section \<open>References are counted exactly\<close>

definition own :: "sock option \<Rightarrow> nat \<Rightarrow> int" where
  "own so a = (case so of Some sk \<Rightarrow> if sk_filter_ptr sk = Some a then 1 else 0 | None \<Rightarrow> 0)"

definition owners :: "(nat \<rightharpoonup> sock) \<Rightarrow> nat \<Rightarrow> nat set" where
  "owners m a = {s. own (m s) a = 1}"

definition refs :: "net \<Rightarrow> nat \<Rightarrow> int" where
  "refs n a = int (card (owners (socks n) a)) + int (count_list (rcu n) a)"

definition filter_ok :: "sk_filter \<Rightarrow> bool" where
  "filter_ok fp \<longleftrightarrow> sk_chk_filter (fp_insns fp) = None \<and> length (fp_insns fp) = unat (fp_len fp) \<and>
     unat (fp_len fp) < 2 ^ 16"

definition charged :: "(nat \<rightharpoonup> sk_filter) \<Rightarrow> sock \<Rightarrow> int" where
  "charged fs sk =
     (case sk_filter_ptr sk of
        None \<Rightarrow> 0
      | Some a \<Rightarrow> (case fs a of Some fp \<Rightarrow> uint (sk_filter_len fp) | None \<Rightarrow> 0))"

definition net_inv :: "net \<Rightarrow> bool" where
  "net_inv n \<longleftrightarrow> finite (dom (socks n)) \<and>
     (\<forall>a. (filters n a = None \<longleftrightarrow> refs n a = 0) \<and>
          (\<forall>fp. filters n a = Some fp \<longrightarrow> fp_refcnt fp = refs n a \<and> filter_ok fp)) \<and>
     (\<forall>s sk. socks n s = Some sk \<longrightarrow> sk_omem_alloc sk = charged (filters n) sk + other_mem n s)"

text \<open>
  What an operation on a network that satisfies the invariant may do: return one that
  satisfies it, or queue a filter for release twice.
\<close>

definition op_inv :: "(net \<Rightarrow> bool) \<Rightarrow> crash + net \<Rightarrow> bool" where
  "op_inv P r = (case r of Inl c \<Rightarrow> c = Corrupt_list | Inr n \<Rightarrow> P n)"

lemma op_inv_simps [simp]: "op_inv P (Inl c) = (c = Corrupt_list)" "op_inv P (Inr n) = P n"
  by (simp_all add: op_inv_def)

lemma finite_owners: "finite (dom m) \<Longrightarrow> finite (owners m a)"
  by (rule finite_subset [of _ "dom m"]) (auto simp: owners_def own_def split: option.splits)

lemma own_01: "own so a = 0 \<or> own so a = 1"
  by (simp add: own_def split: option.split)

lemma card_owners_upd:
  assumes "finite (dom m)"
  shows "int (card (owners (m(s := v)) a)) = int (card (owners m a)) - own (m s) a + own v a"
proof -
  let ?o = "owners m a"
  have fin: "finite ?o" by (rule finite_owners [OF assms])
  have o: "owners (m(s := v)) a = (if own v a = 1 then insert s (?o - {s}) else ?o - {s})"
    by (auto simp: owners_def)
  have s: "s \<in> ?o \<longleftrightarrow> own (m s) a = 1" by (simp add: owners_def)
  have r: "int (card (?o - {s})) = int (card ?o) - own (m s) a"
  proof (cases "s \<in> ?o")
    case True
    then have "0 < card ?o" using fin by (auto simp: card_gt_0_iff)
    then show ?thesis using True s fin by (simp add: card_Diff_singleton of_nat_diff)
  next
    case False
    then show ?thesis using s own_01 [of "m s" a] by simp
  qed
  show ?thesis unfolding o using r fin own_01 [of v a] by (auto simp del: insert_Diff_single)
qed

lemma refs_nonneg: "0 \<le> refs n a"
  by (simp add: refs_def)

lemma refs_upd:
  assumes "finite (dom (socks n))"
  shows "refs (n\<lparr>socks := (socks n)(s := v)\<rparr>) a = refs n a - own (socks n s) a + own v a"
  using card_owners_upd [OF assms, of s v a] by (simp add: refs_def)

lemma refs_simps [simp]:
  "refs (n\<lparr>filters := fs\<rparr>) a = refs n a"
  "refs (n\<lparr>other_mem := om\<rparr>) a = refs n a"
  "refs (n\<lparr>socks := m, other_mem := om\<rparr>) a = refs (n\<lparr>socks := m\<rparr>) a"
  "refs (n\<lparr>socks := m, rcu := rs @ [b]\<rparr>) a = refs (n\<lparr>socks := m, rcu := rs\<rparr>) a + (if a = b then 1 else 0)"
  "refs (n\<lparr>socks := m, rcu := rcu n\<rparr>) a = refs (n\<lparr>socks := m\<rparr>) a"
  "refs (n\<lparr>socks := m, filters := fs\<rparr>) a = refs (n\<lparr>socks := m\<rparr>) a"
  by (simp_all add: refs_def)

lemma refs_zero_no_owner:
  assumes "refs n a = 0" "finite (dom (socks n))" "socks n s = Some sk"
  shows "sk_filter_ptr sk \<noteq> Some a"
proof
  assume "sk_filter_ptr sk = Some a"
  then have "s \<in> owners (socks n) a" using assms(3) by (simp add: owners_def own_def)
  moreover have "card (owners (socks n) a) = 0" using assms(1) by (simp add: refs_def)
  ultimately show False using finite_owners [OF assms(2), of a] by simp
qed

lemma charged_release:
  assumes "sk_filter_release a fs = Inr fs'" "\<And>fp. fs a = Some fp \<Longrightarrow> fp_refcnt fp = 1 \<Longrightarrow> sk_filter_ptr sk \<noteq> Some a"
  shows "charged fs' sk = charged fs sk"
  using assms by (auto simp: charged_def sk_filter_release_def sk_filter_len_def split: option.splits if_splits)

text \<open>Giving up one reference, whoever held it, keeps the counts exact.\<close>

lemma release_inv:
  assumes inv: "net_inv n" and fin: "finite (dom (socks n'))" and fs: "filters n' = filters n"
    and refs: "\<And>b. refs n' b = refs n b - (if b = a then 1 else 0)" and held: "refs n a \<noteq> 0"
    and socks: "\<And>s sk. socks n' s = Some sk \<Longrightarrow> sk_omem_alloc sk = charged (filters n) sk + other_mem n' s"
  shows "\<exists>fs. sk_filter_release a (filters n) = Inr fs \<and> net_inv (n'\<lparr>filters := fs\<rparr>)"
proof -
  obtain fp where fp: "filters n a = Some fp" "fp_refcnt fp = refs n a" "filter_ok fp"
    using inv held by (fastforce simp: net_inv_def)
  define fs where "fs = (if refs n a - 1 = 0 then (filters n)(a := None)
      else (filters n)(a \<mapsto> fp\<lparr>fp_refcnt := refs n a - 1\<rparr>))"
  have rel: "sk_filter_release a (filters n) = Inr fs"
    using fp by (simp add: sk_filter_release_def fs_def)
  have "sk_omem_alloc sk = charged fs sk + other_mem n' s" if "socks n' s = Some sk" for s sk
  proof -
    have "sk_filter_ptr sk \<noteq> Some a" if "fp_refcnt fp = 1"
      using refs_zero_no_owner [OF _ fin \<open>socks n' s = Some sk\<close>] refs [of a] fp(2) that by simp
    then show ?thesis using socks [OF that] charged_release [OF rel, of sk] fp(1) by auto
  qed
  moreover have "filters n b = None \<longleftrightarrow> refs n b = 0" "filters n b = Some g \<Longrightarrow> fp_refcnt g = refs n b \<and> filter_ok g" for b g
    using inv by (simp_all add: net_inv_def)
  ultimately have "net_inv (n'\<lparr>filters := fs\<rparr>)"
    using fp fin refs by (auto simp: net_inv_def fs_def filter_ok_def)
  with rel show ?thesis by blast
qed

lemma net_invD:
  assumes "net_inv n"
  shows "finite (dom (socks n))" "filters n a = None \<longleftrightarrow> refs n a = 0"
    "filters n a = Some fp \<Longrightarrow> fp_refcnt fp = refs n a \<and> filter_ok fp"
    "socks n s = Some sk \<Longrightarrow> sk_omem_alloc sk = charged (filters n) sk + other_mem n s"
  using assms by (auto simp: net_inv_def)

lemma owner_refs:
  assumes "net_inv n" "socks n s = Some sk" "sk_filter_ptr sk = Some a"
  shows "refs n a \<noteq> 0" "\<exists>fp. filters n a = Some fp \<and> filter_ok fp \<and> fp_refcnt fp = refs n a"
proof -
  show r: "refs n a \<noteq> 0"
    using refs_zero_no_owner [OF _ net_invD(1) [OF assms(1)] assms(2)] assms(3) by blast
  then show "\<exists>fp. filters n a = Some fp \<and> filter_ok fp \<and> fp_refcnt fp = refs n a"
    using net_invD(2,3) [OF assms(1), of a] by (cases "filters n a") auto
qed

text \<open>A change of one socket that keeps its filter and enters its charge in the ledger.\<close>

lemma charge_inv:
  assumes "net_inv n" "socks n s = Some sk" "sk_filter_ptr sk' = sk_filter_ptr sk"
    "sk_omem_alloc sk' = sk_omem_alloc sk + d"
  shows "net_inv (n\<lparr>socks := (socks n)(s \<mapsto> sk'), other_mem := (other_mem n)(s := other_mem n s + d)\<rparr>)"
proof -
  have "refs (n\<lparr>socks := (socks n)(s \<mapsto> sk')\<rparr>) b = refs n b" for b
    using refs_upd [OF net_invD(1) [OF assms(1)], of s "Some sk'" b] assms(2,3) by (simp add: own_def)
  then show ?thesis using assms net_invD(4) [OF assms(1,2)] by (auto simp: net_inv_def charged_def)
qed

lemma sk_filter_rcu_release_inv:
  assumes "net_inv n" shows "\<exists>n'. sk_filter_rcu_release n = Inr n' \<and> net_inv n'"
proof (cases "rcu n")
  case Nil
  then show ?thesis using assms by (simp add: sk_filter_rcu_release_def)
next
  case (Cons a as)
  have "\<exists>fs. sk_filter_release a (filters n) = Inr fs \<and> net_inv ((n\<lparr>rcu := as\<rparr>)\<lparr>filters := fs\<rparr>)"
  proof (rule release_inv [OF assms])
    show "refs (n\<lparr>rcu := as\<rparr>) b = refs n b - (if b = a then 1 else 0)" for b
      using Cons by (simp add: refs_def)
    show "refs n a \<noteq> 0" using Cons by (simp add: refs_def)
  qed (insert net_invD [OF assms], auto)
  then show ?thesis using Cons by (auto simp: sk_filter_rcu_release_def)
qed

lemma uu_sk_free_inv:
  assumes "net_inv n" "socks n s = Some sk" shows "\<exists>n'. uu_sk_free s n = Inr n' \<and> net_inv n'"
proof -
  note fin = net_invD(1) [OF assms(1)]
  show ?thesis
  proof (cases "sk_filter_ptr sk")
    case None
    then have "refs (n\<lparr>socks := (socks n)(s := None)\<rparr>) b = refs n b" for b
      using refs_upd [OF fin, of s None b] assms(2) by (simp add: own_def)
    then show ?thesis using assms None
      by (auto simp: uu_sk_free_def net_inv_def split: if_splits)
  next
    case ptr: (Some a)
    have "\<exists>fs. sk_filter_release a (filters n) = Inr fs \<and>
        net_inv ((n\<lparr>socks := (socks n)(s := None)\<rparr>)\<lparr>filters := fs\<rparr>)"
    proof (rule release_inv [OF assms(1)])
      show "refs (n\<lparr>socks := (socks n)(s := None)\<rparr>) b = refs n b - (if b = a then 1 else 0)" for b
        using refs_upd [OF fin, of s None b] assms(2) ptr by (simp add: own_def)
      show "refs n a \<noteq> 0" by (rule owner_refs(1) [OF assms ptr])
    qed (insert net_invD [OF assms(1)], auto split: if_splits)
    then show ?thesis using assms(2) ptr by (auto simp: uu_sk_free_def)
  qed
qed

lemma sk_detach_filter_inv:
  assumes "net_inv n" "socks n s = Some sk"
  shows "op_inv net_inv (map_sum id snd (sk_detach_filter s n))"
proof (cases "sk_filter_ptr sk")
  case (Some a)
  obtain fp where fp: "filters n a = Some fp" using owner_refs(2) [OF assms Some] by blast
  let ?sk = "uncharge (sk\<lparr>sk_filter_ptr := None\<rparr>) fp"
  let ?n = "n\<lparr>socks := (socks n)(s \<mapsto> ?sk), rcu := rcu n @ [a]\<rparr>"
  have e: "sk_detach_filter s n = (if a \<in> set (rcu n) then Inl Corrupt_list else Inr (None, ?n))"
    using assms(2) Some fp by (simp add: sk_detach_filter_def sk_filter_delayed_uncharge_def call_rcu_bh_def)
  have "refs ?n b = refs n b" for b
    using refs_upd [OF net_invD(1) [OF assms(1)], of s "Some ?sk" b] assms(2) Some
    by (simp add: own_def uncharge_def)
  moreover have "sk_omem_alloc ?sk = charged (filters n) ?sk + other_mem n s"
    using net_invD(4) [OF assms] Some fp by (simp add: uncharge_def charged_def)
  ultimately have "net_inv ?n" using assms(1) by (auto simp: net_inv_def)
  then show ?thesis unfolding e by simp
qed (use assms in \<open>simp add: sk_detach_filter_def\<close>)

lemma sk_clone_inv:
  assumes "net_inv n" "socks n newsk = None" "socks n s = Some sk"
  shows "\<exists>n'. sk_clone s newsk n = Inr n' \<and> net_inv (n'\<lparr>other_mem := (other_mem n)(newsk := 0)\<rparr>)"
proof -
  note fin = net_invD(1) [OF assms(1)]
  show ?thesis
  proof (cases "sk_filter_ptr sk")
    case None
    let ?new = "sk\<lparr>sk_omem_alloc := 0\<rparr>"
    have "refs (n\<lparr>socks := (socks n)(newsk \<mapsto> ?new)\<rparr>) b = refs n b" for b
      using refs_upd [OF fin, of newsk "Some ?new" b] None assms(2) by (simp add: own_def)
    moreover have "charged (filters n) ?new = 0" using None by (simp add: charged_def)
    ultimately show ?thesis using assms None by (auto simp: sk_clone_def net_inv_def)
  next
    case ptr: (Some a)
    obtain fp where fp: "filters n a = Some fp" "filter_ok fp" "fp_refcnt fp = refs n a"
      using owner_refs(2) [OF assms(1,3) ptr] by blast
    let ?new = "sk\<lparr>sk_omem_alloc := uint (sk_filter_len fp)\<rparr>"
    let ?fs = "(filters n)(a \<mapsto> fp\<lparr>fp_refcnt := fp_refcnt fp + 1\<rparr>)"
    have e: "sk_clone s newsk n = Inr (n\<lparr>socks := (socks n)(newsk \<mapsto> ?new), filters := ?fs\<rparr>)"
      using assms(3) ptr fp by (simp add: sk_clone_def sk_filter_charge_def)
    have r: "refs (n\<lparr>socks := (socks n)(newsk \<mapsto> ?new)\<rparr>) b = refs n b + (if b = a then 1 else 0)" for b
      using refs_upd [OF fin, of newsk "Some ?new" b] ptr assms(2) by (simp add: own_def)
    have ch: "charged ?fs k = charged (filters n) k" for k
      using fp(1) by (simp add: charged_def sk_filter_len_def split: option.split)
    have "charged (filters n) ?new = uint (sk_filter_len fp)" using ptr fp by (simp add: charged_def)
    moreover have "refs n a + 1 \<noteq> 0" using refs_nonneg [of n a] by linarith
    ultimately show ?thesis
      unfolding e using assms(1,2) fp ch r
      by (auto simp: net_inv_def filter_ok_def)
  qed
qed

lemma attach_size:
  "sint (sizeof_sock_filter * ucast len + sizeof_sk_filter) =
     uint (sk_filter_len \<lparr>fp_refcnt = r, fp_len = ucast len, fp_insns = is\<rparr>)" for len :: u16
proof -
  let ?w = "sizeof_sock_filter * ucast len + sizeof_sk_filter"
  have l: "unat len < 2 ^ 16" using unsigned_less [of len, where ?'a = nat] by simp
  then have u: "unat (ucast len :: u32) = unat len" by (simp add: unsigned_ucast_eq take_bit_nat_eq_self)
  have "unat ?w = 8 * unat len + 16" using l u by (simp add: unat_word_ariths)
  then have "sint ?w = int (unat ?w)" using l by (intro sint_small) simp
  then show ?thesis by (simp add: sk_filter_len_def mult.commute)
qed

lemma attach_success_inv:
  assumes inv: "net_inv n" and sk: "socks n s = Some sk" and a: "filters n a = None"
    and fp: "filter_ok fp" "fp_refcnt fp = 1"
    and sk': "sk_filter_ptr sk' = Some a" "sk_omem_alloc sk' = uint (sk_filter_len fp) + other_mem n s"
  shows "net_inv (n\<lparr>socks := (socks n)(s \<mapsto> sk'), filters := (filters n)(a \<mapsto> fp),
    rcu := rcu n @ (case sk_filter_ptr sk of None \<Rightarrow> [] | Some old \<Rightarrow> [old])\<rparr>)"
proof -
  note fin = net_invD(1) [OF inv]
  have r0: "refs n a = 0" using net_invD(2) [OF inv, of a] a by simp
  have "own (Some sk) a = 0" using refs_zero_no_owner [OF r0 fin sk] by (simp add: own_def)
  moreover have "refs (n\<lparr>socks := (socks n)(s \<mapsto> sk')\<rparr>) b = refs n b - own (Some sk) b + (if b = a then 1 else 0)" for b
    using refs_upd [OF fin, of s "Some sk'" b] sk sk'(1) by (simp add: own_def)
  ultimately have r: "refs (n\<lparr>socks := (socks n)(s \<mapsto> sk'), filters := fs,
      rcu := rcu n @ (case sk_filter_ptr sk of None \<Rightarrow> [] | Some old \<Rightarrow> [old])\<rparr>) b =
      refs n b + (if b = a then 1 else 0)" for b fs
    by (cases "sk_filter_ptr sk") (auto simp: refs_def own_def split: if_splits)
  have ch: "charged ((filters n)(a \<mapsto> fp)) k = charged (filters n) k" if "socks n t = Some k" for t k
    using refs_zero_no_owner [OF r0 fin that] by (auto simp: charged_def split: option.split)
  have "charged ((filters n)(a \<mapsto> fp)) sk' = uint (sk_filter_len fp)" using sk'(1) by (simp add: charged_def)
  then show ?thesis using inv r0 a fp ch r sk'(2) by (auto simp: net_inv_def)
qed

text \<open>Attaching either changes nothing or passes the checks.\<close>

lemma sk_attach_filter_cases:
  assumes sk: "socks n s = Some sk" and mem: "\<forall>a. mem = Some a \<longrightarrow> filters n a = None"
  obtains (same) e where "sk_attach_filter optmem_max mem len fprog s n = Inr (Some e, n)"
  | (success) insns a fp sk' where "fprog = Prog insns" "sk_chk_filter insns = None" "mem = Some a"
      "fp = \<lparr>fp_refcnt = 1, fp_len = ucast len, fp_insns = insns\<rparr>"
      "sk' = sk\<lparr>sk_omem_alloc := sk_omem_alloc sk + uint (sk_filter_len fp), sk_filter_ptr := Some a\<rparr>"
      "sk_attach_filter optmem_max mem len fprog s n =
         bindE (case sk_filter_ptr sk of
                  None \<Rightarrow> Inr (n\<lparr>socks := (socks n)(s \<mapsto> sk'), filters := (filters n)(a \<mapsto> fp)\<rparr>)
                | Some old \<Rightarrow> sk_filter_delayed_uncharge
                    (n\<lparr>socks := (socks n)(s \<mapsto> sk'), filters := (filters n)(a \<mapsto> fp)\<rparr>) s old)
           (\<lambda>n. Inr (None, n))"
proof -
  let ?sz = "sizeof_sock_filter * ucast len + sizeof_sk_filter"
  let ?fp = "\<lambda>insns. \<lparr>fp_refcnt = 1, fp_len = ucast len, fp_insns = insns\<rparr>"
  let ?sk = "sk\<lparr>sk_omem_alloc := sk_omem_alloc sk + sint ?sz\<rparr>"
  have id: "(socks n)(s \<mapsto> sk) = socks n" using sk by (simp add: fun_upd_idem)
  have km: "sock_kmalloc optmem_max sk ?sz mem = (None, sk) \<or>
      (\<exists>a. mem = Some a \<and> sock_kmalloc optmem_max sk ?sz mem = (Some a, ?sk))"
    by (simp add: sock_kmalloc_def Let_def split: option.split)
  have un: "uncharge ?sk (?fp is) = sk" for "is"
    by (simp add: uncharge_def flip: attach_size)
  show ?thesis
  proof (cases "sock_kmalloc optmem_max sk ?sz mem = (None, sk) \<or> (\<nexists>insns. fprog = Prog insns \<and> sk_chk_filter insns = None)")
    case True
    then have "\<exists>e. sk_attach_filter optmem_max mem len fprog s n = Inr (Some e, n)"
      using km sk mem
      by (cases fprog) (auto simp: sk_attach_filter_def Let_def id un sock_kfree_s_def sk_filter_release_def
          fun_upd_idem split: option.splits)
    then show ?thesis using same by blast
  next
    case False
    then obtain insns a where p: "fprog = Prog insns" "sk_chk_filter insns = None" "mem = Some a"
      "sock_kmalloc optmem_max sk ?sz mem = (Some a, ?sk)" using km by auto
    then show ?thesis
      using sk by (intro success [OF p(1-3) refl refl])
        (simp add: sk_attach_filter_def Let_def attach_size [of len 1 insns] split: option.split)
  qed
qed

lemma sk_attach_filter_inv:
  assumes inv: "net_inv n" and sk: "socks n s = Some sk" and mem: "\<forall>a. mem = Some a \<longrightarrow> filters n a = None"
    and prog: "\<forall>insns. fprog = Prog insns \<longrightarrow> length insns = unat len"
  shows "op_inv net_inv (map_sum id snd (sk_attach_filter optmem_max mem len fprog s n))"
  using sk mem
proof (cases rule: sk_attach_filter_cases [of n s sk mem optmem_max len fprog])
  case (same e)
  then show ?thesis using inv by simp
next
  case (success insns a fp sk')
  have a: "filters n a = None" using mem success(3) by simp
  have l: "unat (ucast len :: u32) = unat len" "unat len < 2 ^ 16"
    using unsigned_less [of len, where ?'a = nat] by (simp_all add: unsigned_ucast_eq take_bit_nat_eq_self)
  have ok: "filter_ok fp" "fp_refcnt fp = 1" using success(1,2,4) prog l by (simp_all add: filter_ok_def)
  have om: "sk_omem_alloc sk = charged (filters n) sk + other_mem n s" by (rule net_invD(4) [OF inv sk])
  note done_inv = attach_success_inv [OF inv sk a ok]
  show ?thesis
  proof (cases "sk_filter_ptr sk")
    case None
    then have "net_inv (n\<lparr>socks := (socks n)(s \<mapsto> sk'), filters := (filters n)(a \<mapsto> fp)\<rparr>)"
      using done_inv [of sk'] om success(5) by (simp add: charged_def)
    then show ?thesis using None success(6) by simp
  next
    case (Some old)
    obtain fo where fo: "filters n old = Some fo" using owner_refs(2) [OF inv sk Some] by blast
    then have "old \<noteq> a" using a by auto
    have e: "n\<lparr>filters := fs, socks := m, rcu := q\<rparr> = n\<lparr>socks := m, filters := fs, rcu := q\<rparr>" for fs m q
      by (cases n) simp
    have "net_inv (n\<lparr>filters := (filters n)(a \<mapsto> fp), socks := (socks n)(s \<mapsto> uncharge sk' fo), rcu := rcu n @ [old]\<rparr>)"
      using done_inv [of "uncharge sk' fo"] om success(5) Some fo
      unfolding e by (simp add: charged_def uncharge_def)
    then show ?thesis
      using \<open>old \<noteq> a\<close> success(6) Some fo
      by (simp add: sk_filter_delayed_uncharge_def call_rcu_bh_def)
  qed
qed

lemma create_inv:
  assumes "net_inv n" "socks n s = None"
  shows "net_inv (n\<lparr>socks := (socks n)(s \<mapsto> \<lparr>sk_filter_ptr = None, sk_omem_alloc = 0\<rparr>),
    other_mem := (other_mem n)(s := 0)\<rparr>)"
proof -
  have "refs (n\<lparr>socks := (socks n)(s \<mapsto> \<lparr>sk_filter_ptr = None, sk_omem_alloc = 0\<rparr>)\<rparr>) b = refs n b" for b
    using refs_upd [OF net_invD(1) [OF assms(1)], of s "Some \<lparr>sk_filter_ptr = None, sk_omem_alloc = 0\<rparr>" b]
      assms(2) by (simp add: own_def)
  then show ?thesis using assms by (auto simp: net_inv_def charged_def)
qed

lemma op_socket:
  "sk_attach_filter optmem_max mem len fprog s n = Inr q \<Longrightarrow> \<exists>sk. socks n s = Some sk"
  "sk_detach_filter s n = Inr q \<Longrightarrow> \<exists>sk. socks n s = Some sk"
  "sk_clone s newsk n = Inr n' \<Longrightarrow> \<exists>sk. socks n s = Some sk"
  "uu_sk_free s n = Inr n' \<Longrightarrow> \<exists>sk. socks n s = Some sk"
  by (auto simp: sk_attach_filter_def sk_detach_filter_def sk_clone_def uu_sk_free_def split: option.splits)

lemma net_step_inv: "net_step optmem_max n n' \<Longrightarrow> net_inv n \<Longrightarrow> net_inv n'"
proof (induction rule: net_step.induct)
  case (create n s)
  then show ?case by (intro create_inv)
next
  case (attach mem n fprog len s r n')
  then show ?case
    using op_socket(1) [OF attach(3)] sk_attach_filter_inv [of n s _ mem fprog len optmem_max] by fastforce
next
  case (detach s n r n')
  then show ?case using op_socket(2) [OF detach(1)] sk_detach_filter_inv [of n s] by fastforce
next
  case (clone n newsk s n')
  then show ?case using op_socket(3) [OF clone(2)] sk_clone_inv [of n newsk s] by fastforce
next
  case (free s n n')
  then show ?case using op_socket(4) [OF free(1)] uu_sk_free_inv [of n s] by fastforce
next
  case (grace_period n n')
  then show ?case using sk_filter_rcu_release_inv [of n] by fastforce
next
  case (option_alloc n s sk sz mem r sk')
  then have "sk_filter_ptr sk' = sk_filter_ptr sk"
    "sk_omem_alloc sk' = sk_omem_alloc sk + (if r = None then 0 else sint sz)"
    by (auto simp: sock_kmalloc_def Let_def split: if_splits option.splits)
  then show ?case by (rule charge_inv [OF option_alloc(3,1)])
next
  case (option_free n s sk sz)
  then show ?case
    using charge_inv [of n s sk "sock_kfree_s sk sz" "- sint sz"] by (simp add: sock_kfree_s_def)
qed

interpretation sockets: step_invariant net_init "net_step optmem_max" net_inv for optmem_max
proof
  show "net_inv n" if "net_init n" for n
    using that by (simp add: net_init_def net_inv_def refs_def owners_def own_def)
  show "net_inv t" if "net_inv s" "net_step optmem_max s t" for s t
    using net_step_inv that by blast
qed

lemma checked_run:
  assumes "sk_chk_filter prog = None" "skb_wf skb" "length mem0 = BPF_MEMWORDS"
  shows "\<exists>v. sk_run_filter skb prog mem0 = Some v \<and> v \<noteq> Warn_ret"
proof -
  have c: "checked prog" by (rule sk_chk_filter_checked [OF assms(1)])
  show ?thesis
    using filter_steps_progress [OF assms(2) c start_state_ok [OF c assms(3)], of "length prog"]
      filter_steps_loop by (auto simp: sk_run_filter_def start_state_def)
qed

text \<open>Only a filter that already waits for its release is queued twice.\<close>

lemma detach_crash:
  assumes "net_inv n" "socks n s = Some sk" "sk_detach_filter s n = Inl c"
  shows "c = Corrupt_list \<and> (\<exists>a. sk_filter_ptr sk = Some a \<and> a \<in> set (rcu n))"
  using sk_detach_filter_inv [OF assms(1,2)] assms(2,3)
  by (auto simp: sk_detach_filter_def sk_filter_delayed_uncharge_def call_rcu_bh_def
      split: option.splits if_splits)

lemma attach_crash:
  assumes "net_inv n" "socks n s = Some sk" "\<forall>a. mem = Some a \<longrightarrow> filters n a = None"
    "\<forall>insns. fprog = Prog insns \<longrightarrow> length insns = unat len"
    "sk_attach_filter optmem_max mem len fprog s n = Inl c"
  shows "c = Corrupt_list \<and> (\<exists>a. sk_filter_ptr sk = Some a \<and> a \<in> set (rcu n))"
proof -
  have c: "c = Corrupt_list" using sk_attach_filter_inv [OF assms(1-4), of optmem_max] assms(5) by simp
  from sk_attach_filter_cases [OF assms(2,3), of optmem_max len fprog] show ?thesis
    using assms(5) c
    by cases (auto simp: sk_filter_delayed_uncharge_def call_rcu_bh_def bindE_Inl_iff
        split: option.splits if_splits)
qed

text \<open>
  C10: After any sequence of socket creations, attaches, detaches, clones, frees, ends of
  grace periods and charges by other users of the option memory, the filter a socket points
  to has not been freed: it is a program that passed the checker, its reference count is the
  number of sockets and pending releases that refer to it, the option memory charged to the
  socket is the size of the filter plus what the other users took and did not give back, and
  running it on a packet ends without an illegal instruction.
\<close>

theorem attached_filters_live:
  assumes "net_init n0" "(net_step optmem_max)\<^sup>*\<^sup>* n0 n" "socks n s = Some sk" "sk_filter_ptr sk = Some a"
  shows "\<exists>fp. filters n a = Some fp \<and> sk_chk_filter (fp_insns fp) = None \<and> fp_refcnt fp = refs n a \<and>
    sk_omem_alloc sk = uint (sk_filter_len fp) + other_mem n s \<and>
    (\<forall>skb mem0. skb_wf skb \<longrightarrow> length mem0 = BPF_MEMWORDS \<longrightarrow>
      (\<exists>v. sk_run_filter skb (fp_insns fp) mem0 = Some v \<and> v \<noteq> Warn_ret))"
proof -
  have inv: "net_inv n" by (rule sockets.inv_reachable [OF assms(1,2)])
  obtain fp where fp: "filters n a = Some fp" "filter_ok fp" "fp_refcnt fp = refs n a"
    using owner_refs(2) [OF inv assms(3,4)] by blast
  then show ?thesis
    using net_invD(4) [OF inv assms(3)] assms(4) checked_run [of "fp_insns fp"]
    by (auto simp: charged_def filter_ok_def)
qed

text \<open>A socket that charged 100 bytes for something else and then attaches a filter of 48.\<close>

definition empty_net :: net where
  "empty_net = \<lparr>socks = Map.empty, filters = Map.empty, rcu = [], other_mem = \<lambda>_. 0\<rparr>"

definition example_net :: "int \<Rightarrow> net" where
  "example_net used = \<lparr>socks = [1 \<mapsto> \<lparr>sk_filter_ptr = None, sk_omem_alloc = used\<rparr>], filters = Map.empty,
     rcu = [], other_mem = (\<lambda>_. 0)(1 := used)\<rparr>"

definition filtered_net :: "int \<Rightarrow> net" where
  "filtered_net used = \<lparr>socks = [1 \<mapsto> \<lparr>sk_filter_ptr = Some 7, sk_omem_alloc = used + 48\<rparr>],
     filters = [7 \<mapsto> \<lparr>fp_refcnt = 1, fp_len = 4, fp_insns = example_filter\<rparr>], rcu = [],
     other_mem = (\<lambda>_. 0)(1 := used)\<rparr>"

lemma example_create: "net_step optmem_max empty_net (example_net 0)"
  using net_step.create [of empty_net 1 optmem_max] by (simp add: empty_net_def example_net_def)

lemma example_charge: "net_step 10240 (example_net 0) (example_net 100)"
proof -
  let ?sk = "\<lambda>m. \<lparr>sk_filter_ptr = None, sk_omem_alloc = m\<rparr>"
  have "sock_kmalloc 10240 (?sk 0) 100 (Some 3) = (Some 3, ?sk 100)"
    by (simp add: sock_kmalloc_def sint_u32)
  from net_step.option_alloc [OF _ this, of "example_net 0" 1] show ?thesis
    by (simp add: example_net_def sint_u32)
qed

lemma example_attach:
  "used < 10000 \<Longrightarrow>
   sk_attach_filter 10240 (Some 7) 4 (Prog example_filter) 1 (example_net used) = Inr (None, filtered_net used)"
  by (simp add: sk_attach_filter_def example_net_def filtered_net_def sock_kmalloc_def Let_def
      example_filter_checked sint_u32)

lemma example_attach_step: "used < 10000 \<Longrightarrow> net_step 10240 (example_net used) (filtered_net used)"
  by (rule net_step.attach [OF _ _ example_attach]) (simp_all add: example_net_def example_filter_def)

theorem attached_filters_live_witness:
  "\<exists>fp. filters (filtered_net 100) 7 = Some fp \<and> sk_chk_filter (fp_insns fp) = None \<and>
     uint (sk_filter_len fp) + other_mem (filtered_net 100) 1 = 148"
proof -
  have r: "(net_step 10240)\<^sup>*\<^sup>* empty_net (filtered_net 100)"
    by (meson example_create example_charge example_attach_step [of 100, simplified]
        converse_rtranclp_into_rtranclp r_into_rtranclp)
  have sk: "socks (filtered_net 100) 1 = Some \<lparr>sk_filter_ptr = Some 7, sk_omem_alloc = 148\<rparr>"
    by (simp add: filtered_net_def)
  have "net_init empty_net" by (simp add: net_init_def empty_net_def)
  from attached_filters_live [OF this r sk] show ?thesis by (metis sock.select_convs)
qed

text \<open>
  C36: After any such sequence, no operation uses a freed filter:
  freeing or cloning an existing socket and the end of a grace period return, and attaching
  or detaching returns or tries to queue the old filter while it already waits for its
  release.
\<close>

theorem filters_not_used_after_free:
  assumes "net_init n0" "(net_step optmem_max)\<^sup>*\<^sup>* n0 n" "socks n s = Some sk"
    "\<forall>a. mem = Some a \<longrightarrow> filters n a = None" "\<forall>insns. fprog = Prog insns \<longrightarrow> length insns = unat len"
  shows "(\<exists>n'. sk_filter_rcu_release n = Inr n') \<and> (\<exists>n'. uu_sk_free s n = Inr n') \<and>
    (socks n newsk = None \<longrightarrow> (\<exists>n'. sk_clone s newsk n = Inr n')) \<and>
    (\<forall>c. sk_attach_filter optmem_max mem len fprog s n = Inl c \<or> sk_detach_filter s n = Inl c \<longrightarrow>
       c = Corrupt_list \<and> (\<exists>a. sk_filter_ptr sk = Some a \<and> a \<in> set (rcu n)))"
proof -
  have inv: "net_inv n" by (rule sockets.inv_reachable [OF assms(1,2)])
  show ?thesis
    using sk_filter_rcu_release_inv [OF inv] uu_sk_free_inv [OF inv assms(3)]
      sk_clone_inv [OF inv _ assms(3), of newsk] detach_crash [OF inv assms(3)]
      attach_crash [OF inv assms(3-5), of optmem_max]
    by blast
qed

theorem filters_not_used_after_free_witness:
  "\<exists>n'. uu_sk_free 1 (filtered_net 0) = Inr n'"
proof -
  have r: "(net_step 10240)\<^sup>*\<^sup>* empty_net (filtered_net 0)"
    by (meson example_create example_attach_step [of 0, simplified]
        converse_rtranclp_into_rtranclp r_into_rtranclp)
  have "net_init empty_net" by (simp add: net_init_def empty_net_def)
  from filters_not_used_after_free [OF this r, of 1 _ None Null_prog] show ?thesis
    by (simp add: filtered_net_def)
qed

text \<open>
  C37: Two sockets that share a filter and give it up within one grace period queue its
  single callback twice: a socket with a filter is cloned, the filter is detached from the
  first socket, and detaching it from the second corrupts the list of callbacks.
\<close>

theorem shared_filter_queued_twice:
  "\<exists>n1 n2. sk_clone 1 2 (filtered_net 0) = Inr n1 \<and> sk_detach_filter 1 n1 = Inr (None, n2) \<and>
     (net_step 10240)\<^sup>*\<^sup>* empty_net n2 \<and> sk_detach_filter 2 n2 = Inl Corrupt_list"
proof -
  let ?fp = "\<lparr>fp_refcnt = 2, fp_len = 4, fp_insns = example_filter\<rparr>"
  let ?sk = "\<lambda>f m. \<lparr>sk_filter_ptr = f, sk_omem_alloc = m\<rparr>"
  let ?n = "\<lambda>f m q. \<lparr>socks = [1 \<mapsto> ?sk f m, 2 \<mapsto> ?sk (Some 7) 48], filters = [7 \<mapsto> ?fp], rcu = q,
      other_mem = \<lambda>_. 0\<rparr>"
  have c: "sk_clone 1 2 (filtered_net 0) = Inr (?n (Some 7) 48 [])"
    by (simp add: sk_clone_def filtered_net_def sk_filter_charge_def sk_filter_len_def fun_upd_idem)
  have d: "sk_detach_filter 1 (?n (Some 7) 48 []) = Inr (None, ?n None 0 [7])"
    by (simp add: sk_detach_filter_def sk_filter_delayed_uncharge_def call_rcu_bh_def uncharge_def
        sk_filter_len_def fun_upd_twist)
  have "net_step 10240 (filtered_net 0) (?n (Some 7) 48 [])"
    using net_step.clone [OF _ c] by (simp add: filtered_net_def fun_upd_idem)
  note steps = example_create [of 10240] example_attach_step [of 0, simplified] this net_step.detach [OF d]
  have "(net_step 10240)\<^sup>*\<^sup>* empty_net (?n None 0 [7])"
    by (rule converse_rtranclp_into_rtranclp, rule steps(1), rule converse_rtranclp_into_rtranclp,
        rule steps(2), rule converse_rtranclp_into_rtranclp, rule steps(3), rule r_into_rtranclp, rule steps(4))
  moreover have "sk_detach_filter 2 (?n None 0 [7]) = Inl Corrupt_list"
    by (simp add: sk_detach_filter_def sk_filter_delayed_uncharge_def call_rcu_bh_def)
  ultimately show ?thesis using c d by blast
qed

text \<open>
  C21: Attaching or detaching a filter that fails leaves everything as it was: no memory
  stays charged, no filter stays allocated, and a filter attached before stays attached.
\<close>

theorem attach_error_unchanged:
  assumes "\<forall>a. mem = Some a \<longrightarrow> filters n a = None"
  shows "(sk_attach_filter optmem_max mem len fprog s n = Inr (Some e, n') \<longrightarrow> n' = n) \<and>
    (sk_detach_filter s n = Inr (Some e, n') \<longrightarrow> n' = n)"
proof -
  have "n' = n" if a: "sk_attach_filter optmem_max mem len fprog s n = Inr (Some e, n')"
  proof -
    obtain sk where "socks n s = Some sk" using op_socket(1) [OF a] by blast
    from sk_attach_filter_cases [OF this assms, of optmem_max len fprog] show ?thesis
      using a by cases (auto simp: eq_commute [of "Inr _" "bindE _ _"])
  qed
  moreover have "n' = n" if "sk_detach_filter s n = Inr (Some e, n')"
    using that by (auto simp: sk_detach_filter_def split: option.splits)
  ultimately show ?thesis by blast
qed

text \<open>A program of one illegal instruction is refused and the network stays as it was.\<close>

theorem attach_error_unchanged_witness:
  "sk_attach_filter 10240 (Some 7) 1 (Prog [insn 0xff 0]) 1 (example_net 0) = Inr (Some EINVAL, example_net 0)"
proof -
  have "sk_chk_filter [insn 0xff 0] = Some EINVAL" by (simp add: sk_chk_filter_def decode_simps)
  then obtain n' where "sk_attach_filter 10240 (Some 7) 1 (Prog [insn 0xff 0]) 1 (example_net 0) = Inr (Some EINVAL, n')"
    by (simp add: sk_attach_filter_def example_net_def sock_kmalloc_def Let_def sint_u32 sk_filter_release_def)
  then show ?thesis
    using attach_error_unchanged [of "Some 7" "example_net 0" 10240 1 "Prog [insn 0xff 0]" 1 EINVAL n']
    by (simp add: example_net_def)
qed

end
