(* ===== verification/Group_Info.thy ===== *)
theory Group_Info
  imports Prelude "HOL-Library.Multiset"
begin

text \<open>
  Supplementary group lists (\<^verbatim>\<open>kernel/groups.c\<close>, \<^verbatim>\<open>include/linux/cred.h\<close>): allocation
  in blocks, copying from and to user space, the Shell sort and the binary search.
  The theory shows that sorting terminates, stays inside the blocks and yields the
  sorted list, that searching is sound always and complete when the group numbers
  lie less than \<open>2 ^ 31\<close> apart, and that it misses members otherwise.
\<close>

section \<open>Group lists\<close>

type_synonym gid_t = u32

abbreviation "NGROUPS_SMALL \<equiv> (32 :: int)"
abbreviation "NGROUPS_PER_BLOCK \<equiv> (1024 :: int)"
abbreviation "NGROUPS_MAX \<equiv> (65536 :: int)"

text \<open>An entry of \<^verbatim>\<open>blocks\<close> points to \<^verbatim>\<open>small_block\<close> or to a page of its own.\<close>

datatype block = Small_block | Page "gid_t list"

record group_info =
  ngroups :: int
  nblocks :: int
  small_block :: "gid_t list"
  blocks :: "block list"

text \<open>The group list of the first task: no groups and no blocks.\<close>

definition init_groups :: group_info where
  "init_groups = \<lparr>ngroups = 0, nblocks = 0, small_block = replicate 32 0, blocks = []\<rparr>"

definition block_data :: "group_info \<Rightarrow> block \<Rightarrow> gid_t list" where
  "block_data gi b = (case b of Small_block \<Rightarrow> small_block gi | Page p \<Rightarrow> p)"

definition set_block :: "group_info \<Rightarrow> int \<Rightarrow> gid_t list \<Rightarrow> group_info" where
  "set_block gi i xs =
     (case blocks gi ! nat i of
        Small_block \<Rightarrow> gi\<lparr>small_block := xs\<rparr>
      | Page _ \<Rightarrow> gi\<lparr>blocks := (blocks gi)[nat i := Page xs]\<rparr>)"

text \<open>\<^verbatim>\<open>GROUP_AT\<close>, read and assigned to.\<close>

definition GROUP_AT :: "group_info \<Rightarrow> int \<Rightarrow> crash + gid_t" where
  "GROUP_AT gi i =
     bindE (arr_read (blocks gi) (i div NGROUPS_PER_BLOCK))
       (\<lambda>b. arr_read (block_data gi b) (i mod NGROUPS_PER_BLOCK))"

definition GROUP_AT_assign :: "group_info \<Rightarrow> int \<Rightarrow> gid_t \<Rightarrow> crash + group_info" where
  "GROUP_AT_assign gi i v =
     bindE (arr_read (blocks gi) (i div NGROUPS_PER_BLOCK)) (\<lambda>b.
     bindE (arr_read (block_data gi b) (i mod NGROUPS_PER_BLOCK)) (\<lambda>_.
       Inr (set_block gi (i div NGROUPS_PER_BLOCK)
              ((block_data gi b)[nat (i mod NGROUPS_PER_BLOCK) := v]))))"

text \<open>
  \<^verbatim>\<open>groups_alloc\<close>.  \<open>mem\<close> is what the structure's memory holds, if \<^verbatim>\<open>kmalloc\<close> succeeds,
  and \<open>pages\<close> what the successive calls of \<^verbatim>\<open>__get_free_page\<close> return.
\<close>

fun alloc_pages :: "(nat \<Rightarrow> gid_t) option list \<Rightarrow> nat \<Rightarrow> block list option" where
  "alloc_pages pages 0 = Some []"
| "alloc_pages (Some c # pages) (Suc n) =
     map_option (\<lambda>bs. Page (map c [0..<1024]) # bs) (alloc_pages pages n)"
| "alloc_pages _ (Suc n) = None"

definition groups_alloc ::
  "(nat \<Rightarrow> gid_t) option \<Rightarrow> (nat \<Rightarrow> gid_t) option list \<Rightarrow> int \<Rightarrow> group_info option" where
  "groups_alloc mem pages gidsetsize =
     (let nb = (gidsetsize + NGROUPS_PER_BLOCK - 1) div NGROUPS_PER_BLOCK;
          nb = (if nb \<noteq> 0 then nb else 1)
      in case mem of
           None \<Rightarrow> None
         | Some c \<Rightarrow>
             (let gi = \<lparr>ngroups = gidsetsize, nblocks = nb,
                        small_block = map c [0..<32], blocks = []\<rparr>
              in if gidsetsize \<le> NGROUPS_SMALL
                 then Some (gi\<lparr>blocks := [Small_block]\<rparr>)
                 else map_option (\<lambda>bs. gi\<lparr>blocks := bs\<rparr>) (alloc_pages pages (nat nb))))"

text \<open>The pages that \<^verbatim>\<open>groups_free\<close> returns, beside the structure itself.\<close>

definition groups_free :: "group_info \<Rightarrow> block list" where
  "groups_free gi =
     (if blocks gi ! 0 \<noteq> Small_block then take (nat (nblocks gi)) (blocks gi) else [])"

section \<open>User space copies\<close>

text \<open>
  The loops of \<^verbatim>\<open>groups_from_user\<close> and \<^verbatim>\<open>groups_to_user\<close> over the block numbers.  The
  readable part of the user's array is \<open>user\<close>; \<open>room\<close> entries of it are writable.
\<close>

definition block_write :: "group_info \<Rightarrow> int \<Rightarrow> gid_t list \<Rightarrow> crash + group_info" where
  "block_write gi i xs =
     bindE (arr_read (blocks gi) i) (\<lambda>b.
       if length xs \<le> length (block_data gi b)
       then Inr (set_block gi i (xs @ drop (length xs) (block_data gi b)))
       else Inl Out_of_bounds)"

fun from_user_loop ::
  "gid_t list \<Rightarrow> int \<Rightarrow> int list \<Rightarrow> group_info \<Rightarrow> crash + errno + group_info" where
  "from_user_loop user cnt [] gi = Inr (Inr gi)"
| "from_user_loop user cnt (i # is) gi =
     (let cp_count = min NGROUPS_PER_BLOCK cnt;
          grouplist = nat (i * NGROUPS_PER_BLOCK)
      in if grouplist + nat cp_count \<le> length user
         then bindE (block_write gi i (take (nat cp_count) (drop grouplist user)))
                (from_user_loop user (cnt - cp_count) is)
         else Inr (Inl EFAULT))"

definition groups_from_user :: "group_info \<Rightarrow> gid_t list \<Rightarrow> crash + errno + group_info" where
  "groups_from_user gi user = from_user_loop user (ngroups gi) [0..nblocks gi - 1] gi"

definition block_read :: "group_info \<Rightarrow> int \<Rightarrow> int \<Rightarrow> crash + gid_t list" where
  "block_read gi i n =
     bindE (arr_read (blocks gi) i) (\<lambda>b.
       if n \<le> int (length (block_data gi b)) then Inr (take (nat n) (block_data gi b))
       else Inl Out_of_bounds)"

fun to_user_loop :: "nat \<Rightarrow> group_info \<Rightarrow> int \<Rightarrow> int list \<Rightarrow> gid_t list \<Rightarrow> crash + errno + gid_t list" where
  "to_user_loop room gi cnt [] out = Inr (Inr out)"
| "to_user_loop room gi cnt (i # is) out =
     (let cp_count = min NGROUPS_PER_BLOCK cnt in
      if nat (i * NGROUPS_PER_BLOCK) + nat cp_count \<le> room
      then bindE (block_read gi i cp_count)
             (\<lambda>xs. to_user_loop room gi (cnt - cp_count) is (out @ xs))
      else Inr (Inl EFAULT))"

definition groups_to_user :: "nat \<Rightarrow> group_info \<Rightarrow> crash + errno + gid_t list" where
  "groups_to_user room gi = to_user_loop room gi (ngroups gi) [0..nblocks gi - 1] []"

section \<open>Sorting and searching\<close>

text \<open>
  \<^verbatim>\<open>groups_sort\<close>: the growing and shrinking of the stride, the loop over \<^verbatim>\<open>base\<close> and the
  inner loop that shifts larger entries up.
\<close>

function stride_up :: "int \<Rightarrow> nat \<Rightarrow> nat" where
  "stride_up gidsetsize stride =
     (if int stride < gidsetsize then stride_up gidsetsize (3 * stride + 1) else stride)"
  by pat_completeness auto
termination by (relation "measure (\<lambda>(n, s). nat (n - int s))") auto

partial_function (option) shift_up ::
  "int \<Rightarrow> gid_t \<Rightarrow> int \<Rightarrow> int \<Rightarrow> group_info \<Rightarrow> (crash + int \<times> group_info) option" where
  "shift_up stride tmp left right gi =
     (if 0 \<le> left then
        case GROUP_AT gi left of
          Inl e \<Rightarrow> Some (Inl e)
        | Inr v \<Rightarrow>
            (if tmp < v then
               case GROUP_AT_assign gi right v of
                 Inl e \<Rightarrow> Some (Inl e)
               | Inr gi \<Rightarrow> shift_up stride tmp (left - stride) left gi
             else Some (Inr (right, gi)))
      else Some (Inr (right, gi)))"

definition insert_base :: "int \<Rightarrow> int \<Rightarrow> group_info \<Rightarrow> (crash + group_info) option" where
  "insert_base stride base gi =
     (let left = base; right = left + stride in
      bindR (Some (GROUP_AT gi right)) (\<lambda>tmp.
      bindR (shift_up stride tmp left right gi) (\<lambda>(right, gi).
        Some (GROUP_AT_assign gi right tmp))))"

fun base_loop :: "int \<Rightarrow> int list \<Rightarrow> group_info \<Rightarrow> (crash + group_info) option" where
  "base_loop stride [] gi = Some (Inr gi)"
| "base_loop stride (base # bases) gi =
     bindR (insert_base stride base gi) (base_loop stride bases)"

fun stride_loop :: "nat \<Rightarrow> group_info \<Rightarrow> (crash + group_info) option" where
  "stride_loop stride gi =
     (if stride \<noteq> 0 then
        let max = ngroups gi - int stride in
        bindR (base_loop (int stride) [0..max - 1] gi) (stride_loop (stride div 3))
      else Some (Inr gi))"

definition groups_sort :: "group_info \<Rightarrow> (crash + group_info) option" where
  "groups_sort gi = stride_loop (stride_up (ngroups gi) 1 div 3) gi"

text \<open>
  \<^verbatim>\<open>groups_search\<close>.  The indices are at most \<^verbatim>\<open>ngroups\<close>, an \<^verbatim>\<open>int\<close>, so that their sum does
  not wrap around; the difference of two group numbers does, and \<^verbatim>\<open>cmp\<close> is signed.
\<close>

function search_loop :: "group_info \<Rightarrow> gid_t \<Rightarrow> nat \<Rightarrow> nat \<Rightarrow> crash + bool" where
  "search_loop gi grp left right =
     (if left < right then
        let mid = (left + right) div 2 in
        bindE (GROUP_AT gi (int mid)) (\<lambda>v.
          let cmp = sint (grp - v) in
          if 0 < cmp then search_loop gi grp (mid + 1) right
          else if cmp < 0 then search_loop gi grp left mid
          else Inr True)
      else Inr False)"
  by pat_completeness auto
termination by (relation "measure (\<lambda>(_, _, l, r). r - l)") auto

definition groups_search :: "group_info option \<Rightarrow> gid_t \<Rightarrow> crash + bool" where
  "groups_search gi grp =
     (case gi of None \<Rightarrow> Inr False | Some gi \<Rightarrow> search_loop gi grp 0 (nat (ngroups gi)))"

declare stride_up.simps [simp del] stride_loop.simps [simp del] search_loop.simps [simp del]

section \<open>The list a structure holds\<close>

definition gids :: "group_info \<Rightarrow> gid_t list" where
  "gids gi = take (nat (ngroups gi)) (concat (map (block_data gi) (blocks gi)))"

definition paged :: "group_info \<Rightarrow> bool" where
  "paged gi \<longleftrightarrow>
     NGROUPS_SMALL < ngroups gi \<and> nblocks gi = (ngroups gi + 1023) div 1024 \<and>
     int (length (blocks gi)) = nblocks gi \<and>
     (\<forall>b\<in>set (blocks gi). case b of Small_block \<Rightarrow> False | Page p \<Rightarrow> length p = 1024)"

definition gi_ok :: "group_info \<Rightarrow> bool" where
  "gi_ok gi \<longleftrightarrow>
     0 \<le> ngroups gi \<and> length (small_block gi) = 32 \<and>
     (ngroups gi \<le> NGROUPS_SMALL \<and> nblocks gi = 1 \<and> blocks gi = [Small_block] \<or> paged gi)"

lemma gi_ok_cases [consumes 1, case_names small paged]:
  assumes "gi_ok gi"
    and "\<lbrakk>0 \<le> ngroups gi; ngroups gi \<le> 32; nblocks gi = 1; blocks gi = [Small_block];
          length (small_block gi) = 32\<rbrakk> \<Longrightarrow> P"
    and "\<lbrakk>paged gi; length (small_block gi) = 32\<rbrakk> \<Longrightarrow> P"
  shows P
  using assms by (auto simp: gi_ok_def)

lemma paged_blocks:
  assumes "paged gi"
  shows "\<forall>xs\<in>set (map (block_data gi) (blocks gi)). length xs = 1024"
    and "ngroups gi \<le> int (length (blocks gi)) * 1024"
  using assms by (auto simp: paged_def block_data_def split: block.splits)

lemma gids_length [simp]:
  assumes "gi_ok gi"
  shows "length (gids gi) = nat (ngroups gi)"
  using assms
proof (cases rule: gi_ok_cases)
  case paged
  have "length (concat (map (block_data gi) (blocks gi))) = length (blocks gi) * 1024"
    using length_concat_blocks [OF paged_blocks(1) [OF paged(1)]] by simp
  then show ?thesis using paged_blocks(2) [OF paged(1)] by (simp add: gids_def nat_le_iff)
qed (auto simp: gids_def block_data_def)

lemma paged_index:
  assumes "paged gi" "0 \<le> i" "i < ngroups gi"
  shows "i div 1024 = int (nat i div 1024)" "i mod 1024 = int (nat i mod 1024)"
    "nat i div 1024 < length (blocks gi)" "nat i < length (blocks gi) * 1024"
proof -
  show n: "nat i < length (blocks gi) * 1024"
    using paged_blocks(2) [OF assms(1)] assms by simp
  then show "nat i div 1024 < length (blocks gi)" by (simp add: div_less_iff_less_mult)
qed (use assms(2) in \<open>simp_all add: zdiv_int zmod_int\<close>)

lemma small_index: "0 \<le> i \<Longrightarrow> i < n \<Longrightarrow> n \<le> 32 \<Longrightarrow> i div 1024 = 0 \<and> i mod 1024 = i" for i :: int
  by (simp add: div_pos_pos_trivial mod_pos_pos_trivial)

lemma GROUP_AT_ok:
  assumes ok: "gi_ok gi" and i: "0 \<le> i" "i < ngroups gi"
  shows "GROUP_AT gi i = Inr (gids gi ! nat i)"
  using ok
proof (cases rule: gi_ok_cases)
  case small
  then show ?thesis
    using i small_index [OF i small(2)]
    by (simp add: GROUP_AT_def arr_read_def gids_def block_data_def)
next
  case paged
  define j k where "j = nat i div 1024" and "k = nat i mod 1024"
  note ix = paged_index [OF paged(1) i, folded j_def k_def]
  have len: "length (block_data gi (blocks gi ! j)) = 1024" "k < 1024"
    using paged_blocks(1) [OF paged(1)] ix(3) by (simp_all add: k_def)
  have "gids gi ! nat i = concat (map (block_data gi) (blocks gi)) ! nat i"
    using i by (simp add: gids_def)
  also have "\<dots> = block_data gi (blocks gi ! j) ! k"
    using nth_concat_blocks [OF paged_blocks(1) [OF paged(1)], of "nat i"] ix(3,4)
    by (simp add: j_def k_def)
  finally show ?thesis
    unfolding GROUP_AT_def ix(1,2) using ix(3) len by (simp add: arr_read_def)
qed

lemma paged_set_block:
  assumes "paged gi" "j < length (blocks gi)" "length xs = 1024"
  shows "paged (set_block gi (int j) xs)"
    "map (block_data (set_block gi (int j) xs)) (blocks (set_block gi (int j) xs)) =
     (map (block_data gi) (blocks gi))[j := xs]"
    "small_block (set_block gi (int j) xs) = small_block gi"
    "ngroups (set_block gi (int j) xs) = ngroups gi"
proof -
  obtain p where p: "blocks gi ! j = Page p"
    using assms(1,2) nth_mem [OF assms(2)] by (cases "blocks gi ! j") (auto simp: paged_def)
  have sb: "set_block gi (int j) xs = gi\<lparr>blocks := (blocks gi)[j := Page xs]\<rparr>"
    using p by (simp add: set_block_def)
  show "paged (set_block gi (int j) xs)"
    using assms unfolding sb paged_def
    by (auto dest!: set_update_subset_insert [THEN subsetD] split: block.splits)
  have same: "block_data (gi\<lparr>blocks := bs\<rparr>) = block_data gi" for bs
    by (simp add: fun_eq_iff block_data_def split: block.split)
  show "map (block_data (set_block gi (int j) xs)) (blocks (set_block gi (int j) xs)) =
     (map (block_data gi) (blocks gi))[j := xs]"
    unfolding sb by (simp add: same map_update cong: map_cong) (simp add: block_data_def)
  show "small_block (set_block gi (int j) xs) = small_block gi"
    "ngroups (set_block gi (int j) xs) = ngroups gi" by (simp_all add: sb)
qed

lemma GROUP_AT_assign_ok:
  assumes ok: "gi_ok gi" and i: "0 \<le> i" "i < ngroups gi"
  shows "\<exists>gi'. GROUP_AT_assign gi i v = Inr gi' \<and> gi_ok gi' \<and> ngroups gi' = ngroups gi \<and>
               gids gi' = (gids gi)[nat i := v]"
  using ok
proof (cases rule: gi_ok_cases)
  case small
  have "GROUP_AT_assign gi i v = Inr (gi\<lparr>small_block := (small_block gi)[nat i := v]\<rparr>)"
    using small i small_index [OF i small(2)]
    by (simp add: GROUP_AT_assign_def arr_read_def block_data_def set_block_def)
  then show ?thesis
    using small by (simp add: gids_def block_data_def gi_ok_def take_update_swap)
next
  case paged
  define j k where "j = nat i div 1024" and "k = nat i mod 1024"
  note ix = paged_index [OF paged(1) i, folded j_def k_def]
  let ?xs = "(block_data gi (blocks gi ! j))[k := v]"
  have len: "length (block_data gi (blocks gi ! j)) = 1024" "k < 1024"
    using paged_blocks(1) [OF paged(1)] ix(3) by (simp_all add: k_def)
  have as: "GROUP_AT_assign gi i v = Inr (set_block gi (int j) ?xs)"
    unfolding GROUP_AT_assign_def ix(1,2) using ix(3) len by (simp add: arr_read_def)
  have sb: "paged (set_block gi (int j) ?xs)"
    "map (block_data (set_block gi (int j) ?xs)) (blocks (set_block gi (int j) ?xs)) =
     (map (block_data gi) (blocks gi))[j := ?xs]"
    "small_block (set_block gi (int j) ?xs) = small_block gi"
    "ngroups (set_block gi (int j) ?xs) = ngroups gi"
    using paged_set_block [OF paged(1) ix(3), of ?xs] len(1) by simp_all
  have "(concat (map (block_data gi) (blocks gi)))[nat i := v] =
      concat ((map (block_data gi) (blocks gi))[j := ?xs])"
    using concat_update_block [OF paged_blocks(1) [OF paged(1)], of "nat i" v] ix(3,4)
    by (simp add: j_def k_def)
  then have "gids (set_block gi (int j) ?xs) = (gids gi)[nat i := v]"
    unfolding gids_def sb(2,4) by (metis take_update_swap)
  moreover have "gi_ok (set_block gi (int j) ?xs)" using sb ok by (simp add: gi_ok_def)
  ultimately show ?thesis using as sb(4) by blast
qed

section \<open>Sorting\<close>

text \<open>
  In the inner loop the entry at \<open>right\<close> is a hole for \<open>tmp\<close>: the entries before and
  after it up to \<open>b\<close> are in order, and those after it are larger than \<open>tmp\<close>.
\<close>

definition hole_ok :: "nat \<Rightarrow> nat \<Rightarrow> gid_t \<Rightarrow> gid_t list \<Rightarrow> bool" where
  "hole_ok b h tmp xs \<longleftrightarrow>
     (\<forall>i j. i < j \<longrightarrow> j \<le> b \<longrightarrow> i \<noteq> h \<longrightarrow> j \<noteq> h \<longrightarrow> xs ! i \<le> xs ! j) \<and>
     (\<forall>j. h < j \<longrightarrow> j \<le> b \<longrightarrow> tmp < xs ! j)"

lemma hole_ok_shift:
  assumes "hole_ok b (Suc h) tmp xs" "Suc h < length xs" "tmp < xs ! h" "Suc h \<le> b"
  shows "hole_ok b h tmp (xs[Suc h := xs ! h])"
  unfolding hole_ok_def
proof (intro conjI allI impI)
  fix i j assume a: "i < j" "j \<le> b" "i \<noteq> h" "j \<noteq> h"
  have "i = Suc h \<Longrightarrow> xs ! h \<le> xs ! j" using assms(1) a by (simp add: hole_ok_def)
  moreover have "j = Suc h \<Longrightarrow> xs ! i \<le> xs ! h" using assms(1,4) a by (simp add: hole_ok_def)
  moreover have "i \<noteq> Suc h \<Longrightarrow> j \<noteq> Suc h \<Longrightarrow> xs ! i \<le> xs ! j"
    using assms(1) a by (simp add: hole_ok_def)
  ultimately show "xs[Suc h := xs ! h] ! i \<le> xs[Suc h := xs ! h] ! j"
    using assms(2) a by (simp add: nth_list_update)
next
  fix j assume "h < j" "j \<le> b"
  then show "tmp < xs[Suc h := xs ! h] ! j"
    using assms by (cases "j = Suc h") (auto simp: hole_ok_def)
qed

lemma hole_ok_fill:
  assumes "hole_ok b h tmp xs" "h \<le> b" "b < length xs" "0 < h \<longrightarrow> xs ! (h - 1) \<le> tmp"
  shows "sorted (take (Suc b) (xs[h := tmp]))"
  unfolding sorted_iff_nth_mono_less
proof (intro allI impI)
  fix i j assume "i < j" "j < length (take (Suc b) (xs[h := tmp]))"
  then have a: "i < j" "j \<le> b" using assms(3) by auto
  have "i < h \<Longrightarrow> xs ! i \<le> tmp"
  proof -
    assume i: "i < h"
    then have "xs ! i \<le> xs ! (h - 1)"
      using assms(1,2) by (cases "i = h - 1") (auto simp: hole_ok_def)
    with i assms(4) show ?thesis by fastforce
  qed
  moreover have "h < j \<Longrightarrow> tmp \<le> xs ! j" using assms(1) a by (simp add: hole_ok_def less_imp_le)
  moreover have "i \<noteq> h \<Longrightarrow> j \<noteq> h \<Longrightarrow> xs ! i \<le> xs ! j" using assms(1) a by (simp add: hole_ok_def)
  ultimately show "take (Suc b) (xs[h := tmp]) ! i \<le> take (Suc b) (xs[h := tmp]) ! j"
    using a assms(2,3) by (auto simp: nth_list_update)
qed

lemma hole_ok_start:
  "sorted (take b xs) \<Longrightarrow> b < length xs \<Longrightarrow> hole_ok b b tmp xs"
  unfolding hole_ok_def sorted_iff_nth_mono_less by auto

text \<open>Moving the entry at \<open>l\<close> into the hole at \<open>r\<close> leaves the hole at \<open>l\<close>.\<close>

lemma mset_move_hole:
  "r < length xs \<Longrightarrow> l < length xs \<Longrightarrow> l \<noteq> r \<Longrightarrow>
   mset (xs[r := xs ! l, l := t]) = mset (xs[r := t])"
  by (simp add: mset_update list_update_swap [of l r])

definition shifted :: "int \<Rightarrow> nat \<Rightarrow> gid_t \<Rightarrow> int \<Rightarrow> group_info \<Rightarrow> int \<Rightarrow> group_info \<Rightarrow> bool" where
  "shifted stride b tmp right gi r gi' \<longleftrightarrow>
     gi_ok gi' \<and> ngroups gi' = ngroups gi \<and> 0 \<le> r \<and> r \<le> right \<and>
     mset ((gids gi')[nat r := tmp]) = mset ((gids gi)[nat right := tmp]) \<and>
     (stride = 1 \<and> hole_ok b (nat right) tmp (gids gi) \<and> nat right \<le> b \<longrightarrow>
      hole_ok b (nat r) tmp (gids gi') \<and> (0 < r \<longrightarrow> gids gi' ! (nat r - 1) \<le> tmp))"

lemma shift_up_spec:
  assumes "gi_ok gi" "0 < stride" "0 \<le> left + stride" "left + stride < ngroups gi"
  shows "\<exists>r gi'. shift_up stride tmp left (left + stride) gi = Some (Inr (r, gi')) \<and>
                 shifted stride b tmp (left + stride) gi r gi'"
  using assms
proof (induction "nat (left + stride)" arbitrary: left gi rule: less_induct)
  case less
  let ?right = "left + stride"
  note ok = less.prems(1)
  show ?case
  proof (cases "0 \<le> left \<and> tmp < gids gi ! nat left")
    case False
    then have "shift_up stride tmp left ?right gi = Some (Inr (?right, gi))"
      using GROUP_AT_ok [OF ok, of left] less.prems by (auto simp: shift_up.simps)
    moreover have "stride = 1 \<longrightarrow> nat ?right - 1 = nat left" by linarith
    ultimately show ?thesis
      using False less.prems by (auto simp: shifted_def not_less)
  next
    case True
    let ?v = "gids gi ! nat left"
    obtain gi' where gi': "GROUP_AT_assign gi ?right ?v = Inr gi'" "gi_ok gi'"
      "ngroups gi' = ngroups gi" "gids gi' = (gids gi)[nat ?right := ?v]"
      using GROUP_AT_assign_ok [OF ok, of ?right ?v] less.prems by blast
    have "nat (left - stride + stride) < nat ?right" using True less.prems(2) by simp
    from less.hyps [OF this gi'(2) less.prems(2)] True less.prems gi'(3)
    obtain r gi'' where IH: "shift_up stride tmp (left - stride) left gi' = Some (Inr (r, gi''))"
      "shifted stride b tmp left gi' r gi''"
      by auto
    have eq: "shift_up stride tmp left ?right gi = Some (Inr (r, gi''))"
      using IH(1) True less.prems gi'(1) GROUP_AT_ok [OF ok, of left]
      by (subst shift_up.simps) simp
    have len: "nat ?right < length (gids gi)" "nat left < length (gids gi)" "nat left \<noteq> nat ?right"
      using ok True less.prems by (simp_all add: nat_eq_iff)
    have "mset ((gids gi')[nat left := tmp]) = mset ((gids gi)[nat ?right := tmp])"
      unfolding gi'(4) by (rule mset_move_hole) (use len in auto)
    moreover have "hole_ok b (nat left) tmp (gids gi')"
      if "stride = 1" "hole_ok b (nat ?right) tmp (gids gi)" "nat ?right \<le> b"
    proof -
      have S: "nat ?right = Suc (nat left)" using that(1) True by (simp add: nat_add_distrib)
      show ?thesis
        unfolding gi'(4) S by (rule hole_ok_shift) (use that(2,3) [unfolded S] len(1) [unfolded S] True in simp_all)
    qed
    ultimately have "shifted stride b tmp ?right gi r gi''"
      using IH(2) gi'(3) less.prems(2) by (auto simp: shifted_def)
    with eq show ?thesis by blast
  qed
qed

text \<open>One round of the loop over \<open>base\<close>, and the whole loop.\<close>

definition rearranged :: "group_info \<Rightarrow> group_info \<Rightarrow> bool" where
  "rearranged gi gi' \<longleftrightarrow>
     gi_ok gi' \<and> ngroups gi' = ngroups gi \<and> mset (gids gi') = mset (gids gi)"

lemma rearranged_trans: "rearranged a b \<Longrightarrow> rearranged b c \<Longrightarrow> rearranged a c"
  by (simp add: rearranged_def)

lemma insert_base_spec:
  assumes "gi_ok gi" "0 < stride" "0 \<le> base" "base + stride < ngroups gi"
  shows "\<exists>gi'. insert_base stride base gi = Some (Inr gi') \<and> rearranged gi gi' \<and>
      (stride = 1 \<and> sorted (take (Suc (nat base)) (gids gi)) \<longrightarrow>
       sorted (take (Suc (Suc (nat base))) (gids gi')))"
proof -
  let ?right = "base + stride"
  define tmp where "tmp = gids gi ! nat ?right"
  have at: "GROUP_AT gi ?right = Inr tmp" using GROUP_AT_ok [OF assms(1)] assms by (simp add: tmp_def)
  obtain r gi1 where r: "shift_up stride tmp base ?right gi = Some (Inr (r, gi1))"
    "shifted stride (nat ?right) tmp ?right gi r gi1"
    using shift_up_spec [OF assms(1,2)] assms by force
  then have gi1: "gi_ok gi1" "ngroups gi1 = ngroups gi" "0 \<le> r" "r \<le> ?right"
    "mset ((gids gi1)[nat r := tmp]) = mset (gids gi)"
    by (simp_all add: shifted_def tmp_def)
  obtain gi2 where gi2: "GROUP_AT_assign gi1 r tmp = Inr gi2" "gi_ok gi2"
    "ngroups gi2 = ngroups gi1" "gids gi2 = (gids gi1)[nat r := tmp]"
    using GROUP_AT_assign_ok [OF gi1(1), of r tmp] gi1 assms(4) by auto
  have "insert_base stride base gi = Some (Inr gi2)"
    using at r(1) gi2(1) by (simp add: insert_base_def)
  moreover have "rearranged gi gi2" using gi2 gi1 by (simp add: rearranged_def)
  moreover have "sorted (take (Suc (Suc (nat base))) (gids gi2))"
    if s: "stride = 1" "sorted (take (Suc (nat base)) (gids gi))"
  proof -
    have R: "nat ?right = Suc (nat base)" using s(1) assms(3) by simp
    have len: "nat ?right < length (gids gi)" "length (gids gi1) = length (gids gi)"
      using assms gi1 by simp_all
    have "hole_ok (nat ?right) (nat ?right) tmp (gids gi)"
      by (rule hole_ok_start) (use s len R in auto)
    then have "hole_ok (nat ?right) (nat r) tmp (gids gi1)" "0 < r \<longrightarrow> gids gi1 ! (nat r - 1) \<le> tmp"
      using r(2) s(1) by (auto simp: shifted_def)
    from hole_ok_fill [OF this(1)] this(2) show ?thesis
      using gi1(3,4) len by (simp add: R [symmetric] gi2(4) nat_mono)
  qed
  ultimately show ?thesis by blast
qed

fun down_to_one :: "nat \<Rightarrow> bool" where
  "down_to_one stride = (if stride \<le> 1 then stride = 1 else down_to_one (stride div 3))"

declare down_to_one.simps [simp del]

lemma base_loop_spec:
  assumes "gi_ok gi" "0 < stride" "0 \<le> base"
  shows "\<exists>gi'. base_loop stride [base..ngroups gi - stride - 1] gi = Some (Inr gi') \<and>
      rearranged gi gi' \<and>
      (stride = 1 \<and> sorted (take (Suc (nat base)) (gids gi)) \<longrightarrow> sorted (gids gi'))"
  using assms
proof (induction "nat (ngroups gi - stride - base)" arbitrary: base gi)
  case 0
  then have "[base..ngroups gi - stride - 1] = []" by simp
  moreover have "stride = 1 \<longrightarrow> take (Suc (nat base)) (gids gi) = gids gi"
    using 0 by simp
  ultimately show ?case using 0 by (auto simp: rearranged_def)
next
  case (Suc n)
  then have lt: "base + stride < ngroups gi" by linarith
  obtain gi1 where gi1: "insert_base stride base gi = Some (Inr gi1)" "rearranged gi gi1"
    "stride = 1 \<and> sorted (take (Suc (nat base)) (gids gi)) \<longrightarrow>
     sorted (take (Suc (Suc (nat base))) (gids gi1))"
    using insert_base_spec [OF Suc.prems lt] by blast
  then have ng: "ngroups gi1 = ngroups gi" and ok: "gi_ok gi1" by (simp_all add: rearranged_def)
  have "n = nat (ngroups gi1 - stride - (base + 1))" using Suc.hyps(2) ng by linarith
  from Suc.hyps(1) [OF this ok Suc.prems(2)] Suc.prems(3)
  obtain gi2 where gi2: "base_loop stride [base + 1..ngroups gi - stride - 1] gi1 = Some (Inr gi2)"
    "rearranged gi1 gi2"
    "stride = 1 \<and> sorted (take (Suc (nat (base + 1))) (gids gi1)) \<longrightarrow> sorted (gids gi2)"
    by (auto simp: ng)
  have "[base..ngroups gi - stride - 1] = base # [base + 1..ngroups gi - stride - 1]"
    using lt by (subst upto.simps) simp
  then have "base_loop stride [base..ngroups gi - stride - 1] gi = Some (Inr gi2)"
    using gi1(1) gi2(1) by simp
  moreover have "nat (base + 1) = Suc (nat base)" using Suc.prems(3) by simp
  ultimately show ?case
    using gi1(2,3) gi2(2,3) by (auto intro: rearranged_trans)
qed

text \<open>Every nonzero stride of the sequence comes down to one, whose round sorts the list.\<close>

lemma stride_loop_spec:
  assumes "gi_ok gi"
  shows "\<exists>gi'. stride_loop stride gi = Some (Inr gi') \<and> rearranged gi gi' \<and>
               (down_to_one stride \<longrightarrow> sorted (gids gi'))"
  using assms
proof (induction stride gi rule: stride_loop.induct)
  case (1 stride gi)
  show ?case
  proof (cases "stride = 0")
    case True
    then show ?thesis
      using "1.prems" by (simp add: stride_loop.simps rearranged_def down_to_one.simps)
  next
    case False
    obtain gi1 where gi1: "base_loop (int stride) [0..ngroups gi - int stride - 1] gi = Some (Inr gi1)"
      "rearranged gi gi1" "stride = 1 \<and> sorted (take 1 (gids gi)) \<longrightarrow> sorted (gids gi1)"
      using base_loop_spec [OF "1.prems", of "int stride" 0] False by auto
    then have ok: "gi_ok gi1" by (simp add: rearranged_def)
    have step: "stride_loop stride gi = stride_loop (stride div 3) gi1"
      using False gi1(1) by (subst stride_loop.simps) simp
    have one: "sorted (take 1 (gids gi))" by (cases "gids gi") simp_all
    show ?thesis
    proof (cases "stride = 1")
      case True
      then have "stride_loop stride gi = Some (Inr gi1)" using step by (simp add: stride_loop.simps)
      then show ?thesis using gi1 one True by simp
    next
      case no1: False
      from "1.IH" [OF False refl] ok obtain gi2 where
        "stride_loop (stride div 3) gi1 = Some (Inr gi2)" "rearranged gi1 gi2"
        "down_to_one (stride div 3) \<longrightarrow> sorted (gids gi2)" by blast
      then show ?thesis
        using step gi1(2) no1 False by (auto simp: down_to_one.simps [of stride] intro: rearranged_trans)
    qed
  qed
qed

lemma down_to_one_up: "down_to_one stride \<Longrightarrow> down_to_one (Suc (3 * stride))"
proof -
  assume d: "down_to_one stride"
  moreover have "Suc (3 * stride) div 3 = stride" by linarith
  ultimately show ?thesis by (subst down_to_one.simps) (auto simp: down_to_one.simps [of 0])
qed

lemma stride_up_down: "down_to_one stride \<Longrightarrow> down_to_one (stride_up n stride)"
  by (induction n stride rule: stride_up.induct)
    (subst stride_up.simps, auto intro: down_to_one_up)

lemma stride_up_ge: "n \<le> int (stride_up n stride)"
  by (induction n stride rule: stride_up.induct) (subst stride_up.simps, auto)

lemma groups_sort_spec:
  assumes "gi_ok gi"
  shows "\<exists>gi'. groups_sort gi = Some (Inr gi') \<and> gi_ok gi' \<and> ngroups gi' = ngroups gi \<and>
               gids gi' = sort (gids gi)"
proof -
  obtain gi' where gi': "groups_sort gi = Some (Inr gi')" "rearranged gi gi'"
    "down_to_one (stride_up (ngroups gi) 1 div 3) \<longrightarrow> sorted (gids gi')"
    using stride_loop_spec [OF assms] unfolding groups_sort_def by blast
  have "sorted (gids gi')"
  proof (cases "ngroups gi \<le> 1")
    case True
    then have "length (gids gi') \<le> 1" using gi'(2) by (simp add: rearranged_def)
    then show ?thesis by (cases "gids gi'") auto
  next
    case False
    have "down_to_one 4" by (simp add: down_to_one.simps)
    moreover have "stride_up (ngroups gi) 1 = stride_up (ngroups gi) 4"
      using False by (subst stride_up.simps) simp
    ultimately have d: "down_to_one (stride_up (ngroups gi) 1)" by (simp add: stride_up_down)
    moreover have "stride_up (ngroups gi) 1 \<noteq> 1"
      using False stride_up_ge [of "ngroups gi" 1] by linarith
    ultimately show ?thesis
      using gi'(3) by (auto simp: down_to_one.simps [of "stride_up _ _"] split: if_splits)
  qed
  with gi' show ?thesis by (auto simp: rearranged_def intro!: properties_for_sort [symmetric])
qed

section \<open>Searching\<close>

definition near :: "gid_t list \<Rightarrow> gid_t \<Rightarrow> bool" where
  "near xs grp \<longleftrightarrow> (\<forall>x\<in>set xs. \<bar>uint grp - uint x\<bar> < 2 ^ 31)"

lemma in_slice_iff:
  "x \<in> set (drop l (take r xs)) \<longleftrightarrow> (\<exists>i. l \<le> i \<and> i < r \<and> i < length xs \<and> xs ! i = x)"
proof
  assume "x \<in> set (drop l (take r xs))"
  then obtain k where k: "k < length (drop l (take r xs))" "drop l (take r xs) ! k = x"
    by (auto simp: in_set_conv_nth)
  moreover from k(1) have "drop l (take r xs) ! k = xs ! (l + k)" by (subst nth_drop) auto
  ultimately show "\<exists>i. l \<le> i \<and> i < r \<and> i < length xs \<and> xs ! i = x"
    by (intro exI [of _ "l + k"]) auto
next
  assume "\<exists>i. l \<le> i \<and> i < r \<and> i < length xs \<and> xs ! i = x"
  then obtain i where i: "l \<le> i" "i < r" "i < length xs" "xs ! i = x" by blast
  then have "drop l (take r xs) ! (i - l) = x" "i - l < length (drop l (take r xs))" by auto
  then show "x \<in> set (drop l (take r xs))" by (metis nth_mem)
qed

lemma groups_search_init: "groups_search (Some init_groups) grp = Inr False"
  by (simp add: groups_search_def init_groups_def search_loop.simps)

lemma search_loop_spec:
  assumes "gi_ok gi" "int right \<le> ngroups gi"
  shows "\<exists>b. search_loop gi grp left right = Inr b \<and> (b \<longrightarrow> grp \<in> set (gids gi)) \<and>
             (sorted (gids gi) \<and> near (gids gi) grp \<longrightarrow>
              grp \<in> set (drop left (take right (gids gi))) \<longrightarrow> b)"
  using assms(2)
proof (induction "right - left" arbitrary: left right rule: less_induct)
  case less
  show ?case
  proof (cases "left < right")
    case False
    then show ?thesis by (intro exI [of _ False]) (simp add: search_loop.simps)
  next
    case True
    define mid where "mid = (left + right) div 2"
    have mid: "left \<le> mid" "mid < right" "mid < length (gids gi)"
      using True less.prems assms(1) by (simp_all add: mid_def)
    let ?v = "gids gi ! mid"
    let ?cmp = "sint (grp - ?v)"
    have at: "GROUP_AT gi (int mid) = Inr ?v"
      using GROUP_AT_ok [OF assms(1), of "int mid"] mid less.prems by simp
    note step = search_loop.simps [of gi grp left right, unfolded mid_def [symmetric]]
    have cmp: "near (gids gi) grp \<Longrightarrow> ?cmp = uint grp - uint ?v"
      using mid by (intro sint_diff_u32) (simp add: near_def)
    have ord: "sorted (gids gi) \<Longrightarrow> i \<le> j \<Longrightarrow> j < length (gids gi) \<Longrightarrow>
        uint (gids gi ! i) \<le> uint (gids gi ! j)" for i j
      by (metis sorted_nth_mono word_le_def)
    consider (up) "0 < ?cmp" | (down) "?cmp < 0" | (found) "?cmp = 0" by linarith
    then show ?thesis
    proof cases
      case up
      have "near (gids gi) grp \<Longrightarrow> sorted (gids gi) \<Longrightarrow>
          grp \<in> set (drop left (take right (gids gi))) \<Longrightarrow>
          grp \<in> set (drop (mid + 1) (take right (gids gi)))"
        using up cmp ord [of _ mid] mid unfolding in_slice_iff by (metis diff_gt_0_iff_gt leD not_less_eq_eq Suc_eq_plus1)
      moreover have "right - (mid + 1) < right - left" using mid by simp
      from less.hyps [OF this less.prems] up at True
      have "\<exists>b. search_loop gi grp left right = Inr b \<and> (b \<longrightarrow> grp \<in> set (gids gi)) \<and>
          (sorted (gids gi) \<and> near (gids gi) grp \<longrightarrow>
           grp \<in> set (drop (mid + 1) (take right (gids gi))) \<longrightarrow> b)"
        by (simp add: step)
      ultimately show ?thesis by blast
    next
      case down
      have "near (gids gi) grp \<Longrightarrow> sorted (gids gi) \<Longrightarrow>
          grp \<in> set (drop left (take right (gids gi))) \<Longrightarrow>
          grp \<in> set (drop left (take mid (gids gi)))"
        using down cmp ord [of mid] mid unfolding in_slice_iff by (metis diff_less_0_iff_less leD not_le)
      moreover have "mid - left < right - left" "int mid \<le> ngroups gi" using mid less.prems by simp_all
      from less.hyps [OF this] down at True
      have "\<exists>b. search_loop gi grp left right = Inr b \<and> (b \<longrightarrow> grp \<in> set (gids gi)) \<and>
          (sorted (gids gi) \<and> near (gids gi) grp \<longrightarrow>
           grp \<in> set (drop left (take mid (gids gi))) \<longrightarrow> b)"
        by (simp add: step)
      ultimately show ?thesis by blast
    next
      case found
      then have "grp = ?v" by (metis eq_iff_diff_eq_0 signed_eq_0_iff)
      moreover have "search_loop gi grp left right = Inr True"
        using found at True by (simp add: step)
      ultimately show ?thesis using mid(3) by (intro exI [of _ True]) simp
    qed
  qed
qed

section \<open>Allocation and copies\<close>

lemma alloc_pages_ok:
  "alloc_pages pages n = Some bs \<Longrightarrow>
   length bs = n \<and> (\<forall>b\<in>set bs. case b of Small_block \<Rightarrow> False | Page p \<Rightarrow> length p = 1024)"
  by (induction pages n arbitrary: bs rule: alloc_pages.induct) auto

lemma groups_alloc_ok:
  assumes "groups_alloc mem pages n = Some gi" "0 \<le> n"
  shows "gi_ok gi" "ngroups gi = n"
proof -
  let ?nb = "(n + 1023) div 1024"
  have nb: "0 \<le> ?nb" "32 < n \<Longrightarrow> 0 < ?nb" "n \<le> 32 \<Longrightarrow> ?nb < 2"
    using assms(2) by (simp_all add: pos_imp_zdiv_nonneg_iff pos_imp_zdiv_pos_iff div_less_iff_less_mult)
  show "gi_ok gi"
  proof (cases "n \<le> 32")
    case True
    then have "?nb \<noteq> 0 \<longrightarrow> ?nb = 1" using nb by linarith
    then show ?thesis
      using assms True by (cases mem) (auto simp: groups_alloc_def gi_ok_def Let_def split: if_splits)
  next
    case False
    then have "?nb \<noteq> 0" using nb(2) by simp
    then show ?thesis
      using assms False nb(1)
      by (cases mem) (auto simp: groups_alloc_def gi_ok_def paged_def Let_def add.commute [of 1023 n]
          dest!: alloc_pages_ok)
  qed
  show "ngroups gi = n"
    using assms by (cases mem) (auto simp: groups_alloc_def Let_def split: if_splits)
qed

abbreviation flat :: "group_info \<Rightarrow> gid_t list" where
  "flat gi \<equiv> concat (map (block_data gi) (blocks gi))"

lemma block_write_paged:
  assumes "paged gi" "j < length (blocks gi)" "length xs \<le> 1024"
  shows "\<exists>gi'. block_write gi (int j) xs = Inr gi' \<and> paged gi' \<and> ngroups gi' = ngroups gi \<and>
    nblocks gi' = nblocks gi \<and> small_block gi' = small_block gi \<and>
    flat gi' = take (j * 1024) (flat gi) @ xs @ drop (j * 1024 + length xs) (flat gi)"
proof -
  let ?d = "block_data gi (blocks gi ! j)"
  let ?ys = "xs @ drop (length xs) ?d"
  have len: "length ?d = 1024" using paged_blocks(1) [OF assms(1)] assms(2) by simp
  then have ys: "length ?ys = 1024" using assms(3) by simp
  have "block_write gi (int j) xs = Inr (set_block gi (int j) ?ys)"
    using assms len by (simp add: block_write_def arr_read_def)
  moreover have "nblocks (set_block gi (int j) ?ys) = nblocks gi"
    by (simp add: set_block_def split: block.splits)
  moreover have "flat (set_block gi (int j) ?ys) =
      take (j * 1024) (flat gi) @ xs @ drop (j * 1024 + length xs) (flat gi)"
    using concat_replace_block [OF paged_blocks(1) [OF assms(1)], of j xs] assms
      paged_set_block(2) [OF assms(1,2) ys] by simp
  ultimately show ?thesis using paged_set_block [OF assms(1,2) ys] by auto
qed

definition copied :: "gid_t list \<Rightarrow> group_info \<Rightarrow> crash + errno + group_info \<Rightarrow> bool" where
  "copied user gi r \<longleftrightarrow>
     (if nat (ngroups gi) \<le> length user
      then \<exists>gi'. r = Inr (Inr gi') \<and> gi_ok gi' \<and> ngroups gi' = ngroups gi \<and>
                 gids gi' = take (nat (ngroups gi)) user
      else r = Inr (Inl EFAULT))"

lemma paged_round:
  assumes "paged gi" "i < length (blocks gi)" "m = min (i * 1024) (nat (ngroups gi))"
    "cp = min 1024 (nat (ngroups gi) - m)"
  shows "m = i * 1024" "nat (int i * 1024) = m" "min 1024 (ngroups gi - int m) = int cp" "cp \<le> 1024"
    "m + cp = min (Suc i * 1024) (nat (ngroups gi))"
    "[int i..nblocks gi - 1] = int i # [int (Suc i)..nblocks gi - 1]"
proof -
  have nb: "nblocks gi = int (length (blocks gi))" "nblocks gi = (ngroups gi + 1023) div 1024"
    using assms(1) by (simp_all add: paged_def)
  then have lt: "int i * 1024 < ngroups gi" using assms(2) by linarith
  then show m: "m = i * 1024" "nat (int i * 1024) = m" using assms(3) by simp_all
  show "min 1024 (ngroups gi - int m) = int cp" "cp \<le> 1024"
    "m + cp = min (Suc i * 1024) (nat (ngroups gi))"
    using lt m by (auto simp: assms(4))
  show "[int i..nblocks gi - 1] = int i # [int (Suc i)..nblocks gi - 1]"
    using assms(2) nb(1) by (subst upto.simps) (simp add: add.commute)
qed

lemma copied_cong: "ngroups gi' = ngroups gi \<Longrightarrow> copied user gi' r = copied user gi r"
  unfolding copied_def by metis

lemma from_user_paged:
  assumes "paged gi" "length (small_block gi) = 32" "i \<le> length (blocks gi)"
    "m = min (i * 1024) (nat (ngroups gi))" "m \<le> length user" "take m (flat gi) = take m user"
  shows "copied user gi (from_user_loop user (ngroups gi - int m) [int i..nblocks gi - 1] gi)"
  using assms
proof (induction "length (blocks gi) - i" arbitrary: i m gi)
  case 0
  then have "m = nat (ngroups gi)" using paged_blocks(2) [OF 0(2)] by simp
  moreover have "[int i..nblocks gi - 1] = []" using 0 by (simp add: paged_def)
  ultimately show ?case using 0 by (auto simp: copied_def gi_ok_def gids_def paged_def)
next
  case (Suc n)
  have i: "i < length (blocks gi)" using Suc.hyps(2) by simp
  define cp where "cp = min 1024 (nat (ngroups gi) - m)"
  note round = paged_round [OF Suc.prems(1) i Suc.prems(4) cp_def]
  note m = round(1,2) and cp = round(3-5) and upto = round(6)
  show ?case
  proof (cases "m + cp \<le> length user")
    case False
    then have "\<not> nat (ngroups gi) \<le> length user" using cp(3) by simp
    then show ?thesis using False by (simp add: copied_def upto cp(1) m(2))
  next
    case True
    let ?xs = "take cp (drop m user)"
    have xs: "length ?xs = cp" using True by simp
    obtain gi' where gi': "block_write gi (int i) ?xs = Inr gi'" "paged gi'"
      "ngroups gi' = ngroups gi" "nblocks gi' = nblocks gi" "small_block gi' = small_block gi"
      "flat gi' = take m (flat gi) @ ?xs @ drop (m + length ?xs) (flat gi)"
      using block_write_paged [OF Suc.prems(1) i, of ?xs] cp(2) xs m(1) by auto
    have l: "length (blocks gi') = length (blocks gi)"
      using gi'(2,4) Suc.prems(1) by (simp add: paged_def)
    have "take (m + cp) (flat gi') = take (m + cp) user"
      using Suc.prems(5,6) xs by (simp add: gi'(6) take_add)
    then have "copied user gi' (from_user_loop user (ngroups gi' - int (m + cp))
        [int (Suc i)..nblocks gi' - 1] gi')"
      using gi'(2,3,5) Suc.prems(2) Suc.hyps(2) i l cp(3) True
      by (intro Suc.hyps(1)) simp_all
    moreover have "from_user_loop user (ngroups gi - int m) [int i..nblocks gi - 1] gi =
        from_user_loop user (ngroups gi' - int (m + cp)) [int (Suc i)..nblocks gi' - 1] gi'"
      using True by (simp add: upto cp(1) m(2) gi'(1,3,4) diff_diff_eq)
    ultimately show ?thesis by (simp only: copied_cong [OF gi'(3)])
  qed
qed

lemma groups_from_user_spec:
  assumes "gi_ok gi"
  shows "copied user gi (groups_from_user gi user)"
  using assms
proof (cases rule: gi_ok_cases)
  case small
  define n where "n = nat (ngroups gi)"
  have n: "ngroups gi = int n" "n \<le> 32" using small by (simp_all add: n_def)
  have "groups_from_user gi user = (if n \<le> length user
      then Inr (Inr (gi\<lparr>small_block := take n user @ drop n (small_block gi)\<rparr>)) else Inr (Inl EFAULT))"
    using small(3-) n
    by (simp add: groups_from_user_def block_write_def arr_read_def block_data_def set_block_def Let_def)
  then show ?thesis
    using small n by (auto simp: copied_def gi_ok_def gids_def block_data_def)
next
  case paged
  from from_user_paged [OF paged, of 0 0 user] show ?thesis by (simp add: groups_from_user_def)
qed

lemma to_user_paged:
  assumes "paged gi" "i \<le> length (blocks gi)" "m = min (i * 1024) (nat (ngroups gi))" "m \<le> room"
  shows "to_user_loop room gi (ngroups gi - int m) [int i..nblocks gi - 1] (take m (flat gi)) =
    Inr (if nat (ngroups gi) \<le> room then Inr (gids gi) else Inl EFAULT)"
  using assms
proof (induction "length (blocks gi) - i" arbitrary: i m)
  case 0
  then have "m = nat (ngroups gi)" using paged_blocks(2) [OF assms(1)] by simp
  moreover have "[int i..nblocks gi - 1] = []" using 0 by (simp add: paged_def)
  ultimately show ?case using 0 by (simp add: gids_def)
next
  case (Suc n)
  have i: "i < length (blocks gi)" using Suc.hyps(2) by simp
  define cp where "cp = min 1024 (nat (ngroups gi) - m)"
  note round = paged_round [OF assms(1) i Suc.prems(3) cp_def]
  note m = round(1,2) and cp = round(3-5) and upto = round(6)
  have len: "length (block_data gi (blocks gi ! i)) = 1024"
    using paged_blocks(1) [OF assms(1)] i by simp
  then have rd: "block_read gi (int i) (int cp) = Inr (take cp (block_data gi (blocks gi ! i)))"
    using i cp(2) by (simp add: block_read_def arr_read_def)
  have "drop m (flat gi) = block_data gi (blocks gi ! i) @ drop (Suc i * 1024) (flat gi)"
    using drop_concat_block [OF paged_blocks(1) [OF assms(1)], of i] i by (simp add: m(1))
  then have tk: "take m (flat gi) @ take cp (block_data gi (blocks gi ! i)) = take (m + cp) (flat gi)"
    using cp(2) len by (simp add: take_add)
  show ?case
  proof (cases "m + cp \<le> room")
    case False
    then show ?thesis using cp(3) by (simp add: upto cp(1) m(2))
  next
    case True
    have "to_user_loop room gi (ngroups gi - int (m + cp)) [int (Suc i)..nblocks gi - 1]
        (take (m + cp) (flat gi)) = Inr (if nat (ngroups gi) \<le> room then Inr (gids gi) else Inl EFAULT)"
      using Suc.hyps(2) i cp(3) True assms(1) by (intro Suc.hyps(1)) simp_all
    then show ?thesis using True by (simp add: upto cp(1) m(2) rd tk diff_diff_eq)
  qed
qed

lemma groups_to_user_spec:
  assumes "gi_ok gi"
  shows "groups_to_user room gi =
    Inr (if nat (ngroups gi) \<le> room then Inr (gids gi) else Inl EFAULT)"
  using assms
proof (cases rule: gi_ok_cases)
  case small
  define n where "n = nat (ngroups gi)"
  have n: "ngroups gi = int n" "n \<le> 32" using small by (simp_all add: n_def)
  then show ?thesis
    using small(3-)
    by (simp add: groups_to_user_def block_read_def arr_read_def block_data_def gids_def Let_def)
next
  case paged
  from to_user_paged [OF paged(1), of 0 0 room] show ?thesis by (simp add: groups_to_user_def)
qed

section \<open>Properties\<close>

definition example_groups :: "gid_t list \<Rightarrow> group_info" where
  "example_groups xs =
     \<lparr>ngroups = int (length xs), nblocks = 1, small_block = xs @ replicate (32 - length xs) 0,
      blocks = [Small_block]\<rparr>"

lemma example_groups_ok: "length xs \<le> 32 \<Longrightarrow> gi_ok (example_groups xs)"
  by (simp add: example_groups_def gi_ok_def)

lemma gids_example_groups: "length xs \<le> 32 \<Longrightarrow> gids (example_groups xs) = xs"
  by (simp add: example_groups_def gids_def block_data_def)

text \<open>
  C11: A group list of any size that was allocated and filled from user space is
  sorted in finitely many steps and without an access outside its blocks; the
  result is the sorted list of what the user passed, and reading it back to a large
  enough user buffer returns exactly that list.
\<close>

theorem groups_sorted_round_trip:
  assumes "groups_alloc mem pages n = Some gi" "0 \<le> n" "nat n \<le> length user" "nat n \<le> room"
  shows "\<exists>gi1 gi2. groups_from_user gi user = Inr (Inr gi1) \<and> groups_sort gi1 = Some (Inr gi2) \<and>
    groups_to_user room gi2 = Inr (Inr (sort (take (nat n) user)))"
proof -
  note gi = groups_alloc_ok [OF assms(1,2)]
  obtain gi1 where gi1: "groups_from_user gi user = Inr (Inr gi1)" "gi_ok gi1" "ngroups gi1 = n"
    "gids gi1 = take (nat n) user"
    using groups_from_user_spec [OF gi(1), of user] assms(3) by (auto simp: copied_def gi(2))
  with groups_sort_spec [OF gi1(2)] groups_to_user_spec [of _ room] assms(4) show ?thesis by auto
qed

text \<open>Three groups, in a structure whose memory held zeros.\<close>

theorem groups_sorted_round_trip_witness:
  "\<exists>gi1 gi2. groups_from_user (example_groups [0, 0, 0]) [3003, 1001, 2002] = Inr (Inr gi1) \<and>
    groups_sort gi1 = Some (Inr gi2) \<and>
    groups_to_user 3 gi2 = Inr (Inr (sort [3003, 1001, 2002]))"
proof -
  have "groups_alloc (Some (\<lambda>_. 0)) [] 3 = Some (example_groups [0, 0, 0])"
    by (simp add: groups_alloc_def example_groups_def upt_rec) (simp add: numeral_eq_Suc)
  from groups_sorted_round_trip [OF this, of "[3003, 1001, 2002]" 3] show ?thesis
    by simp
qed

lemma groups_search_spec:
  assumes "gi_ok gi"
  shows "\<exists>b. groups_search (Some gi) grp = Inr b \<and> (b \<longrightarrow> grp \<in> set (gids gi)) \<and>
    (sorted (gids gi) \<and> near (gids gi) grp \<longrightarrow> b = (grp \<in> set (gids gi)))"
proof -
  have "drop 0 (take (nat (ngroups gi)) (gids gi)) = gids gi" using assms by simp
  with search_loop_spec [OF assms, of "nat (ngroups gi)" grp 0] assms show ?thesis
    by (auto simp: groups_search_def gi_ok_def)
qed

lemma groups_search_complete:
  "gi_ok gi \<Longrightarrow> sorted (gids gi) \<Longrightarrow> near (gids gi) grp \<Longrightarrow>
   groups_search (Some gi) grp = Inr (grp \<in> set (gids gi))"
  using groups_search_spec [of gi grp] by auto

text \<open>
  C12: Searching a well-formed group list always ends inside the blocks; a group
  that is reported is a member; and in a sorted list whose numbers lie less than
  \<open>2 ^ 31\<close> from the one sought, every member is reported.
\<close>

theorem groups_search_correct:
  assumes "gi_ok gi"
  shows "\<exists>b. groups_search (Some gi) grp = Inr b \<and> (b \<longrightarrow> grp \<in> set (gids gi)) \<and>
    (sorted (gids gi) \<and> near (gids gi) grp \<longrightarrow> b = (grp \<in> set (gids gi)))"
  using groups_search_spec [OF assms] .

theorem groups_search_correct_witness:
  "groups_search (Some (example_groups [1001, 2002, 3003])) 2002 = Inr True"
  using groups_search_correct [OF example_groups_ok, of "[1001, 2002, 3003]" 2002]
  by (auto simp: gids_example_groups near_def)

text \<open>
  C24: The comparison in the search takes the difference of two unsigned numbers
  as a signed one, so a sorted list with numbers \<open>2 ^ 31\<close> or more apart has members
  that the search does not find.
\<close>

theorem groups_search_misses_members:
  "\<exists>gi grp. gi_ok gi \<and> sorted (gids gi) \<and> grp \<in> set (gids gi) \<and>
            groups_search (Some gi) grp = Inr False"
proof (intro exI conjI)
  let ?gi = "example_groups [1, 0x80000002]"
  show "gi_ok ?gi" "sorted (gids ?gi)" "1 \<in> set (gids ?gi)"
    by (simp_all add: example_groups_ok gids_example_groups)
  have "GROUP_AT ?gi 1 = Inr 0x80000002"
    using GROUP_AT_ok [OF example_groups_ok, of "[1, 0x80000002]" 1]
    by (simp add: gids_example_groups) (simp add: example_groups_def)
  then show "groups_search (Some ?gi) 1 = Inr False"
    by (simp add: groups_search_def example_groups_def search_loop.simps)
qed

end
