(* ===== verification/Capability.thy ===== *)
theory Capability
  imports Prelude
begin

text \<open>
  Capability sets (\<^verbatim>\<open>include/linux/capability.h\<close>): two words of bits, the operations on
  them, and the set of capability numbers a value stands for.  The theory shows that
  the word operations are the set operations.
\<close>

section \<open>Capability sets\<close>

datatype capability =
    CAP_CHOWN | CAP_DAC_OVERRIDE | CAP_DAC_READ_SEARCH | CAP_FOWNER | CAP_FSETID | CAP_KILL
  | CAP_SETGID | CAP_SETUID | CAP_SETPCAP | CAP_LINUX_IMMUTABLE | CAP_NET_BIND_SERVICE
  | CAP_NET_BROADCAST | CAP_NET_ADMIN | CAP_NET_RAW | CAP_IPC_LOCK | CAP_IPC_OWNER
  | CAP_SYS_MODULE | CAP_SYS_RAWIO | CAP_SYS_CHROOT | CAP_SYS_PTRACE | CAP_SYS_PACCT
  | CAP_SYS_ADMIN | CAP_SYS_BOOT | CAP_SYS_NICE | CAP_SYS_RESOURCE | CAP_SYS_TIME
  | CAP_SYS_TTY_CONFIG | CAP_MKNOD | CAP_LEASE | CAP_AUDIT_WRITE | CAP_AUDIT_CONTROL
  | CAP_SETFCAP | CAP_MAC_OVERRIDE | CAP_MAC_ADMIN

primrec cap_nr :: "capability \<Rightarrow> nat" where
  "cap_nr CAP_CHOWN = 0"
| "cap_nr CAP_DAC_OVERRIDE = 1"
| "cap_nr CAP_DAC_READ_SEARCH = 2"
| "cap_nr CAP_FOWNER = 3"
| "cap_nr CAP_FSETID = 4"
| "cap_nr CAP_KILL = 5"
| "cap_nr CAP_SETGID = 6"
| "cap_nr CAP_SETUID = 7"
| "cap_nr CAP_SETPCAP = 8"
| "cap_nr CAP_LINUX_IMMUTABLE = 9"
| "cap_nr CAP_NET_BIND_SERVICE = 10"
| "cap_nr CAP_NET_BROADCAST = 11"
| "cap_nr CAP_NET_ADMIN = 12"
| "cap_nr CAP_NET_RAW = 13"
| "cap_nr CAP_IPC_LOCK = 14"
| "cap_nr CAP_IPC_OWNER = 15"
| "cap_nr CAP_SYS_MODULE = 16"
| "cap_nr CAP_SYS_RAWIO = 17"
| "cap_nr CAP_SYS_CHROOT = 18"
| "cap_nr CAP_SYS_PTRACE = 19"
| "cap_nr CAP_SYS_PACCT = 20"
| "cap_nr CAP_SYS_ADMIN = 21"
| "cap_nr CAP_SYS_BOOT = 22"
| "cap_nr CAP_SYS_NICE = 23"
| "cap_nr CAP_SYS_RESOURCE = 24"
| "cap_nr CAP_SYS_TIME = 25"
| "cap_nr CAP_SYS_TTY_CONFIG = 26"
| "cap_nr CAP_MKNOD = 27"
| "cap_nr CAP_LEASE = 28"
| "cap_nr CAP_AUDIT_WRITE = 29"
| "cap_nr CAP_AUDIT_CONTROL = 30"
| "cap_nr CAP_SETFCAP = 31"
| "cap_nr CAP_MAC_OVERRIDE = 32"
| "cap_nr CAP_MAC_ADMIN = 33"

definition cap_valid :: "nat \<Rightarrow> bool" where
  "cap_valid x \<longleftrightarrow> x \<le> cap_nr CAP_MAC_ADMIN"

definition CAP_TO_INDEX :: "nat \<Rightarrow> nat" where
  "CAP_TO_INDEX x = drop_bit 5 x"

definition CAP_TO_MASK :: "nat \<Rightarrow> u32" where
  "CAP_TO_MASK x = push_bit (x AND 31) 1"

text \<open>A value is the array of two words; \<open>cap_at\<close> reads it.\<close>

datatype kernel_cap_t = Cap (cap0: u32) (cap1: u32)

definition cap_at :: "kernel_cap_t \<Rightarrow> nat \<Rightarrow> u32" where
  "cap_at c i = [cap0 c, cap1 c] ! i"

definition cap_raised :: "kernel_cap_t \<Rightarrow> nat \<Rightarrow> bool" where
  "cap_raised c flag \<longleftrightarrow> cap_at c (CAP_TO_INDEX flag) AND CAP_TO_MASK flag \<noteq> 0"

definition cap_raise :: "kernel_cap_t \<Rightarrow> nat \<Rightarrow> kernel_cap_t" where
  "cap_raise c flag =
     (let m = CAP_TO_MASK flag in
      if CAP_TO_INDEX flag = 0 then Cap (cap0 c OR m) (cap1 c) else Cap (cap0 c) (cap1 c OR m))"

definition cap_lower :: "kernel_cap_t \<Rightarrow> nat \<Rightarrow> kernel_cap_t" where
  "cap_lower c flag =
     (let m = NOT (CAP_TO_MASK flag) in
      if CAP_TO_INDEX flag = 0 then Cap (cap0 c AND m) (cap1 c) else Cap (cap0 c) (cap1 c AND m))"

definition CAP_EMPTY_SET :: kernel_cap_t where
  "CAP_EMPTY_SET = Cap 0 0"

definition CAP_FULL_SET :: kernel_cap_t where
  "CAP_FULL_SET = Cap (NOT 0) (NOT 0)"

definition CAP_INIT_EFF_SET :: kernel_cap_t where
  "CAP_INIT_EFF_SET = Cap (NOT (CAP_TO_MASK (cap_nr CAP_SETPCAP))) (NOT 0)"

definition CAP_FS_MASK_B0 :: u32 where
  "CAP_FS_MASK_B0 =
     CAP_TO_MASK (cap_nr CAP_CHOWN) OR CAP_TO_MASK (cap_nr CAP_MKNOD)
     OR CAP_TO_MASK (cap_nr CAP_DAC_OVERRIDE) OR CAP_TO_MASK (cap_nr CAP_DAC_READ_SEARCH)
     OR CAP_TO_MASK (cap_nr CAP_FOWNER) OR CAP_TO_MASK (cap_nr CAP_FSETID)"

definition CAP_FS_SET :: kernel_cap_t where
  "CAP_FS_SET =
     Cap (CAP_FS_MASK_B0 OR CAP_TO_MASK (cap_nr CAP_LINUX_IMMUTABLE))
         (CAP_TO_MASK (cap_nr CAP_MAC_OVERRIDE))"

definition CAP_NFSD_SET :: kernel_cap_t where
  "CAP_NFSD_SET =
     Cap (CAP_FS_MASK_B0 OR CAP_TO_MASK (cap_nr CAP_SYS_RESOURCE))
         (CAP_TO_MASK (cap_nr CAP_MAC_OVERRIDE))"

definition cap_combine :: "kernel_cap_t \<Rightarrow> kernel_cap_t \<Rightarrow> kernel_cap_t" where
  "cap_combine a b = Cap (cap0 a OR cap0 b) (cap1 a OR cap1 b)"

definition cap_intersect :: "kernel_cap_t \<Rightarrow> kernel_cap_t \<Rightarrow> kernel_cap_t" where
  "cap_intersect a b = Cap (cap0 a AND cap0 b) (cap1 a AND cap1 b)"

definition cap_drop :: "kernel_cap_t \<Rightarrow> kernel_cap_t \<Rightarrow> kernel_cap_t" where
  "cap_drop a b = Cap (cap0 a AND NOT (cap0 b)) (cap1 a AND NOT (cap1 b))"

definition cap_invert :: "kernel_cap_t \<Rightarrow> kernel_cap_t" where
  "cap_invert c = Cap (NOT (cap0 c)) (NOT (cap1 c))"

definition cap_isclear :: "kernel_cap_t \<Rightarrow> bool" where
  "cap_isclear a = (if cap0 a \<noteq> 0 then False else if cap1 a \<noteq> 0 then False else True)"

definition cap_issubset :: "kernel_cap_t \<Rightarrow> kernel_cap_t \<Rightarrow> bool" where
  "cap_issubset a b = cap_isclear (cap_drop a b)"

definition cap_is_fs_cap :: "nat \<Rightarrow> bool" where
  "cap_is_fs_cap x \<longleftrightarrow> CAP_TO_MASK x AND cap_at CAP_FS_SET (CAP_TO_INDEX x) \<noteq> 0"

definition cap_drop_fs_set :: "kernel_cap_t \<Rightarrow> kernel_cap_t" where
  "cap_drop_fs_set a = cap_drop a CAP_FS_SET"

definition cap_raise_fs_set :: "kernel_cap_t \<Rightarrow> kernel_cap_t \<Rightarrow> kernel_cap_t" where
  "cap_raise_fs_set a permitted = cap_combine a (cap_intersect permitted CAP_FS_SET)"

definition cap_drop_nfsd_set :: "kernel_cap_t \<Rightarrow> kernel_cap_t" where
  "cap_drop_nfsd_set a = cap_drop a CAP_NFSD_SET"

definition cap_raise_nfsd_set :: "kernel_cap_t \<Rightarrow> kernel_cap_t \<Rightarrow> kernel_cap_t" where
  "cap_raise_nfsd_set a permitted = cap_combine a (cap_intersect permitted CAP_NFSD_SET)"

section \<open>The set a value stands for\<close>

definition caps :: "kernel_cap_t \<Rightarrow> nat set" where
  "caps c = {i. i < 32 \<and> bit (cap0 c) i} \<union> {i. 32 \<le> i \<and> i < 64 \<and> bit (cap1 c) (i - 32)}"

lemma caps_lt: "i \<in> caps c \<Longrightarrow> i < 64"
  by (auto simp: caps_def)

lemma mask_bit: "w AND CAP_TO_MASK i \<noteq> 0 \<longleftrightarrow> bit w (i mod 32)"
proof -
  have "i AND 31 = i mod 32"
    using take_bit_eq_mask [of 5 i] by (simp add: take_bit_eq_mod mask_eq_exp_minus_1 ac_simps)
  then have m: "CAP_TO_MASK i = 2 ^ (i mod 32)" by (simp add: CAP_TO_MASK_def push_bit_eq_mult)
  have "bit (w AND 2 ^ (i mod 32)) n \<longleftrightarrow> n = i mod 32 \<and> bit w n" for n
    by (auto simp: bit_and_iff bit_exp_iff bit_imp_le_length dest: bit_imp_le_length)
  then show ?thesis unfolding m by (metis bit_0_eq bot_apply bot_bool_def bit_eqI)
qed

lemma cap_raised_caps: "i < 64 \<Longrightarrow> cap_raised c i \<longleftrightarrow> i \<in> caps c"
proof -
  assume i: "i < 64"
  have "drop_bit 5 i = i div 32" by (simp add: drop_bit_eq_div)
  then show ?thesis
    using i by (cases "i < 32") (auto simp: cap_raised_def cap_at_def CAP_TO_INDEX_def mask_bit caps_def
        le_div_geq le_mod_geq)
qed

lemma caps_simps [simp]:
  "caps CAP_EMPTY_SET = {}"
  "caps CAP_FULL_SET = {i. i < 64}"
  "caps (cap_combine a b) = caps a \<union> caps b"
  "caps (cap_intersect a b) = caps a \<inter> caps b"
  "caps (cap_drop a b) = caps a - caps b"
  "caps (cap_invert a) = {i. i < 64} - caps a"
  by (auto simp: caps_def CAP_EMPTY_SET_def CAP_FULL_SET_def cap_combine_def cap_intersect_def
      cap_drop_def cap_invert_def bit_or_iff bit_and_iff bit_not_iff not_less)

lemma caps_empty_iff: "caps c = {} \<longleftrightarrow> c = CAP_EMPTY_SET"
proof
  assume e: "caps c = {}"
  have "\<not> bit (cap0 c) i" if "i < 32" for i using e that by (auto simp: caps_def)
  moreover have "\<not> bit (cap1 c) i" if "i < 32" for i
  proof
    assume "bit (cap1 c) i"
    then have "i + 32 \<in> caps c" using that by (simp add: caps_def)
    with e show False by simp
  qed
  ultimately show "c = CAP_EMPTY_SET"
    by (cases c) (auto simp: CAP_EMPTY_SET_def bit_eq_iff)
qed simp

lemma cap_isclear_iff: "cap_isclear c \<longleftrightarrow> caps c = {}"
  by (cases c) (auto simp: caps_empty_iff cap_isclear_def CAP_EMPTY_SET_def)

lemma cap_issubset_iff [simp]: "cap_issubset a b \<longleftrightarrow> caps a \<subseteq> caps b"
  by (auto simp: cap_issubset_def cap_isclear_iff)

lemma caps_cap_lower: "i < 64 \<Longrightarrow> caps (cap_lower c i) = caps c - {i}"
proof -
  assume i: "i < 64"
  have "drop_bit 5 i = i div 32" by (simp add: drop_bit_eq_div)
  moreover have "i AND 31 = i mod 32"
    using take_bit_eq_mask [of 5 i] by (simp add: take_bit_eq_mod mask_eq_exp_minus_1 ac_simps)
  then have "CAP_TO_MASK i = 2 ^ (i mod 32)" by (simp add: CAP_TO_MASK_def push_bit_eq_mult)
  ultimately show ?thesis
    using i by (cases "i < 32")
      (auto simp: cap_lower_def CAP_TO_INDEX_def caps_def bit_and_iff bit_not_iff bit_exp_iff
        le_div_geq le_mod_geq not_less)
qed

lemma cap_nr_lt: "cap_nr c < 64"
  by (cases c) simp_all

text \<open>Every named capability passes the range check of \<^verbatim>\<open>capable\<close>.\<close>

lemma cap_nr_valid: "cap_valid (cap_nr c)"
  by (cases c) (simp_all add: cap_valid_def)

end
