(* ===== verification/Cred.thy ===== *)
theory Cred
  imports Group_Info Capability
begin

text \<open>
  Credentials and the calls that change them: the set-user-id and set-group-id calls
  (\<^verbatim>\<open>kernel/sys.c\<close>), capability sets (\<^verbatim>\<open>kernel/capability.c\<close>), the capability hooks
  (\<^verbatim>\<open>security/commoncap.c\<close>), group lists (\<^verbatim>\<open>kernel/groups.c\<close>), installing, copying and
  dropping credentials (\<^verbatim>\<open>kernel/cred.c\<close>, \<^verbatim>\<open>kernel/fork.c\<close>, \<^verbatim>\<open>kernel/exit.c\<close>) and
  what \<^verbatim>\<open>execve\<close> does to them (\<^verbatim>\<open>fs/exec.c\<close>).  This theory holds the definitions.

  \<open>fcaps\<close> is the configuration option \<^verbatim>\<open>CONFIG_SECURITY_FILE_CAPABILITIES\<close>.  The other
  options are those of the board: no security module, no key rings, no auditing, and
  the Android network groups.  Arguments called \<open>mem\<close> say whether an allocation
  succeeds.
\<close>

section \<open>Tasks and credentials\<close>

type_synonym uid_t = u32

text \<open>\<open>user\<close> is the number of the \<^verbatim>\<open>user_struct\<close> the pointer refers to.\<close>

record cred =
  uid :: uid_t
  gid :: gid_t
  suid :: uid_t
  sgid :: gid_t
  euid :: uid_t
  egid :: gid_t
  fsuid :: uid_t
  fsgid :: gid_t
  securebits :: u32
  cap_inheritable :: kernel_cap_t
  cap_permitted :: kernel_cap_t
  cap_effective :: kernel_cap_t
  cap_bset :: kernel_cap_t
  user :: uid_t
  groups :: group_info

text \<open>
  The parts of a task that the calls read or write.  \<open>superpriv\<close> is the flag
  \<^verbatim>\<open>PF_SUPERPRIV\<close>, \<open>mm\<close> the number of its address space and \<open>rlim_nproc\<close> its limit
  \<^verbatim>\<open>RLIMIT_NPROC\<close>.
\<close>

record task =
  pid :: nat
  cred :: cred
  superpriv :: bool
  pdeath_signal :: u32
  mm :: "nat option"
  ptrace :: u32
  rlim_nproc :: nat

text \<open>
  The running task, the other tasks by number, how many processes each user has,
  how each address space may be dumped, the sysctl \<^verbatim>\<open>suid_dumpable\<close>, and whether file
  capabilities were left enabled at boot.
\<close>

record kernel =
  current :: task
  others :: "nat \<rightharpoonup> task"
  processes :: "uid_t \<Rightarrow> int"
  dumpable :: "nat \<Rightarrow> int"
  suid_dumpable :: int
  file_caps_enabled :: bool

type_synonym syscall = "kernel \<Rightarrow> (errno + u32) \<times> kernel"

abbreviation current_cred :: "kernel \<Rightarrow> cred" where
  "current_cred k \<equiv> cred (current k)"

section \<open>Securebits\<close>

abbreviation "SECURE_NOROOT \<equiv> (0 :: nat)"
abbreviation "SECURE_NO_SETUID_FIXUP \<equiv> (2 :: nat)"
abbreviation "SECURE_KEEP_CAPS \<equiv> (4 :: nat)"
abbreviation "SECURE_KEEP_CAPS_LOCKED \<equiv> (5 :: nat)"

definition issecure_mask :: "nat \<Rightarrow> u32" where
  "issecure_mask x = push_bit x 1"

definition issecure :: "cred \<Rightarrow> nat \<Rightarrow> bool" where
  "issecure c x \<longleftrightarrow> issecure_mask x AND securebits c \<noteq> 0"

definition SECURE_ALL_BITS :: u32 where
  "SECURE_ALL_BITS =
     issecure_mask SECURE_NOROOT OR issecure_mask SECURE_NO_SETUID_FIXUP
     OR issecure_mask SECURE_KEEP_CAPS"

definition SECURE_ALL_LOCKS :: u32 where
  "SECURE_ALL_LOCKS = push_bit 1 SECURE_ALL_BITS"

text \<open>The credentials of the first task.\<close>

definition init_cred :: "bool \<Rightarrow> cred" where
  "init_cred fcaps =
     \<lparr>uid = 0, gid = 0, suid = 0, sgid = 0, euid = 0, egid = 0, fsuid = 0, fsgid = 0, securebits = 0,
      cap_inheritable = CAP_EMPTY_SET, cap_permitted = CAP_FULL_SET, cap_effective = CAP_INIT_EFF_SET,
      cap_bset = if fcaps then CAP_FULL_SET else CAP_INIT_EFF_SET, user = 0, groups = init_groups\<rparr>"

section \<open>Capability checks\<close>

definition in_group_p :: "cred \<Rightarrow> gid_t \<Rightarrow> crash + bool" where
  "in_group_p c grp = (if grp \<noteq> fsgid c then groups_search (Some (groups c)) grp else Inr True)"

definition in_egroup_p :: "cred \<Rightarrow> gid_t \<Rightarrow> crash + bool" where
  "in_egroup_p c grp = (if grp \<noteq> egid c then groups_search (Some (groups c)) grp else Inr True)"

abbreviation "AID_NET_RAW \<equiv> (3004 :: gid_t)"
abbreviation "AID_NET_ADMIN \<equiv> (3005 :: gid_t)"

text \<open>
  \<^verbatim>\<open>cap_capable\<close> on the credentials \<open>c\<close>; the groups it looks at are those of the running
  task, whose credentials are \<open>cur\<close>.  The search of the groups of a task that the calls below
  build never crashes (\<open>in_egroup_p_returns\<close> in \<open>Cred_Safe\<close>).
\<close>

definition cap_capable :: "cred \<Rightarrow> cred \<Rightarrow> capability \<Rightarrow> errno option" where
  "cap_capable cur c cap =
     (if cap = CAP_NET_RAW \<and> in_egroup_p cur AID_NET_RAW = Inr True then None
      else if cap = CAP_NET_ADMIN \<and> in_egroup_p cur AID_NET_ADMIN = Inr True then None
      else if cap_raised (cap_effective c) (cap_nr cap) then None else Some EPERM)"

text \<open>
  \<^verbatim>\<open>capable\<close>.  Its range check on the number is \<open>cap_nr_valid\<close>.
\<close>

definition capable :: "capability \<Rightarrow> kernel \<Rightarrow> bool \<times> kernel" where
  "capable cap k =
     (if cap_capable (current_cred k) (current_cred k) cap = None
      then (True, k\<lparr>current := (current k)\<lparr>superpriv := True\<rparr>\<rparr>)
      else (False, k))"

text \<open>The condition \<^verbatim>\<open>b || capable(cap)\<close>, which asks for the capability only if needed.\<close>

definition or_capable :: "bool \<Rightarrow> capability \<Rightarrow> kernel \<Rightarrow> bool \<times> kernel" where
  "or_capable b cap k = (if b then (True, k) else capable cap k)"

definition has_capability :: "kernel \<Rightarrow> task \<Rightarrow> capability \<Rightarrow> bool" where
  "has_capability k t cap \<longleftrightarrow> cap_capable (current_cred k) (cred t) cap = None"

section \<open>Installing credentials\<close>

definition set_dumpable :: "nat \<Rightarrow> int \<Rightarrow> kernel \<Rightarrow> kernel" where
  "set_dumpable m v k = (if v \<in> {0, 1, 2} then k\<lparr>dumpable := (dumpable k)(m := v)\<rparr> else k)"

text \<open>
  \<^verbatim>\<open>prepare_creds\<close> copies the credentials of the running task; \<^verbatim>\<open>commit_creds\<close> installs the
  changed copy.
\<close>

definition dumpability_changes :: "cred \<Rightarrow> cred \<Rightarrow> bool" where
  "dumpability_changes old new \<longleftrightarrow>
     euid old \<noteq> euid new \<or> egid old \<noteq> egid new \<or> fsuid old \<noteq> fsuid new \<or> fsgid old \<noteq> fsgid new \<or>
     \<not> cap_issubset (cap_permitted new) (cap_permitted old)"

definition commit_creds :: "cred \<Rightarrow> syscall" where
  "commit_creds new k =
     (let old = current_cred k;
          k = (if dumpability_changes old new
               then (case mm (current k) of
                       None \<Rightarrow> k
                     | Some m \<Rightarrow> set_dumpable m (suid_dumpable k) k)
                    \<lparr>current := (current k)\<lparr>pdeath_signal := 0\<rparr>\<rparr>
               else k);
          k = (if user new \<noteq> user old
               then k\<lparr>processes := (processes k)(user new := processes k (user new) + 1)\<rparr> else k);
          k = k\<lparr>current := (current k)\<lparr>cred := new\<rparr>\<rparr>;
          k = (if user new \<noteq> user old
               then k\<lparr>processes := (processes k)(user old := processes k (user old) - 1)\<rparr> else k)
      in (Inr 0, k))"

section \<open>The capability hooks of the identity calls\<close>

abbreviation "LSM_SETID_ID \<equiv> (1 :: u32)"
abbreviation "LSM_SETID_RE \<equiv> (2 :: u32)"
abbreviation "LSM_SETID_RES \<equiv> (4 :: u32)"
abbreviation "LSM_SETID_FS \<equiv> (8 :: u32)"

definition cap_emulate_setxuid :: "cred \<Rightarrow> cred \<Rightarrow> cred" where
  "cap_emulate_setxuid new old =
     (let new = (if (uid old = 0 \<or> euid old = 0 \<or> suid old = 0) \<and>
                    (uid new \<noteq> 0 \<and> euid new \<noteq> 0 \<and> suid new \<noteq> 0) \<and>
                    \<not> issecure old SECURE_KEEP_CAPS
                 then new\<lparr>cap_permitted := CAP_EMPTY_SET, cap_effective := CAP_EMPTY_SET\<rparr>
                 else new);
          new = (if euid old = 0 \<and> euid new \<noteq> 0 then new\<lparr>cap_effective := CAP_EMPTY_SET\<rparr> else new)
      in if euid old \<noteq> 0 \<and> euid new = 0 then new\<lparr>cap_effective := cap_permitted new\<rparr> else new)"

definition cap_task_fix_setuid :: "cred \<Rightarrow> cred \<Rightarrow> u32 \<Rightarrow> errno + cred" where
  "cap_task_fix_setuid new old flags =
     (if flags = LSM_SETID_RE \<or> flags = LSM_SETID_ID \<or> flags = LSM_SETID_RES then
        Inr (if \<not> issecure old SECURE_NO_SETUID_FIXUP then cap_emulate_setxuid new old else new)
      else if flags = LSM_SETID_FS then
        Inr (if \<not> issecure old SECURE_NO_SETUID_FIXUP then
               (let new = (if fsuid old = 0 \<and> fsuid new \<noteq> 0
                           then new\<lparr>cap_effective := cap_drop_fs_set (cap_effective new)\<rparr> else new)
                in if fsuid old \<noteq> 0 \<and> fsuid new = 0
                   then new\<lparr>cap_effective :=
                              cap_raise_fs_set (cap_effective new) (cap_permitted new)\<rparr>
                   else new)
             else new)
      else Inl EINVAL)"

section \<open>Setting user and group numbers\<close>

definition setregid :: "bool \<Rightarrow> gid_t \<Rightarrow> gid_t \<Rightarrow> syscall" where
  "setregid mem r e k =
     (if \<not> mem then (Inl ENOMEM, k)
      else
        let old = current_cred k;
            (ok, k) = or_capable (r = -1 \<or> gid old = r \<or> egid old = r) CAP_SETGID k;
            new = (if r \<noteq> -1 then old\<lparr>gid := r\<rparr> else old)
        in if \<not> ok then (Inl EPERM, k)
        else
          let (ok, k) = or_capable (e = -1 \<or> gid old = e \<or> egid old = e \<or> sgid old = e) CAP_SETGID k;
              new = (if e \<noteq> -1 then new\<lparr>egid := e\<rparr> else new)
          in if \<not> ok then (Inl EPERM, k)
          else
            let new = (if r \<noteq> -1 \<or> e \<noteq> -1 \<and> e \<noteq> gid old then new\<lparr>sgid := egid new\<rparr> else new)
            in commit_creds (new\<lparr>fsgid := egid new\<rparr>) k)"

definition setgid :: "bool \<Rightarrow> gid_t \<Rightarrow> syscall" where
  "setgid mem g k =
     (if \<not> mem then (Inl ENOMEM, k)
      else
        let old = current_cred k; new = old;
            (ok, k) = capable CAP_SETGID k
        in if ok then commit_creds (new\<lparr>fsgid := g, sgid := g, egid := g, gid := g\<rparr>) k
           else if g = gid old \<or> g = sgid old then commit_creds (new\<lparr>fsgid := g, egid := g\<rparr>) k
           else (Inl EPERM, k))"

text \<open>
  \<^verbatim>\<open>set_user\<close>.  \<^verbatim>\<open>task_can_switch_user\<close> always succeeds without user scheduling; user 0 is
  \<^verbatim>\<open>INIT_USER\<close>.
\<close>

definition set_user :: "bool \<Rightarrow> cred \<Rightarrow> kernel \<Rightarrow> errno + cred" where
  "set_user umem new k =
     (if \<not> umem then Inl EAGAIN
      else if int (rlim_nproc (current k)) \<le> processes k (uid new) \<and> uid new \<noteq> 0 then Inl EAGAIN
      else Inr (new\<lparr>user := uid new\<rparr>))"

text \<open>The end of the calls that set user numbers: the capability hook, then the commit.\<close>

definition fix_and_commit :: "errno + cred \<Rightarrow> syscall" where
  "fix_and_commit new k =
     (case new of Inl e \<Rightarrow> (Inl e, k) | Inr new \<Rightarrow> commit_creds new k)"

definition setreuid :: "bool \<Rightarrow> bool \<Rightarrow> uid_t \<Rightarrow> uid_t \<Rightarrow> syscall" where
  "setreuid mem umem r e k =
     (if \<not> mem then (Inl ENOMEM, k)
      else
        let old = current_cred k;
            new = (if r \<noteq> -1 then old\<lparr>uid := r\<rparr> else old);
            (ok, k) = or_capable (r = -1 \<or> uid old = r \<or> euid old = r) CAP_SETUID k
        in if \<not> ok then (Inl EPERM, k)
        else
          let new = (if e \<noteq> -1 then new\<lparr>euid := e\<rparr> else new);
              (ok, k) = or_capable (e = -1 \<or> uid old = e \<or> euid old = e \<or> suid old = e) CAP_SETUID k
          in if \<not> ok then (Inl EPERM, k)
          else
            fix_and_commit
              (bindE (if uid new \<noteq> uid old then set_user umem new k else Inr new) (\<lambda>new.
                 let new = (if r \<noteq> -1 \<or> e \<noteq> -1 \<and> e \<noteq> uid old then new\<lparr>suid := euid new\<rparr> else new)
                 in cap_task_fix_setuid (new\<lparr>fsuid := euid new\<rparr>) old LSM_SETID_RE)) k)"

definition setuid :: "bool \<Rightarrow> bool \<Rightarrow> uid_t \<Rightarrow> syscall" where
  "setuid mem umem u k =
     (if \<not> mem then (Inl ENOMEM, k)
      else
        let old = current_cred k; new = old;
            (ok, k) = capable CAP_SETUID k
        in if \<not> ok \<and> u \<noteq> uid old \<and> u \<noteq> suid new then (Inl EPERM, k)
        else
          fix_and_commit
            (bindE (if ok then
                      let new = new\<lparr>uid := u, suid := u\<rparr>
                      in if u \<noteq> uid old then set_user umem new k else Inr new
                    else Inr new)
               (\<lambda>new. cap_task_fix_setuid (new\<lparr>euid := u, fsuid := u\<rparr>) old LSM_SETID_ID)) k)"

definition setresuid :: "bool \<Rightarrow> bool \<Rightarrow> uid_t \<Rightarrow> uid_t \<Rightarrow> uid_t \<Rightarrow> syscall" where
  "setresuid mem umem r e s k =
     (if \<not> mem then (Inl ENOMEM, k)
      else
        let old = current_cred k; new = old;
            own = (\<lambda>u. u = -1 \<or> u = uid old \<or> u = euid old \<or> u = suid old);
            (ok, k) = capable CAP_SETUID k
        in if \<not> ok \<and> \<not> (own r \<and> own e \<and> own s) then (Inl EPERM, k)
        else
          fix_and_commit
            (bindE (if r \<noteq> -1 then
                      let new = new\<lparr>uid := r\<rparr>
                      in if r \<noteq> uid old then set_user umem new k else Inr new
                    else Inr new)
               (\<lambda>new.
                 let new = (if e \<noteq> -1 then new\<lparr>euid := e\<rparr> else new);
                     new = (if s \<noteq> -1 then new\<lparr>suid := s\<rparr> else new)
                 in cap_task_fix_setuid (new\<lparr>fsuid := euid new\<rparr>) old LSM_SETID_RES)) k)"

definition setresgid :: "bool \<Rightarrow> gid_t \<Rightarrow> gid_t \<Rightarrow> gid_t \<Rightarrow> syscall" where
  "setresgid mem r e s k =
     (if \<not> mem then (Inl ENOMEM, k)
      else
        let old = current_cred k; new = old;
            own = (\<lambda>g. g = -1 \<or> g = gid old \<or> g = egid old \<or> g = sgid old);
            (ok, k) = capable CAP_SETGID k
        in if \<not> ok \<and> \<not> (own r \<and> own e \<and> own s) then (Inl EPERM, k)
        else
          let new = (if r \<noteq> -1 then new\<lparr>gid := r\<rparr> else new);
              new = (if e \<noteq> -1 then new\<lparr>egid := e\<rparr> else new);
              new = (if s \<noteq> -1 then new\<lparr>sgid := s\<rparr> else new)
          in commit_creds (new\<lparr>fsgid := egid new\<rparr>) k)"

definition setfsuid :: "bool \<Rightarrow> uid_t \<Rightarrow> syscall" where
  "setfsuid mem u k =
     (let old = current_cred k; old_fsuid = fsuid old in
      if \<not> mem then (Inr old_fsuid, k)
      else
        let (ok, k) = or_capable (u = uid old \<or> u = euid old \<or> u = suid old \<or> u = fsuid old)
                        CAP_SETUID k
        in if ok \<and> u \<noteq> old_fsuid then
             (case cap_task_fix_setuid (old\<lparr>fsuid := u\<rparr>) old LSM_SETID_FS of
                Inl e \<Rightarrow> (Inr old_fsuid, k)
              | Inr new \<Rightarrow> (Inr old_fsuid, snd (commit_creds new k)))
           else (Inr old_fsuid, k))"

definition setfsgid :: "bool \<Rightarrow> gid_t \<Rightarrow> syscall" where
  "setfsgid mem g k =
     (let old = current_cred k; old_fsgid = fsgid old in
      if \<not> mem then (Inr old_fsgid, k)
      else
        let (ok, k) = or_capable (g = gid old \<or> g = egid old \<or> g = sgid old \<or> g = fsgid old)
                        CAP_SETGID k
        in if ok \<and> g \<noteq> old_fsgid then (Inr old_fsgid, snd (commit_creds (old\<lparr>fsgid := g\<rparr>) k))
           else (Inr old_fsgid, k))"

section \<open>Supplementary groups\<close>

text \<open>
  \<^verbatim>\<open>set_groups\<close> on a filled group list, \<^verbatim>\<open>set_current_groups\<close>, and the two calls.  The
  arguments \<open>gmem\<close> and \<open>pages\<close> are the memory \<^verbatim>\<open>groups_alloc\<close> gets and \<open>user\<close> is the readable
  part of the caller's array.
\<close>

definition set_groups :: "cred \<Rightarrow> group_info \<Rightarrow> (crash + cred) option" where
  "set_groups new gi = bindR (groups_sort gi) (\<lambda>gi. Some (Inr (new\<lparr>groups := gi\<rparr>)))"

definition set_current_groups ::
  "bool \<Rightarrow> group_info \<Rightarrow> kernel \<Rightarrow> (crash + (errno + u32) \<times> kernel) option" where
  "set_current_groups mem gi k =
     (if \<not> mem then Some (Inr (Inl ENOMEM, k))
      else bindR (set_groups (current_cred k) gi) (\<lambda>new. Some (Inr (commit_creds new k))))"

definition setgroups ::
  "bool \<Rightarrow> (nat \<Rightarrow> gid_t) option \<Rightarrow> (nat \<Rightarrow> gid_t) option list \<Rightarrow> int \<Rightarrow> gid_t list \<Rightarrow> kernel \<Rightarrow>
   (crash + (errno + u32) \<times> kernel) option" where
  "setgroups mem gmem pages gidsetsize usr k =
     (let (ok, k) = capable CAP_SETGID k in
      if \<not> ok then Some (Inr (Inl EPERM, k))
      else if gidsetsize < 0 \<or> NGROUPS_MAX < gidsetsize then Some (Inr (Inl EINVAL, k))
      else case groups_alloc gmem pages gidsetsize of
             None \<Rightarrow> Some (Inr (Inl ENOMEM, k))
           | Some gi \<Rightarrow>
               bindR (Some (groups_from_user gi usr)) (\<lambda>r.
                 case r of
                   Inl e \<Rightarrow> Some (Inr (Inl e, k))
                 | Inr gi \<Rightarrow> set_current_groups mem gi k))"

text \<open>\<^verbatim>\<open>getgroups\<close> returns the number of groups and what it wrote to the user.\<close>

definition getgroups :: "int \<Rightarrow> nat \<Rightarrow> kernel \<Rightarrow> crash + errno + (int \<times> gid_t list)" where
  "getgroups gidsetsize room k =
     (if gidsetsize < 0 then Inr (Inl EINVAL)
      else
        let gi = groups (current_cred k); i = ngroups gi in
        if gidsetsize \<noteq> 0 then
          if gidsetsize < i then Inr (Inl EINVAL)
          else bindE (groups_to_user room gi) (\<lambda>r. Inr (bindE r (\<lambda>out. Inr (i, out))))
        else Inr (Inr (i, [])))"

section \<open>Getting and setting capabilities\<close>

record user_cap_data =
  ud_effective :: u32
  ud_permitted :: u32
  ud_inheritable :: u32

abbreviation "CAPABILITY_VERSION_1 \<equiv> (0x19980330 :: u32)"
abbreviation "CAPABILITY_VERSION_2 \<equiv> (0x20071026 :: u32)"
abbreviation "CAPABILITY_VERSION_3 \<equiv> (0x20080522 :: u32)"

text \<open>
  The header is \<^term>\<open>None\<close> where the user's memory cannot be read.  The second result is
  the version the call leaves there.
\<close>

definition cap_validate_magic :: "u32 option \<Rightarrow> bool \<Rightarrow> (errno + nat) \<times> u32 option" where
  "cap_validate_magic version writable =
     (case version of
        None \<Rightarrow> (Inl EFAULT, None)
      | Some v \<Rightarrow>
          (if v = CAPABILITY_VERSION_1 then (Inr 1, Some v)
           else if v = CAPABILITY_VERSION_2 \<or> v = CAPABILITY_VERSION_3 then (Inr 2, Some v)
           else if \<not> writable then (Inl EFAULT, Some v)
           else (Inl EINVAL, Some CAPABILITY_VERSION_3)))"

definition cap_capget :: "task \<Rightarrow> kernel_cap_t \<times> kernel_cap_t \<times> kernel_cap_t" where
  "cap_capget t = (cap_effective (cred t), cap_inheritable (cred t), cap_permitted (cred t))"

definition cap_get_target_pid ::
  "int \<Rightarrow> kernel \<Rightarrow> errno + kernel_cap_t \<times> kernel_cap_t \<times> kernel_cap_t" where
  "cap_get_target_pid p k =
     (if p \<noteq> 0 \<and> p \<noteq> int (pid (current k)) then
        case others k (nat p) of None \<Rightarrow> Inl ESRCH | Some t \<Rightarrow> Inr (cap_capget t)
      else Inr (cap_capget (current k)))"

text \<open>\<^verbatim>\<open>capget\<close> for a writable header and \<open>room\<close> writable entries of the data array.\<close>

definition capget ::
  "u32 option \<Rightarrow> int option \<Rightarrow> nat \<Rightarrow> kernel \<Rightarrow> errno + user_cap_data list" where
  "capget version hdr_pid room k =
     bindE (fst (cap_validate_magic version True)) (\<lambda>tocopy.
       case hdr_pid of
         None \<Rightarrow> Inl EFAULT
       | Some p \<Rightarrow>
           (if p < 0 then Inl EINVAL
            else bindE (cap_get_target_pid p k) (\<lambda>(pE, pI, pP).
              if room < tocopy then Inl EFAULT
              else Inr (map (\<lambda>i. \<lparr>ud_effective = cap_at pE i, ud_permitted = cap_at pP i,
                                  ud_inheritable = cap_at pI i\<rparr>) [0..<tocopy]))))"

definition cap_inh_is_capped :: "bool \<Rightarrow> cred \<Rightarrow> bool" where
  "cap_inh_is_capped fcaps cur \<longleftrightarrow> \<not> (fcaps \<and> cap_capable cur cur CAP_SETPCAP = None)"

definition cap_capset ::
  "bool \<Rightarrow> cred \<Rightarrow> cred \<Rightarrow> kernel_cap_t \<Rightarrow> kernel_cap_t \<Rightarrow> kernel_cap_t \<Rightarrow> errno + cred" where
  "cap_capset fcaps new old effective inheritable permitted =
     (if cap_inh_is_capped fcaps old \<and>
         \<not> cap_issubset inheritable (cap_combine (cap_inheritable old) (cap_permitted old))
      then Inl EPERM
      else if \<not> cap_issubset inheritable (cap_combine (cap_inheritable old) (cap_bset old))
      then Inl EPERM
      else if \<not> cap_issubset permitted (cap_permitted old) then Inl EPERM
      else if \<not> cap_issubset effective permitted then Inl EPERM
      else Inr (new\<lparr>cap_effective := effective, cap_inheritable := inheritable,
                    cap_permitted := permitted\<rparr>))"

text \<open>The words the user passed, with zeros for those of a short header version.\<close>

definition cap_from_user :: "(user_cap_data \<Rightarrow> u32) \<Rightarrow> user_cap_data list \<Rightarrow> nat \<Rightarrow> kernel_cap_t" where
  "cap_from_user f kdata tocopy =
     Cap (if 0 < tocopy then f (kdata ! 0) else 0) (if 1 < tocopy then f (kdata ! 1) else 0)"

definition capset ::
  "bool \<Rightarrow> bool \<Rightarrow> u32 option \<Rightarrow> bool \<Rightarrow> int option \<Rightarrow> user_cap_data list \<Rightarrow> syscall" where
  "capset fcaps mem version writable hdr_pid data k =
     (case fst (cap_validate_magic version writable) of
        Inl e \<Rightarrow> (Inl e, k)
      | Inr tocopy \<Rightarrow>
          (case hdr_pid of
             None \<Rightarrow> (Inl EFAULT, k)
           | Some p \<Rightarrow>
               (if p \<noteq> 0 \<and> p \<noteq> int (pid (current k)) then (Inl EPERM, k)
                else if length data < tocopy then (Inl EFAULT, k)
                else if \<not> mem then (Inl ENOMEM, k)
                else fix_and_commit
                  (cap_capset fcaps (current_cred k) (current_cred k)
                     (cap_from_user ud_effective data tocopy)
                     (cap_from_user ud_inheritable data tocopy)
                     (cap_from_user ud_permitted data tocopy)) k)))"

section \<open>Process control\<close>

abbreviation "PR_GET_KEEPCAPS \<equiv> (7 :: int)"
abbreviation "PR_SET_KEEPCAPS \<equiv> (8 :: int)"
abbreviation "PR_CAPBSET_READ \<equiv> (23 :: int)"
abbreviation "PR_CAPBSET_DROP \<equiv> (24 :: int)"
abbreviation "PR_GET_SECUREBITS \<equiv> (27 :: int)"
abbreviation "PR_SET_SECUREBITS \<equiv> (28 :: int)"

definition cap_prctl_drop :: "u32 \<Rightarrow> kernel \<Rightarrow> (errno + cred) \<times> kernel" where
  "cap_prctl_drop cap k =
     (let (ok, k) = capable CAP_SETPCAP k in
      if \<not> ok then (Inl EPERM, k)
      else if \<not> cap_valid (unat cap) then (Inl EINVAL, k)
      else (Inr ((current_cred k)\<lparr>cap_bset := cap_lower (cap_bset (current_cred k)) (unat cap)\<rparr>), k))"

definition cap_task_prctl :: "bool \<Rightarrow> bool \<Rightarrow> int \<Rightarrow> u32 \<Rightarrow> syscall" where
  "cap_task_prctl fcaps mem opt arg2 k =
     (let new = current_cred k in
      if \<not> mem then (Inl ENOMEM, k)
      else if opt = PR_CAPBSET_READ then
        (if \<not> cap_valid (unat arg2) then (Inl EINVAL, k)
         else (Inr (if cap_raised (cap_bset new) (unat arg2) then 1 else 0), k))
      else if fcaps \<and> opt = PR_CAPBSET_DROP then
        (let (r, k) = cap_prctl_drop arg2 k in fix_and_commit r k)
      else if fcaps \<and> opt = PR_SET_SECUREBITS then
        (if drop_bit 1 (securebits new AND SECURE_ALL_LOCKS) AND (securebits new XOR arg2) \<noteq> 0 \<or>
            securebits new AND SECURE_ALL_LOCKS AND NOT arg2 \<noteq> 0 \<or>
            arg2 AND NOT (SECURE_ALL_LOCKS OR SECURE_ALL_BITS) \<noteq> 0 \<or>
            cap_capable (current_cred k) (current_cred k) CAP_SETPCAP \<noteq> None
         then (Inl EPERM, k)
         else commit_creds (new\<lparr>securebits := arg2\<rparr>) k)
      else if fcaps \<and> opt = PR_GET_SECUREBITS then (Inr (securebits new), k)
      else if opt = PR_GET_KEEPCAPS then
        (Inr (if issecure new SECURE_KEEP_CAPS then 1 else 0), k)
      else if opt = PR_SET_KEEPCAPS then
        (if 1 < arg2 then (Inl EINVAL, k)
         else if issecure new SECURE_KEEP_CAPS_LOCKED then (Inl EPERM, k)
         else if arg2 \<noteq> 0
         then commit_creds (new\<lparr>securebits := securebits new OR issecure_mask SECURE_KEEP_CAPS\<rparr>) k
         else commit_creds
                (new\<lparr>securebits := securebits new AND NOT (issecure_mask SECURE_KEEP_CAPS)\<rparr>) k)
      else (Inl ENOSYS, k))"

end
