(* ===== verification/Exec_Cred.thy ===== *)
theory Exec_Cred
  imports Cred
begin

text \<open>
  What starting a program does to the credentials of a task (\<^verbatim>\<open>fs/exec.c\<close>,
  \<^verbatim>\<open>security/commoncap.c\<close>, \<^verbatim>\<open>include/linux/tracehook.h\<close>), creating and releasing tasks
  (\<^verbatim>\<open>kernel/fork.c\<close>, \<^verbatim>\<open>kernel/cred.c\<close>, \<^verbatim>\<open>kernel/exit.c\<close>), the checks one task makes
  against another (\<^verbatim>\<open>kernel/ptrace.c\<close>, \<^verbatim>\<open>kernel/signal.c\<close>) and the step relation of all
  calls together.  This theory holds the definitions.
\<close>

section \<open>File capabilities\<close>

text \<open>
  The file to run: mode, owner, mount flag, whether it has operations, and what reading
  its capability attribute returns (\<^term>\<open>None\<close> where the file system has no attributes).
\<close>

record exec_file =
  i_mode :: u32
  i_uid :: uid_t
  i_gid :: gid_t
  mnt_nosuid :: bool
  has_f_op :: bool
  getxattr :: "(errno + u8 list) option"

record cpu_vfs_cap_data =
  magic_etc :: u32
  vfs_permitted :: kernel_cap_t
  vfs_inheritable :: kernel_cap_t

record linux_binprm =
  bprm_cred :: cred
  bprm_cap_effective :: bool
  bprm_unsafe :: u32

abbreviation "VFS_CAP_REVISION_MASK \<equiv> (0xFF000000 :: u32)"
abbreviation "VFS_CAP_FLAGS_EFFECTIVE \<equiv> (1 :: u32)"
abbreviation "VFS_CAP_REVISION_1 \<equiv> (0x01000000 :: u32)"
abbreviation "VFS_CAP_REVISION_2 \<equiv> (0x02000000 :: u32)"
abbreviation "XATTR_CAPS_SZ_1 \<equiv> (12 :: nat)"
abbreviation "XATTR_CAPS_SZ_2 \<equiv> (20 :: nat)"

text \<open>The little endian word \<open>i\<close> of the attribute.\<close>

definition le32_at :: "u8 list \<Rightarrow> nat \<Rightarrow> u32" where
  "le32_at bs i =
     ucast (bs ! (4 * i)) OR push_bit 8 (ucast (bs ! (4 * i + 1)))
     OR push_bit 16 (ucast (bs ! (4 * i + 2))) OR push_bit 24 (ucast (bs ! (4 * i + 3)))"

definition get_vfs_caps_from_disk :: "bool \<Rightarrow> exec_file \<Rightarrow> errno + cpu_vfs_cap_data" where
  "get_vfs_caps_from_disk fcaps f =
     (if \<not> fcaps then Inl ENODATA
      else case getxattr f of
        None \<Rightarrow> Inl ENODATA
      | Some (Inl e) \<Rightarrow> Inl (if e = ENODATA \<or> e = EOPNOTSUPP then ENODATA else e)
      | Some (Inr bs) \<Rightarrow>
          (if length bs < 4 then Inl EINVAL
           else
             let magic = le32_at bs 0; rev = magic AND VFS_CAP_REVISION_MASK in
             if rev = VFS_CAP_REVISION_1 then
               (if length bs \<noteq> XATTR_CAPS_SZ_1 then Inl EINVAL
                else Inr \<lparr>magic_etc = magic, vfs_permitted = Cap (le32_at bs 1) 0,
                          vfs_inheritable = Cap (le32_at bs 2) 0\<rparr>)
             else if rev = VFS_CAP_REVISION_2 then
               (if length bs \<noteq> XATTR_CAPS_SZ_2 then Inl EINVAL
                else Inr \<lparr>magic_etc = magic, vfs_permitted = Cap (le32_at bs 1) (le32_at bs 3),
                          vfs_inheritable = Cap (le32_at bs 2) (le32_at bs 4)\<rparr>)
             else Inl EINVAL))"

text \<open>One word of the loop in \<^verbatim>\<open>bprm_caps_from_vfs_caps\<close>: \<open>pP' = (X & fP) | (pI & fI)\<close>.\<close>

definition vfs_cap_word :: "u32 \<Rightarrow> u32 \<Rightarrow> u32 \<Rightarrow> u32 \<Rightarrow> u32" where
  "vfs_cap_word bset fP pI fI = (bset AND fP) OR (pI AND fI)"

definition bprm_caps_from_vfs_caps ::
  "cpu_vfs_cap_data \<Rightarrow> linux_binprm \<Rightarrow> bool \<Rightarrow> errno option \<times> linux_binprm \<times> bool" where
  "bprm_caps_from_vfs_caps vcaps bprm effective =
     (let new = bprm_cred bprm;
          effective = (effective \<or> magic_etc vcaps AND VFS_CAP_FLAGS_EFFECTIVE \<noteq> 0);
          pP = Cap (vfs_cap_word (cap0 (cap_bset new)) (cap0 (vfs_permitted vcaps))
                      (cap0 (cap_inheritable new)) (cap0 (vfs_inheritable vcaps)))
                   (vfs_cap_word (cap1 (cap_bset new)) (cap1 (vfs_permitted vcaps))
                      (cap1 (cap_inheritable new)) (cap1 (vfs_inheritable vcaps)));
          ret = (if cap0 (vfs_permitted vcaps) AND NOT (cap0 pP) \<noteq> 0 \<or>
                    cap1 (vfs_permitted vcaps) AND NOT (cap1 pP) \<noteq> 0
                 then Some EPERM else None)
      in (if effective then ret else None, bprm\<lparr>bprm_cred := new\<lparr>cap_permitted := pP\<rparr>\<rparr>, effective))"

definition bprm_clear_caps :: "linux_binprm \<Rightarrow> linux_binprm" where
  "bprm_clear_caps bprm =
     bprm\<lparr>bprm_cred := (bprm_cred bprm)\<lparr>cap_permitted := CAP_EMPTY_SET\<rparr>,
          bprm_cap_effective := False\<rparr>"

definition get_file_caps ::
  "bool \<Rightarrow> bool \<Rightarrow> exec_file \<Rightarrow> linux_binprm \<Rightarrow> bool \<Rightarrow> errno option \<times> linux_binprm \<times> bool" where
  "get_file_caps fcaps enabled f bprm effective =
     (let bprm = bprm_clear_caps bprm in
      if \<not> fcaps \<or> \<not> enabled \<or> mnt_nosuid f then (None, bprm, effective)
      else case get_vfs_caps_from_disk fcaps f of
        Inl e \<Rightarrow>
          (if e = ENODATA then (None, bprm, effective)
           else (Some e, bprm_clear_caps bprm, effective))
      | Inr vcaps \<Rightarrow>
          (case bprm_caps_from_vfs_caps vcaps bprm effective of
             (Some e, bprm, effective) \<Rightarrow> (Some e, bprm_clear_caps bprm, effective)
           | (None, bprm, effective) \<Rightarrow> (None, bprm, effective)))"

section \<open>Credentials for a new program\<close>

abbreviation "LSM_UNSAFE_SHARE \<equiv> (1 :: u32)"
abbreviation "LSM_UNSAFE_PTRACE \<equiv> (2 :: u32)"
abbreviation "LSM_UNSAFE_PTRACE_CAP \<equiv> (4 :: u32)"
abbreviation "PT_PTRACED \<equiv> (1 :: u32)"
abbreviation "PT_PTRACE_CAP \<equiv> (8 :: u32)"

definition cap_limit_ptraced_target :: "bool \<Rightarrow> kernel \<Rightarrow> bool \<times> kernel" where
  "cap_limit_ptraced_target fcaps k =
     (if \<not> fcaps then let (ok, k) = capable CAP_SETPCAP k in (\<not> ok, k) else (True, k))"

text \<open>The privileges of user 0, unless \<^verbatim>\<open>SECURE_NOROOT\<close> is set.\<close>

definition root_privileges :: "cred \<Rightarrow> cred \<Rightarrow> bool \<Rightarrow> cred \<times> bool" where
  "root_privileges old new effective =
     (if issecure old SECURE_NOROOT then (new, effective)
      else if effective \<and> uid new \<noteq> 0 \<and> euid new = 0 then (new, effective)
      else
        let new' = (if euid new = 0 \<or> uid new = 0
                    then new\<lparr>cap_permitted := cap_combine (cap_bset old) (cap_inheritable old)\<rparr>
                    else new)
        in (new', if euid new' = 0 then True else effective))"

text \<open>The downgrade of a program that is traced or whose file system state is shared.\<close>

definition limit_unsafe :: "bool \<Rightarrow> cred \<Rightarrow> linux_binprm \<Rightarrow> cred \<Rightarrow> kernel \<Rightarrow> cred \<times> kernel" where
  "limit_unsafe fcaps old bprm new k =
     (if (euid new \<noteq> uid old \<or> egid new \<noteq> gid old \<or>
          \<not> cap_issubset (cap_permitted new) (cap_permitted old)) \<and>
         bprm_unsafe bprm AND NOT LSM_UNSAFE_PTRACE_CAP \<noteq> 0
      then
        let (ok, k) = capable CAP_SETUID k;
            new = (if \<not> ok then new\<lparr>euid := uid new, egid := gid new\<rparr> else new);
            (lim, k) = cap_limit_ptraced_target fcaps k
        in (if lim then new\<lparr>cap_permitted := cap_intersect (cap_permitted new) (cap_permitted old)\<rparr>
            else new, k)
      else (new, k))"

definition cap_bprm_set_creds ::
  "bool \<Rightarrow> exec_file \<Rightarrow> linux_binprm \<Rightarrow> kernel \<Rightarrow> errno option \<times> linux_binprm \<times> kernel" where
  "cap_bprm_set_creds fcaps f bprm k =
     (let old = current_cred k in
      case get_file_caps fcaps (file_caps_enabled k) f bprm False of
        (Some e, bprm, effective) \<Rightarrow> (Some e, bprm, k)
      | (None, bprm, effective) \<Rightarrow>
          let (new, effective) = root_privileges old (bprm_cred bprm) effective;
              (new, k) = limit_unsafe fcaps old bprm new k;
              new = new\<lparr>suid := euid new, fsuid := euid new, sgid := egid new, fsgid := egid new\<rparr>;
              new = (if pid (current k) \<noteq> 1
                     then new\<lparr>cap_effective := if effective then cap_permitted new else CAP_EMPTY_SET\<rparr>
                     else new);
              new = new\<lparr>securebits := securebits new AND NOT (issecure_mask SECURE_KEEP_CAPS)\<rparr>
          in (None, bprm\<lparr>bprm_cred := new, bprm_cap_effective := effective\<rparr>, k))"

definition cap_bprm_secureexec :: "linux_binprm \<Rightarrow> cred \<Rightarrow> bool" where
  "cap_bprm_secureexec bprm c =
     (if uid c \<noteq> 0 \<and> bprm_cap_effective bprm then True
      else if uid c \<noteq> 0 \<and> \<not> cap_isclear (cap_permitted c) then True
      else euid c \<noteq> uid c \<or> egid c \<noteq> gid c)"

abbreviation "S_ISUID \<equiv> (0x800 :: u32)"
abbreviation "S_ISGID \<equiv> (0x400 :: u32)"
abbreviation "S_IXGRP \<equiv> (0x8 :: u32)"

text \<open>\<^verbatim>\<open>prepare_binprm\<close> up to reading the first bytes of the file, which \<open>rd\<close> reports.\<close>

definition prepare_binprm ::
  "bool \<Rightarrow> exec_file \<Rightarrow> errno option \<Rightarrow> linux_binprm \<Rightarrow> kernel \<Rightarrow> errno option \<times> linux_binprm \<times> kernel" where
  "prepare_binprm fcaps f rd bprm k =
     (if \<not> has_f_op f then (Some EACCES, bprm, k)
      else
        let new = (bprm_cred bprm)\<lparr>euid := euid (current_cred k), egid := egid (current_cred k)\<rparr>;
            new = (if \<not> mnt_nosuid f \<and> i_mode f AND S_ISUID \<noteq> 0 then new\<lparr>euid := i_uid f\<rparr> else new);
            new = (if \<not> mnt_nosuid f \<and> i_mode f AND (S_ISGID OR S_IXGRP) = S_ISGID OR S_IXGRP
                   then new\<lparr>egid := i_gid f\<rparr> else new)
        in case cap_bprm_set_creds fcaps f (bprm\<lparr>bprm_cred := new\<rparr>) k of
             (Some e, bprm, k) \<Rightarrow> (Some e, bprm, k)
           | (None, bprm, k) \<Rightarrow> (rd, bprm, k))"

definition tracehook_unsafe_exec :: "task \<Rightarrow> u32" where
  "tracehook_unsafe_exec t =
     (if ptrace t AND PT_PTRACED \<noteq> 0
      then if ptrace t AND PT_PTRACE_CAP \<noteq> 0 then LSM_UNSAFE_PTRACE_CAP else LSM_UNSAFE_PTRACE
      else 0)"

text \<open>
  \<^verbatim>\<open>check_unsafe_exec\<close>: \<open>shared\<close> says that another process uses the \<^verbatim>\<open>fs_struct\<close>, \<open>in_exec\<close> that
  an \<^verbatim>\<open>execve\<close> with it is under way.
\<close>

definition check_unsafe_exec :: "bool \<Rightarrow> bool \<Rightarrow> task \<Rightarrow> errno + u32" where
  "check_unsafe_exec shared in_exec t =
     (if shared then Inr (tracehook_unsafe_exec t OR LSM_UNSAFE_SHARE)
      else if in_exec then Inl EAGAIN
      else Inr (tracehook_unsafe_exec t))"

text \<open>
  What \<^verbatim>\<open>setup_new_exec\<close> does to the task and its new address space \<open>m\<close>; \<open>nondump\<close> says that
  the file may not be read or must not be dumped.
\<close>

definition setup_new_exec :: "linux_binprm \<Rightarrow> nat \<Rightarrow> bool \<Rightarrow> kernel \<Rightarrow> kernel" where
  "setup_new_exec bprm m nondump k =
     (let c = current_cred k;
          k = k\<lparr>current := (current k)\<lparr>mm := Some m\<rparr>\<rparr>;
          k = set_dumpable m (if euid c = uid c \<and> egid c = gid c then 1 else suid_dumpable k) k
      in if uid (bprm_cred bprm) \<noteq> euid c \<or> gid (bprm_cred bprm) \<noteq> egid c
         then k\<lparr>current := (current k)\<lparr>pdeath_signal := 0\<rparr>\<rparr>
         else if nondump then set_dumpable m (suid_dumpable k) k
         else k)"

text \<open>
  How far the binary handler gets (\<^verbatim>\<open>load_elf_binary\<close>): it fails while the old program can
  still return; it fails after \<^verbatim>\<open>setup_new_exec\<close>, when mapping the program; it fails after
  \<^verbatim>\<open>install_exec_creds\<close>, when \<^verbatim>\<open>create_elf_tables\<close> cannot write the new stack; or it starts
  the program.
\<close>

datatype exec_load = Fails_early errno | Fails_mapping errno | fails_committed: Fails_committed errno | Loads

text \<open>
  \<^verbatim>\<open>do_execve\<close> as far as credentials go, for a file that is not a script (the handler of
  scripts prepares the credentials once more, for the interpreter): \<open>loads\<close> is what the
  binary handler does.  A handler that fails after the point of no return has killed the
  task, but its error is the result of the call.
\<close>

definition execve ::
  "bool \<Rightarrow> bool \<Rightarrow> bool \<Rightarrow> bool \<Rightarrow> exec_file \<Rightarrow> errno option \<Rightarrow> exec_load \<Rightarrow> nat \<Rightarrow> bool \<Rightarrow> syscall" where
  "execve fcaps mem shared in_exec f rd loads m nondump k =
     (if \<not> mem then (Inl ENOMEM, k)
      else case check_unsafe_exec shared in_exec (current k) of
        Inl e \<Rightarrow> (Inl e, k)
      | Inr us \<Rightarrow>
          (case prepare_binprm fcaps f rd
                  \<lparr>bprm_cred = current_cred k, bprm_cap_effective = False, bprm_unsafe = us\<rparr> k of
             (Some e, bprm, k) \<Rightarrow> (Inl e, k)
           | (None, bprm, k) \<Rightarrow>
               (case loads of
                  Fails_early e \<Rightarrow> (Inl e, k)
                | Fails_mapping e \<Rightarrow> (Inl e, setup_new_exec bprm m nondump k)
                | Fails_committed e \<Rightarrow>
                    (Inl e, snd (commit_creds (bprm_cred bprm) (setup_new_exec bprm m nondump k)))
                | Loads \<Rightarrow> commit_creds (bprm_cred bprm) (setup_new_exec bprm m nondump k))))"

section \<open>Creating and releasing tasks\<close>

definition copy_creds :: "bool \<Rightarrow> bool \<Rightarrow> bool \<Rightarrow> kernel \<Rightarrow> errno option \<times> kernel" where
  "copy_creds mem thread newuser k =
     (let u = user (current_cred k);
          inc = k\<lparr>processes := (processes k)(u := processes k u + 1)\<rparr>
      in if thread then (None, inc)
         else if \<not> mem then (Some ENOMEM, k)
         else if newuser then (Some EINVAL, k)
         else (None, inc))"

text \<open>
  What \<^verbatim>\<open>copy_process\<close> does with credentials: the limit on processes, the copy, and the
  undoing of the count when there are too many threads.  The child gets the number \<open>p\<close>, the
  address space \<open>m\<close> and the trace flags \<open>pt\<close>.
\<close>

definition copy_process ::
  "bool \<Rightarrow> bool \<Rightarrow> bool \<Rightarrow> bool \<Rightarrow> nat \<Rightarrow> nat option \<Rightarrow> u32 \<Rightarrow> syscall" where
  "copy_process mem thread newuser full p m pt k =
     (let u = user (current_cred k);
          (ok, k) =
            (if int (rlim_nproc (current k)) \<le> processes k u then
               let (adm, k) = capable CAP_SYS_ADMIN k in
               if adm then (True, k)
               else let (res, k) = capable CAP_SYS_RESOURCE k in (res \<or> u = 0, k)
             else (True, k))
      in if \<not> ok then (Inl EAGAIN, k)
         else case copy_creds mem thread newuser k of
           (Some e, k) \<Rightarrow> (Inl e, k)
         | (None, k) \<Rightarrow>
             (if full
              then (Inl EAGAIN, k\<lparr>processes := (processes k)(u := processes k u - 1)\<rparr>)
              else (Inr (of_nat p),
                    k\<lparr>others := (others k)(p \<mapsto> (current k)
                        \<lparr>pid := p, superpriv := False, pdeath_signal := 0, mm := m, ptrace := pt\<rparr>)\<rparr>)))"

definition release_task :: "nat \<Rightarrow> kernel \<Rightarrow> kernel" where
  "release_task p k =
     (case others k p of
        None \<Rightarrow> k
      | Some t \<Rightarrow>
          (let u = user (cred t) in
           k\<lparr>processes := (processes k)(u := processes k u - 1), others := (others k)(p := None)\<rparr>))"

text \<open>The processor switches to another task.\<close>

definition switch_to :: "nat \<Rightarrow> kernel \<Rightarrow> kernel" where
  "switch_to p k =
     (case others k p of
        None \<Rightarrow> k
      | Some t \<Rightarrow> k\<lparr>current := t, others := (others k)(p := None, pid (current k) \<mapsto> current k)\<rparr>)"

section \<open>Checks against another task\<close>

definition cap_ptrace_access_check :: "task \<Rightarrow> kernel \<Rightarrow> errno option \<times> kernel" where
  "cap_ptrace_access_check child k =
     (let (ok, k) = or_capable
            (cap_issubset (cap_permitted (cred child)) (cap_permitted (current_cred k)))
            CAP_SYS_PTRACE k
      in (if ok then None else Some EPERM, k))"

definition cap_ptrace_traceme :: "task \<Rightarrow> kernel \<Rightarrow> errno option" where
  "cap_ptrace_traceme parent k =
     (if \<not> cap_issubset (cap_permitted (current_cred k)) (cap_permitted (cred parent)) \<and>
         \<not> has_capability k parent CAP_SYS_PTRACE
      then Some EPERM else None)"

definition uu_ptrace_may_access :: "task \<Rightarrow> kernel \<Rightarrow> errno option \<times> kernel" where
  "uu_ptrace_may_access t k =
     (if pid t = pid (current k) then (None, k)
      else
        let c = current_cred k; tc = cred t;
            (ok, k) = or_capable
              (uid c = euid tc \<and> uid c = suid tc \<and> uid c = uid tc \<and>
               gid c = egid tc \<and> gid c = sgid tc \<and> gid c = gid tc) CAP_SYS_PTRACE k
        in if \<not> ok then (Some EPERM, k)
        else
          let d = (case mm t of None \<Rightarrow> 0 | Some m \<Rightarrow> dumpable k m);
              (ok, k) = or_capable (d \<noteq> 0) CAP_SYS_PTRACE k
          in if \<not> ok then (Some EPERM, k) else cap_ptrace_access_check t k)"

abbreviation "SIGCONT \<equiv> (18 :: int)"

text \<open>
  \<^verbatim>\<open>check_kill_permission\<close>: \<open>from_kernel\<close> says that the signal comes from the kernel,
  \<open>same_session\<close> that the target has no session or that of the sender.
\<close>

definition check_kill_permission ::
  "int \<Rightarrow> bool \<Rightarrow> bool \<Rightarrow> task \<Rightarrow> kernel \<Rightarrow> errno option \<times> kernel" where
  "check_kill_permission sig from_kernel same_session t k =
     (if \<not> (0 \<le> sig \<and> sig \<le> 64) then (Some EINVAL, k)
      else if from_kernel then (None, k)
      else
        let c = current_cred k; tc = cred t;
            (ok, k) = or_capable
              (euid c = suid tc \<or> euid c = uid tc \<or> uid c = suid tc \<or> uid c = uid tc) CAP_KILL k
        in if \<not> ok \<and> \<not> (sig = SIGCONT \<and> same_session) then (Some EPERM, k) else (None, k))"

definition cap_safe_nice :: "task \<Rightarrow> kernel \<Rightarrow> errno option \<times> kernel" where
  "cap_safe_nice t k =
     (let (ok, k) = or_capable
            (cap_issubset (cap_permitted (cred t)) (cap_permitted (current_cred k))) CAP_SYS_NICE k
      in (if ok then None else Some EPERM, k))"

section \<open>All calls together\<close>

text \<open>One step of the running task, or the creation, release or choice of a task.\<close>

inductive call :: "bool \<Rightarrow> kernel \<Rightarrow> kernel \<Rightarrow> bool" for fcaps where
  call_setregid: "call fcaps k (snd (setregid mem r e k))"
| call_setgid: "call fcaps k (snd (setgid mem g k))"
| call_setreuid: "call fcaps k (snd (setreuid mem umem r e k))"
| call_setuid: "call fcaps k (snd (setuid mem umem u k))"
| call_setresuid: "call fcaps k (snd (setresuid mem umem r e s k))"
| call_setresgid: "call fcaps k (snd (setresgid mem r e s k))"
| call_setfsuid: "call fcaps k (snd (setfsuid mem u k))"
| call_setfsgid: "call fcaps k (snd (setfsgid mem g k))"
| call_setgroups: "setgroups mem gmem pages n usr k = Some (Inr (r, k')) \<Longrightarrow> call fcaps k k'"
| call_capset: "call fcaps k (snd (capset fcaps mem version writable hdr_pid data k))"
| call_prctl: "call fcaps k (snd (cap_task_prctl fcaps mem opt arg2 k))"

inductive step :: "bool \<Rightarrow> kernel \<Rightarrow> kernel \<Rightarrow> bool" for fcaps where
  step_call: "call fcaps k k' \<Longrightarrow> step fcaps k k'"
| step_exec: "step fcaps k (snd (execve fcaps mem shared in_exec f rd loads m nondump k))"
| step_fork: "p \<noteq> pid (current k) \<Longrightarrow> others k p = None \<Longrightarrow>
    step fcaps k (snd (copy_process mem thread newuser full p m pt k))"
| step_release: "step fcaps k (release_task p k)"
| step_switch: "step fcaps k (switch_to p k)"

end
