(* ===== verification/Cred_Safe.thy ===== *)
theory Cred_Safe
  imports Exec_Cred
begin

text \<open>
  What the calls on credentials guarantee: exact process counts per user, no gain of
  capabilities beyond what a task's sets allow, effective capabilities within the
  permitted ones, privileges that stay dropped, errors that change nothing, and the
  checks that protect one task from another.
\<close>

section \<open>How a call changes the system\<close>

definition same_creds :: "kernel \<Rightarrow> kernel \<Rightarrow> bool" where
  "same_creds k k' \<longleftrightarrow>
     current_cred k' = current_cred k \<and> pid (current k') = pid (current k) \<and>
     others k' = others k \<and> processes k' = processes k"

lemma same_creds_refl [simp]: "same_creds k k"
  by (simp add: same_creds_def)

lemma same_creds_trans: "same_creds a b \<Longrightarrow> same_creds b c \<Longrightarrow> same_creds a c"
  by (simp add: same_creds_def)

definition has_cap :: "cred \<Rightarrow> capability \<Rightarrow> bool" where
  "has_cap c cap \<longleftrightarrow> cap_capable c c cap = None"

lemma capable_same: "capable cap k = (ok, k') \<Longrightarrow> same_creds k k' \<and> ok = has_cap (current_cred k) cap"
  by (auto simp: capable_def has_cap_def same_creds_def split: if_splits)

lemma or_capable_same:
  "or_capable b cap k = (ok, k') \<Longrightarrow> same_creds k k' \<and> ok = (b \<or> has_cap (current_cred k) cap)"
  by (auto simp: or_capable_def dest: capable_same split: if_splits)

lemma same_creds_current: "same_creds k k' \<Longrightarrow> current_cred k' = current_cred k"
  by (simp add: same_creds_def)

lemma has_cap_effective:
  "has_cap c cap \<Longrightarrow> cap \<noteq> CAP_NET_RAW \<Longrightarrow> cap \<noteq> CAP_NET_ADMIN \<Longrightarrow> cap_nr cap \<in> caps (cap_effective c)"
  by (auto simp: has_cap_def cap_capable_def cap_raised_caps cap_nr_lt split: if_splits)

text \<open>The count of processes follows the user of the running task.\<close>

definition transfer :: "uid_t \<Rightarrow> uid_t \<Rightarrow> (uid_t \<Rightarrow> int) \<Rightarrow> (uid_t \<Rightarrow> int)" where
  "transfer u v p = (if u = v then p else p(v := p v + 1, u := p u - 1))"

definition moves :: "kernel \<Rightarrow> kernel \<Rightarrow> bool" where
  "moves k k' \<longleftrightarrow>
     pid (current k') = pid (current k) \<and> others k' = others k \<and>
     processes k' = transfer (user (current_cred k)) (user (current_cred k')) (processes k)"

text \<open>
  A call either leaves the credentials alone or commits new ones; \<open>Q\<close> says which new ones.
  An error leaves them alone.
\<close>

definition outcome :: "(cred \<Rightarrow> bool) \<Rightarrow> kernel \<Rightarrow> ('e + 'a) \<times> kernel \<Rightarrow> bool" where
  "outcome Q k r \<longleftrightarrow>
     moves k (snd r) \<and> Q (current_cred (snd r)) \<and>
     (\<forall>e. fst r = Inl e \<longrightarrow> same_creds k (snd r))"

lemma outcome_same: "same_creds k k' \<Longrightarrow> Q (current_cred k) \<Longrightarrow> outcome Q k (r, k')"
  by (simp add: outcome_def same_creds_def moves_def transfer_def)

lemma set_dumpable_simps [simp]:
  "current (set_dumpable m v k) = current k" "others (set_dumpable m v k) = others k"
  "processes (set_dumpable m v k) = processes k" "suid_dumpable (set_dumpable m v k) = suid_dumpable k"
  by (simp_all add: set_dumpable_def)

lemma commit_creds_simps [simp]:
  "fst (commit_creds new k) = Inr 0"
  "current_cred (snd (commit_creds new k)) = new"
  "pid (current (snd (commit_creds new k))) = pid (current k)"
  "others (snd (commit_creds new k)) = others k"
  "processes (snd (commit_creds new k)) = transfer (user (current_cred k)) (user new) (processes k)"
  by (auto simp: commit_creds_def transfer_def Let_def split: option.splits)

lemma outcome_commit: "same_creds k k' \<Longrightarrow> Q new \<Longrightarrow> outcome Q k (commit_creds new k')"
  by (simp add: outcome_def moves_def same_creds_def)

lemma outcome_fix_and_commit:
  "same_creds k k' \<Longrightarrow> Q (current_cred k) \<Longrightarrow> (\<And>new. r = Inr new \<Longrightarrow> Q new) \<Longrightarrow>
   outcome Q k (fix_and_commit r k')"
  by (cases r) (simp_all add: fix_and_commit_def outcome_same outcome_commit)

lemma outcome_if:
  "(b \<Longrightarrow> outcome Q k x) \<Longrightarrow> (\<not> b \<Longrightarrow> outcome Q k y) \<Longrightarrow> outcome Q k (if b then x else y)"
  by simp

lemma outcome_case_prod:
  "(\<And>a b. p = (a, b) \<Longrightarrow> outcome Q k (f a b)) \<Longrightarrow> outcome Q k (case p of (a, b) \<Rightarrow> f a b)"
  by (cases p) simp

lemmas outcome_intros = outcome_if outcome_case_prod outcome_same outcome_commit

lemma outcome_mono: "outcome Q k r \<Longrightarrow> (\<And>c. Q c \<Longrightarrow> R c) \<Longrightarrow> outcome R k r"
  by (simp add: outcome_def)

section \<open>Group calls\<close>

text \<open>The group numbers of a credential, and that nothing else differs.\<close>

definition gid_set :: "cred \<Rightarrow> gid_t set" where
  "gid_set c = {gid c, egid c, sgid c, fsgid c}"

definition strip_gids :: "cred \<Rightarrow> cred" where
  "strip_gids c = c\<lparr>gid := 0, sgid := 0, egid := 0, fsgid := 0\<rparr>"

lemma strip_gids_simps [simp]:
  "strip_gids (c\<lparr>gid := g\<rparr>) = strip_gids c" "strip_gids (c\<lparr>egid := g\<rparr>) = strip_gids c"
  "strip_gids (c\<lparr>sgid := g\<rparr>) = strip_gids c" "strip_gids (c\<lparr>fsgid := g\<rparr>) = strip_gids c"
  by (cases c; simp add: strip_gids_def)+

definition gid_change :: "cred \<Rightarrow> cred \<Rightarrow> bool" where
  "gid_change old new \<longleftrightarrow>
     strip_gids new = strip_gids old \<and> (\<not> has_cap old CAP_SETGID \<longrightarrow> gid_set new \<subseteq> gid_set old)"

lemma gid_change_refl [simp]: "gid_change c c"
  by (simp add: gid_change_def)

lemma setregid_outcome: "outcome (gid_change (current_cred k)) k (setregid mem r e k)"
  unfolding setregid_def Let_def
  by (intro outcome_intros)
    (auto simp: gid_change_def gid_set_def dest!: or_capable_same intro: same_creds_trans
      dest: same_creds_current)

lemma setgid_outcome: "outcome (gid_change (current_cred k)) k (setgid mem g k)"
  unfolding setgid_def Let_def
  by (intro outcome_intros) (auto simp: gid_change_def gid_set_def dest!: capable_same)

lemma setresgid_outcome: "outcome (gid_change (current_cred k)) k (setresgid mem r e s k)"
  unfolding setresgid_def Let_def
  by (intro outcome_intros) (auto simp: gid_change_def gid_set_def dest!: capable_same)

lemma setfsgid_outcome: "outcome (gid_change (current_cred k)) k (setfsgid mem g k)"
  unfolding setfsgid_def
  by (auto simp: Let_def gid_change_def gid_set_def outcome_def moves_def transfer_def same_creds_def
      dest!: or_capable_same split: prod.splits)

section \<open>User calls\<close>

definition caps_ok :: "cred \<Rightarrow> bool" where
  "caps_ok c \<longleftrightarrow> caps (cap_effective c) \<subseteq> caps (cap_permitted c)"

text \<open>What the capability hook may do to the prepared credentials.\<close>

definition fixed :: "cred \<Rightarrow> cred \<Rightarrow> bool" where
  "fixed new c \<longleftrightarrow>
     c = new\<lparr>cap_permitted := cap_permitted c, cap_effective := cap_effective c\<rparr> \<and>
     caps (cap_permitted c) \<subseteq> caps (cap_permitted new) \<and>
     caps (cap_effective c) \<subseteq> caps (cap_effective new) \<union> caps (cap_permitted new) \<and>
     (caps_ok new \<longrightarrow> caps_ok c)"

lemma fixed_refl: "fixed new new"
  by (simp add: fixed_def)

lemma cap_emulate_setxuid_fixed: "fixed new (cap_emulate_setxuid new old)"
  by (cases new) (auto simp: fixed_def cap_emulate_setxuid_def Let_def caps_ok_def)

lemma cap_task_fix_setuid_fixed: "cap_task_fix_setuid new old flags = Inr c \<Longrightarrow> fixed new c"
proof -
  have "fixed new (new\<lparr>cap_effective := cap_drop_fs_set (cap_effective new)\<rparr>)"
    "fixed new (new\<lparr>cap_effective := cap_raise_fs_set (cap_effective new) (cap_permitted new)\<rparr>)"
    by (cases new; auto simp: fixed_def caps_ok_def cap_drop_fs_set_def cap_raise_fs_set_def)+
  then show "cap_task_fix_setuid new old flags = Inr c \<Longrightarrow> fixed new c"
    by (auto simp: cap_task_fix_setuid_def Let_def fixed_refl cap_emulate_setxuid_fixed split: if_splits)
qed

text \<open>
  The three user numbers of a credential that an unprivileged user call may choose from,
  and all four of them: \<^verbatim>\<open>fsuid\<close>, which only file accesses use, may be kept but does not
  come back once it is given up.
\<close>

definition uid_set :: "cred \<Rightarrow> uid_t set" where
  "uid_set c = {uid c, euid c, suid c}"

definition user_numbers :: "cred \<Rightarrow> uid_t set" where
  "user_numbers c = insert (fsuid c) (uid_set c)"

definition strip_uids :: "cred \<Rightarrow> cred" where
  "strip_uids c = c\<lparr>uid := 0, suid := 0, euid := 0, fsuid := 0, cap_permitted := CAP_EMPTY_SET,
     cap_effective := CAP_EMPTY_SET, user := 0\<rparr>"

lemma strip_uids_simps [simp]:
  "strip_uids (c\<lparr>uid := u\<rparr>) = strip_uids c" "strip_uids (c\<lparr>euid := u\<rparr>) = strip_uids c"
  "strip_uids (c\<lparr>suid := u\<rparr>) = strip_uids c" "strip_uids (c\<lparr>fsuid := u\<rparr>) = strip_uids c"
  "strip_uids (c\<lparr>user := u\<rparr>) = strip_uids c" "strip_uids (c\<lparr>cap_permitted := p\<rparr>) = strip_uids c"
  "strip_uids (c\<lparr>cap_effective := p\<rparr>) = strip_uids c"
  by (cases c; simp add: strip_uids_def)+

text \<open>
  The change of a user call before the capability hook: the capability sets stay, the
  user follows the real user number, and without \<^verbatim>\<open>CAP_SETUID\<close> the numbers come from the
  old ones.
\<close>

definition allowed :: "cred \<Rightarrow> uid_t \<Rightarrow> bool" where
  "allowed old u \<longleftrightarrow> has_cap old CAP_SETUID \<or> u \<in> uid_set old"

definition ids_ok :: "cred \<Rightarrow> cred \<Rightarrow> bool" where
  "ids_ok old new \<longleftrightarrow>
     strip_uids new = strip_uids old \<and>
     cap_permitted new = cap_permitted old \<and> cap_effective new = cap_effective old \<and>
     allowed old (uid new) \<and> allowed old (euid new) \<and> allowed old (suid new) \<and>
     (allowed old (fsuid new) \<or> fsuid new = fsuid old)"

lemma ids_ok_refl [simp]: "ids_ok c c"
  by (simp add: ids_ok_def allowed_def uid_set_def)

lemma ids_ok_intros:
  "ids_ok old c \<Longrightarrow> ids_ok old (c\<lparr>user := v\<rparr>)"
  "ids_ok old c \<Longrightarrow> allowed old u \<Longrightarrow> ids_ok old (c\<lparr>uid := u\<rparr>)"
  "ids_ok old c \<Longrightarrow> allowed old u \<Longrightarrow> ids_ok old (c\<lparr>euid := u\<rparr>)"
  "ids_ok old c \<Longrightarrow> allowed old u \<Longrightarrow> ids_ok old (c\<lparr>suid := u\<rparr>)"
  "ids_ok old c \<Longrightarrow> allowed old u \<Longrightarrow> ids_ok old (c\<lparr>fsuid := u\<rparr>)"
  by (simp_all add: ids_ok_def)

lemma ids_ok_euid: "ids_ok old c \<Longrightarrow> allowed old (euid c)"
  by (simp add: ids_ok_def)

definition uid_prep :: "cred \<Rightarrow> cred \<Rightarrow> bool" where
  "uid_prep old new \<longleftrightarrow> ids_ok old new \<and> (user old = uid old \<longrightarrow> user new = uid new)"

definition uid_change :: "cred \<Rightarrow> cred \<Rightarrow> bool" where
  "uid_change old new \<longleftrightarrow> (\<exists>c. uid_prep old c \<and> fixed c new)"

lemma uid_change_refl [simp]: "uid_change c c"
  unfolding uid_change_def by (rule exI [of _ c]) (simp add: uid_prep_def fixed_refl)

lemma set_user_Inr: "set_user umem new k = Inr c \<Longrightarrow> c = new\<lparr>user := uid new\<rparr>"
  by (auto simp: set_user_def split: if_splits)

lemma outcome_uid_call:
  assumes "same_creds k k'" "\<And>c. m = Inr c \<Longrightarrow> uid_prep (current_cred k) (g c)"
  shows "outcome (uid_change (current_cred k)) k
    (fix_and_commit (bindE m (\<lambda>c. cap_task_fix_setuid (g c) old flags)) k')"
  using assms by (intro outcome_fix_and_commit) (auto simp: uid_change_def dest!: cap_task_fix_setuid_fixed)

lemma outcome_uid_call_if:
  assumes "same_creds k k'" "user c = user (current_cred k)" "ids_ok (current_cred k) c"
    "\<And>c. ids_ok (current_cred k) c \<Longrightarrow> ids_ok (current_cred k) (g c) \<and> user (g c) = user c \<and> uid (g c) = uid c"
  shows "outcome (uid_change (current_cred k)) k
    (fix_and_commit (bindE (if uid c \<noteq> uid (current_cred k) then set_user umem c k'' else Inr c)
       (\<lambda>c. cap_task_fix_setuid (g c) old flags)) k')"
proof (rule outcome_uid_call [OF assms(1)])
  fix d assume "(if uid c \<noteq> uid (current_cred k) then set_user umem c k'' else Inr c) = Inr d"
  then have "d = c\<lparr>user := uid c\<rparr> \<or> d = c \<and> uid c = uid (current_cred k)"
    by (auto dest: set_user_Inr split: if_splits)
  then have "ids_ok (current_cred k) d" "user (current_cred k) = uid (current_cred k) \<longrightarrow> user d = uid d"
    using assms(2,3) by (auto intro: ids_ok_intros)
  then show "uid_prep (current_cred k) (g d)" using assms(4) [of d] by (simp add: uid_prep_def)
qed

lemma setreuid_outcome: "outcome (uid_change (current_cred k)) k (setreuid mem umem r e k)"
proof -
  let ?old = "current_cred k"
  obtain ok1 k1 where c1: "or_capable (r = -1 \<or> uid ?old = r \<or> euid ?old = r) CAP_SETUID k = (ok1, k1)"
    by fastforce
  obtain ok2 k2 where c2: "or_capable (e = -1 \<or> uid ?old = e \<or> euid ?old = e \<or> suid ?old = e)
      CAP_SETUID k1 = (ok2, k2)" by fastforce
  have s: "same_creds k k1" "same_creds k k2" "ok1 \<longrightarrow> r = -1 \<or> allowed ?old r"
    "ok2 \<longrightarrow> e = -1 \<or> allowed ?old e"
    using or_capable_same [OF c1] or_capable_same [OF c2]
    by (auto simp: same_creds_def uid_set_def allowed_def)
  show ?thesis
    unfolding setreuid_def Let_def c1 prod.case c2
    by (intro outcome_if outcome_same outcome_uid_call_if)
      (use s in \<open>auto intro!: ids_ok_intros dest: ids_ok_euid\<close>)
qed

lemma setuid_outcome: "outcome (uid_change (current_cred k)) k (setuid mem umem u k)"
  unfolding setuid_def Let_def
  by (intro outcome_intros outcome_uid_call)
    (auto simp: uid_prep_def allowed_def uid_set_def intro!: ids_ok_intros dest!: capable_same set_user_Inr
      split: if_splits)

lemma setresuid_outcome: "outcome (uid_change (current_cred k)) k (setresuid mem umem r e s k)"
proof -
  let ?old = "current_cred k"
  obtain ok k1 where c: "capable CAP_SETUID k = (ok, k1)" by fastforce
  have s: "same_creds k k1" "ok \<longrightarrow> allowed ?old u" "u = uid ?old \<or> u = euid ?old \<or> u = suid ?old \<longrightarrow> allowed ?old u" for u
    using capable_same [OF c] by (auto simp: uid_set_def allowed_def)
  have m: "uid_prep ?old c" if "r = -1 \<or> allowed ?old r" "(if r \<noteq> -1
      then if r \<noteq> uid ?old then set_user umem (?old\<lparr>uid := r\<rparr>) k1 else Inr (?old\<lparr>uid := r\<rparr>)
      else Inr ?old) = Inr c" for c
    using that by (auto simp: uid_prep_def intro!: ids_ok_intros dest!: set_user_Inr split: if_splits)
  have g: "uid_prep ?old ((if s \<noteq> -1 then (if e \<noteq> -1 then c\<lparr>euid := e\<rparr> else c)\<lparr>suid := s\<rparr>
        else if e \<noteq> -1 then c\<lparr>euid := e\<rparr> else c)
      \<lparr>fsuid := euid (if s \<noteq> -1 then (if e \<noteq> -1 then c\<lparr>euid := e\<rparr> else c)\<lparr>suid := s\<rparr>
        else if e \<noteq> -1 then c\<lparr>euid := e\<rparr> else c)\<rparr>)"
    if "uid_prep ?old c" "e = -1 \<or> allowed ?old e" "s = -1 \<or> allowed ?old s" for c
    using that by (auto simp: uid_prep_def intro!: ids_ok_intros dest: ids_ok_euid)
  show ?thesis
    unfolding setresuid_def Let_def c prod.case
    by (intro outcome_if outcome_same outcome_uid_call g m) (insert s, auto)
qed

lemma setfsuid_outcome: "outcome (uid_change (current_cred k)) k (setfsuid mem u k)"
proof -
  let ?old = "current_cred k"
  obtain ok k1 where c: "or_capable (u = uid ?old \<or> u = euid ?old \<or> u = suid ?old \<or> u = fsuid ?old)
      CAP_SETUID k = (ok, k1)" by fastforce
  note s = or_capable_same [OF c]
  have "ok \<Longrightarrow> u \<noteq> fsuid ?old \<Longrightarrow> uid_prep ?old (?old\<lparr>fsuid := u\<rparr>)"
    using s by (auto simp: uid_prep_def allowed_def uid_set_def intro!: ids_ok_intros)
  then have "ok \<Longrightarrow> u \<noteq> fsuid ?old \<Longrightarrow>
      cap_task_fix_setuid (?old\<lparr>fsuid := u\<rparr>) ?old LSM_SETID_FS = Inr new \<Longrightarrow> uid_change ?old new" for new
    unfolding uid_change_def by (blast dest: cap_task_fix_setuid_fixed)
  with s show ?thesis
    unfolding setfsuid_def Let_def c prod.case
    by (auto simp: outcome_def moves_def transfer_def same_creds_def split: sum.splits)
qed

section \<open>Groups, capability sets and process control\<close>

definition groups_ok :: "cred \<Rightarrow> bool" where
  "groups_ok c \<longleftrightarrow>
     groups c = init_groups \<or> gi_ok (groups c) \<and> sorted (gids (groups c))"

definition group_change :: "cred \<Rightarrow> cred \<Rightarrow> bool" where
  "group_change old new \<longleftrightarrow> new = old \<or>
     has_cap old CAP_SETGID \<and> (\<exists>gi. new = old\<lparr>groups := gi\<rparr> \<and> groups_ok new)"

lemma in_egroup_p_returns: "groups_ok c \<Longrightarrow> \<exists>b. in_egroup_p c grp = Inr b"
  using groups_search_spec [of "groups c" grp]
  by (auto simp: in_egroup_p_def groups_ok_def groups_search_init)

lemma set_current_groups_returns:
  assumes "gi_ok gi"
  shows "\<exists>gi'. set_current_groups mem gi k =
    Some (Inr (if mem then commit_creds ((current_cred k)\<lparr>groups := gi'\<rparr>) k else (Inl ENOMEM, k))) \<and>
    gi_ok gi' \<and> gids gi' = sort (gids gi)"
  using groups_sort_spec [OF assms] by (auto simp: set_current_groups_def set_groups_def)

text \<open>What \<^verbatim>\<open>setgroups\<close> returns, and that a success installs the sorted list.\<close>

definition setgroups_code ::
  "bool \<Rightarrow> (nat \<Rightarrow> gid_t) option \<Rightarrow> (nat \<Rightarrow> gid_t) option list \<Rightarrow> int \<Rightarrow> gid_t list \<Rightarrow> cred \<Rightarrow> errno + u32" where
  "setgroups_code mem gmem pages n usr c =
     (if \<not> has_cap c CAP_SETGID then Inl EPERM
      else if n < 0 \<or> NGROUPS_MAX < n then Inl EINVAL
      else if groups_alloc gmem pages n = None then Inl ENOMEM
      else if length usr < nat n then Inl EFAULT
      else if \<not> mem then Inl ENOMEM else Inr 0)"

lemma setgroups_returns:
  "\<exists>r. setgroups mem gmem pages n usr k = Some (Inr r) \<and>
       outcome (group_change (current_cred k)) k r \<and>
       fst r = setgroups_code mem gmem pages n usr (current_cred k) \<and>
       (\<forall>v. fst r = Inr v \<longrightarrow> gids (groups (current_cred (snd r))) = sort (take (nat n) usr) \<and>
            gi_ok (groups (current_cred (snd r))) \<and> fsgid (current_cred (snd r)) = fsgid (current_cred k))"
proof -
  obtain ok k1 where c: "capable CAP_SETGID k = (ok, k1)" by fastforce
  have s: "same_creds k k1" and has: "ok = has_cap (current_cred k) CAP_SETGID"
    using capable_same [OF c] by simp_all
  have err: "outcome (group_change (current_cred k)) k (Inl e :: errno + u32, k1)" for e
    by (rule outcome_same) (simp_all add: s group_change_def)
  show ?thesis
  proof (cases "ok \<and> 0 \<le> n \<and> n \<le> NGROUPS_MAX")
    case False
    then show ?thesis using err has by (auto simp: setgroups_def setgroups_code_def c)
  next
    case ok: True
    show ?thesis
    proof (cases "groups_alloc gmem pages n")
      case None
      then show ?thesis using ok err has by (simp add: setgroups_def setgroups_code_def c)
    next
      case (Some gi)
      have gi: "gi_ok gi" "ngroups gi = n" using groups_alloc_ok [OF Some] ok by simp_all
      show ?thesis
      proof (cases "nat n \<le> length usr")
        case False
        then have "groups_from_user gi usr = Inr (Inl EFAULT)"
          using groups_from_user_spec [OF gi(1), of usr] by (simp add: copied_def gi(2))
        then show ?thesis using ok err has Some False by (simp add: setgroups_def setgroups_code_def c)
      next
        case True
        obtain gi1 where gi1: "groups_from_user gi usr = Inr (Inr gi1)" "gi_ok gi1"
          "gids gi1 = take (nat n) usr"
          using groups_from_user_spec [OF gi(1), of usr] True by (auto simp: copied_def gi(2))
        obtain gi2 where gi2: "set_current_groups mem gi1 k1 = Some (Inr (if mem
            then commit_creds ((current_cred k1)\<lparr>groups := gi2\<rparr>) k1 else (Inl ENOMEM, k1)))"
          "gi_ok gi2" "gids gi2 = sort (gids gi1)"
          using set_current_groups_returns [OF gi1(2)] by blast
        have "outcome (group_change (current_cred k)) k (commit_creds ((current_cred k1)\<lparr>groups := gi2\<rparr>) k1)"
          by (rule outcome_commit [OF s])
            (use gi2 ok has same_creds_current [OF s] in \<open>auto simp: group_change_def groups_ok_def\<close>)
        then show ?thesis
          using ok err has Some True gi1 gi2 same_creds_current [OF s] by (simp add: setgroups_def setgroups_code_def c)
      qed
    qed
  qed
qed

definition cap_change :: "bool \<Rightarrow> cred \<Rightarrow> cred \<Rightarrow> bool" where
  "cap_change fcaps old new \<longleftrightarrow> new = old \<or>
     new = old\<lparr>cap_effective := cap_effective new, cap_inheritable := cap_inheritable new,
               cap_permitted := cap_permitted new\<rparr> \<and>
     caps (cap_permitted new) \<subseteq> caps (cap_permitted old) \<and> caps_ok new \<and>
     caps (cap_inheritable new) \<subseteq> caps (cap_inheritable old) \<union> caps (cap_bset old)"

lemma capset_outcome:
  "outcome (cap_change fcaps (current_cred k)) k (capset fcaps mem version writable hdr_pid data k)"
proof -
  have "cap_capset fcaps old old e i p = Inr new \<Longrightarrow> cap_change fcaps old new" for old e i p new
    by (auto simp: cap_capset_def cap_change_def caps_ok_def split: if_splits)
  then show ?thesis
    unfolding capset_def
    by (auto simp: cap_change_def intro!: outcome_same outcome_fix_and_commit split: sum.split option.split)
qed

text \<open>
  Lock bits are never cleared, and a locked bit does not change.  Bit \<open>2 * j + 1\<close> of
  \<^verbatim>\<open>securebits\<close> locks bit \<open>2 * j\<close>.
\<close>

definition lock_kept :: "u32 \<Rightarrow> u32 \<Rightarrow> nat \<Rightarrow> bool" where
  "lock_kept old new j \<longleftrightarrow>
     (bit old (2 * j + 1) \<longrightarrow> bit new (2 * j + 1) \<and> bit new (2 * j) = bit old (2 * j))"

definition locks_kept :: "u32 \<Rightarrow> u32 \<Rightarrow> bool" where
  "locks_kept old new \<longleftrightarrow> lock_kept old new 0 \<and> lock_kept old new 1 \<and> lock_kept old new 2"

lemma locks_kept_refl [simp]: "locks_kept sb sb"
  by (simp add: locks_kept_def lock_kept_def)

lemma SECURE_ALL_LOCKS_eq: "SECURE_ALL_LOCKS = 0x2A"
  by (simp add: SECURE_ALL_LOCKS_def SECURE_ALL_BITS_def issecure_mask_def)

lemma and_zero_bit: "a AND b = 0 \<Longrightarrow> bit a i \<Longrightarrow> \<not> bit b i" for a b :: u32
  by (metis bit_and_iff bit_0_eq bot_apply bot_bool_def)

lemma set_securebits_locks:
  assumes "drop_bit 1 (sb AND SECURE_ALL_LOCKS) AND (sb XOR arg) = 0"
    "sb AND SECURE_ALL_LOCKS AND NOT arg = 0"
  shows "locks_kept sb arg"
proof -
  have "lock_kept sb arg j" if "bit (0x2A :: u32) (2 * j + 1)" "2 * j + 1 < 32" for j
    unfolding lock_kept_def
  proof (intro impI conjI)
    assume l: "bit sb (2 * j + 1)"
    have "bit (drop_bit 1 (sb AND SECURE_ALL_LOCKS)) (2 * j)"
      using l that by (simp add: bit_drop_bit_eq bit_and_iff SECURE_ALL_LOCKS_eq)
    from and_zero_bit [OF assms(1) this] show "bit arg (2 * j) = bit sb (2 * j)"
      by (auto simp: bit_xor_iff)
    have "bit (sb AND SECURE_ALL_LOCKS) (2 * j + 1)"
      using l that by (simp add: bit_and_iff SECURE_ALL_LOCKS_eq)
    from and_zero_bit [OF assms(2) [folded and.assoc] this] that show "bit arg (2 * j + 1)"
      by (simp add: bit_not_iff)
  qed
  then show ?thesis unfolding locks_kept_def by simp
qed

lemma keep_caps_locks:
  assumes "\<not> issecure c SECURE_KEEP_CAPS_LOCKED"
  shows "locks_kept (securebits c) (securebits c OR issecure_mask SECURE_KEEP_CAPS)"
    "locks_kept (securebits c) (securebits c AND NOT (issecure_mask SECURE_KEEP_CAPS))"
proof -
  have "\<not> bit (securebits c) 5"
    using assms unfolding issecure_def issecure_mask_def
    by (metis and_exp_eq_0_iff_not_bit and.commute push_bit_of_1)
  then show "locks_kept (securebits c) (securebits c OR issecure_mask SECURE_KEEP_CAPS)"
    "locks_kept (securebits c) (securebits c AND NOT (issecure_mask SECURE_KEEP_CAPS))"
    by (simp_all add: locks_kept_def lock_kept_def issecure_mask_def bit_or_iff bit_and_iff bit_not_iff)
qed

definition prctl_change :: "cred \<Rightarrow> cred \<Rightarrow> bool" where
  "prctl_change old new \<longleftrightarrow>
     new = old\<lparr>cap_bset := cap_bset new, securebits := securebits new\<rparr> \<and>
     caps (cap_bset new) \<subseteq> caps (cap_bset old) \<and> locks_kept (securebits old) (securebits new)"

lemma prctl_change_refl [simp]: "prctl_change c c"
  by (simp add: prctl_change_def)

lemma prctl_change_bits: "locks_kept (securebits c) sb \<Longrightarrow> prctl_change c (c\<lparr>securebits := sb\<rparr>)"
  by (simp add: prctl_change_def)

lemma cap_prctl_drop_change:
  "cap_prctl_drop cap k = (r, k') \<Longrightarrow>
   same_creds k k' \<and> (\<forall>new. r = Inr new \<longrightarrow> prctl_change (current_cred k) new)"
  by (auto simp: cap_prctl_drop_def cap_valid_def prctl_change_def caps_cap_lower
      dest!: capable_same dest: same_creds_current split: prod.splits if_splits)

lemma cap_task_prctl_outcome:
  "outcome (prctl_change (current_cred k)) k (cap_task_prctl fcaps mem opt arg2 k)"
  unfolding cap_task_prctl_def Let_def
  by (intro outcome_intros outcome_fix_and_commit)
    (auto dest!: cap_prctl_drop_change intro!: prctl_change_bits set_securebits_locks keep_caps_locks)

section \<open>Starting a program\<close>

lemma caps_vfs_word:
  "caps (Cap (vfs_cap_word b0 p0 i0 j0) (vfs_cap_word b1 p1 i1 j1)) =
   caps (Cap b0 b1) \<inter> caps (Cap p0 p1) \<union> caps (Cap i0 i1) \<inter> caps (Cap j0 j1)"
  by (auto simp: caps_def vfs_cap_word_def bit_or_iff bit_and_iff)

text \<open>What setting up credentials for a program leaves as it was.\<close>

definition same_base :: "cred \<Rightarrow> cred \<Rightarrow> bool" where
  "same_base a b \<longleftrightarrow>
     uid b = uid a \<and> gid b = gid a \<and> user b = user a \<and> groups b = groups a \<and>
     cap_inheritable b = cap_inheritable a \<and> cap_bset b = cap_bset a \<and>
     cap_effective b = cap_effective a \<and> securebits b = securebits a"

definition root_caps :: "cred \<Rightarrow> nat set" where
  "root_caps c = caps (cap_bset c) \<union> caps (cap_inheritable c)"

lemma bprm_caps_from_vfs_caps_bound:
  "bprm_caps_from_vfs_caps v b e = (r, b', e') \<Longrightarrow>
   same_base (bprm_cred b) (bprm_cred b') \<and> bprm_unsafe b' = bprm_unsafe b \<and>
   euid (bprm_cred b') = euid (bprm_cred b) \<and> egid (bprm_cred b') = egid (bprm_cred b) \<and>
   caps (cap_permitted (bprm_cred b')) \<subseteq> root_caps (bprm_cred b)"
  by (auto simp: bprm_caps_from_vfs_caps_def same_base_def root_caps_def Let_def caps_vfs_word)

lemma bprm_clear_caps_bound:
  "same_base (bprm_cred b) (bprm_cred (bprm_clear_caps b))"
  "bprm_unsafe (bprm_clear_caps b) = bprm_unsafe b" "caps (cap_permitted (bprm_cred (bprm_clear_caps b))) = {}"
  "euid (bprm_cred (bprm_clear_caps b)) = euid (bprm_cred b)"
  "egid (bprm_cred (bprm_clear_caps b)) = egid (bprm_cred b)"
  by (simp_all add: bprm_clear_caps_def same_base_def)

lemma get_file_caps_bound:
  assumes "get_file_caps fcaps en f bprm eff = (None, bprm', eff')"
  shows "same_base (bprm_cred bprm) (bprm_cred bprm')" "bprm_unsafe bprm' = bprm_unsafe bprm"
    "euid (bprm_cred bprm') = euid (bprm_cred bprm)" "egid (bprm_cred bprm') = egid (bprm_cred bprm)"
    "caps (cap_permitted (bprm_cred bprm')) \<subseteq> root_caps (bprm_cred bprm)"
proof -
  let ?b = "bprm_clear_caps bprm"
  have r: "root_caps (bprm_cred ?b) = root_caps (bprm_cred bprm)"
    using bprm_clear_caps_bound(1) [of bprm] by (simp add: root_caps_def same_base_def)
  consider "bprm' = ?b" | v e r where "bprm_caps_from_vfs_caps v ?b e = (r, bprm', eff')"
    using assms by (auto simp: get_file_caps_def Let_def split: if_splits sum.splits prod.splits option.splits)
  then have "same_base (bprm_cred bprm) (bprm_cred bprm') \<and> bprm_unsafe bprm' = bprm_unsafe bprm \<and>
    euid (bprm_cred bprm') = euid (bprm_cred bprm) \<and> egid (bprm_cred bprm') = egid (bprm_cred bprm) \<and>
    caps (cap_permitted (bprm_cred bprm')) \<subseteq> root_caps (bprm_cred bprm)"
  proof cases
    case 1
    then show ?thesis using bprm_clear_caps_bound [of bprm] by simp
  next
    case 2
    from bprm_caps_from_vfs_caps_bound [OF this] r bprm_clear_caps_bound [of bprm] show ?thesis
      by (simp add: same_base_def)
  qed
  then show "same_base (bprm_cred bprm) (bprm_cred bprm')" "bprm_unsafe bprm' = bprm_unsafe bprm"
    "euid (bprm_cred bprm') = euid (bprm_cred bprm)" "egid (bprm_cred bprm') = egid (bprm_cred bprm)"
    "caps (cap_permitted (bprm_cred bprm')) \<subseteq> root_caps (bprm_cred bprm)" by simp_all
qed

lemma root_privileges_bound:
  assumes "root_privileges old new eff = (new', eff')"
  shows "same_base new new'" "caps (cap_permitted new') \<subseteq> caps (cap_permitted new) \<union> root_caps old"
    "euid new' = euid new" "egid new' = egid new"
  using assms by (auto simp: root_privileges_def same_base_def root_caps_def Let_def split: if_splits)

lemma cap_limit_same: "cap_limit_ptraced_target fcaps k = (lim, k') \<Longrightarrow>
  same_creds k k' \<and> lim = (fcaps \<or> \<not> has_cap (current_cred k) CAP_SETPCAP)"
  by (auto simp: cap_limit_ptraced_target_def dest!: capable_same split: if_splits prod.splits)

text \<open>The last part says that an unsafe start gains nothing.\<close>

lemma limit_unsafe_bound:
  assumes "limit_unsafe fcaps old bprm new k = (new', k')" "current_cred k = old"
  shows "same_creds k k'" "same_base new new'" "caps (cap_permitted new') \<subseteq> caps (cap_permitted new)"
    "bprm_unsafe bprm AND NOT LSM_UNSAFE_PTRACE_CAP \<noteq> 0 \<Longrightarrow> \<not> has_cap old CAP_SETUID \<Longrightarrow>
     fcaps \<or> \<not> has_cap old CAP_SETPCAP \<Longrightarrow> uid new = uid old \<Longrightarrow> gid new = gid old \<Longrightarrow>
     caps (cap_permitted new') \<subseteq> caps (cap_permitted old) \<and> euid new' = uid old \<and> egid new' = gid old"
proof -
  obtain ok k1 where c: "capable CAP_SETUID k = (ok, k1)" by fastforce
  obtain lim k2 where l: "cap_limit_ptraced_target fcaps k1 = (lim, k2)" by fastforce
  note s = capable_same [OF c] cap_limit_same [OF l]
  then have "same_creds k k2" "current_cred k1 = old"
    using assms(2) by (auto intro: same_creds_trans simp: same_creds_def)
  with assms s show "same_creds k k'" "same_base new new'"
    "caps (cap_permitted new') \<subseteq> caps (cap_permitted new)"
    "bprm_unsafe bprm AND NOT LSM_UNSAFE_PTRACE_CAP \<noteq> 0 \<Longrightarrow> \<not> has_cap old CAP_SETUID \<Longrightarrow>
     fcaps \<or> \<not> has_cap old CAP_SETPCAP \<Longrightarrow> uid new = uid old \<Longrightarrow> gid new = gid old \<Longrightarrow>
     caps (cap_permitted new') \<subseteq> caps (cap_permitted old) \<and> euid new' = uid old \<and> egid new' = gid old"
    by (auto simp: limit_unsafe_def c l Let_def same_base_def split: if_splits)
qed

definition exec_change :: "bool \<Rightarrow> u32 \<Rightarrow> bool \<Rightarrow> cred \<Rightarrow> cred \<Rightarrow> bool" where
  "exec_change fcaps us init old new \<longleftrightarrow>
     uid new = uid old \<and> gid new = gid old \<and> user new = user old \<and> groups new = groups old \<and>
     cap_inheritable new = cap_inheritable old \<and> cap_bset new = cap_bset old \<and>
     caps (cap_permitted new) \<subseteq> root_caps old \<and>
     (if init then cap_effective new = cap_effective old
      else cap_effective new = cap_permitted new \<or> cap_effective new = CAP_EMPTY_SET) \<and>
     securebits new = securebits old AND NOT (issecure_mask SECURE_KEEP_CAPS) \<and>
     (us AND NOT LSM_UNSAFE_PTRACE_CAP \<noteq> 0 \<and> \<not> has_cap old CAP_SETUID \<and>
      (fcaps \<or> \<not> has_cap old CAP_SETPCAP) \<longrightarrow>
        caps (cap_permitted new) \<subseteq> caps (cap_permitted old) \<and> user_numbers new = {uid old} \<and>
        gid_set new = {gid old})"

lemma cap_bprm_set_creds_change:
  assumes "cap_bprm_set_creds fcaps f bprm k = (None, bprm', k')"
    "same_base (current_cred k) (bprm_cred bprm)"
  shows "same_creds k k'"
    "exec_change fcaps (bprm_unsafe bprm) (pid (current k) = 1) (current_cred k) (bprm_cred bprm')"
proof -
  let ?old = "current_cred k"
  obtain r b1 e1 where g: "get_file_caps fcaps (file_caps_enabled k) f bprm False = (r, b1, e1)"
    by (metis surj_pair)
  obtain n2 e2 where p: "root_privileges ?old (bprm_cred b1) e1 = (n2, e2)" by fastforce
  obtain n3 k3 where l: "limit_unsafe fcaps ?old b1 n2 k = (n3, k3)" by fastforce
  have r: "r = None" using assms(1) g by (cases r) (simp_all add: cap_bprm_set_creds_def)
  note gb = get_file_caps_bound [OF g [unfolded r]]
  note lb = limit_unsafe_bound [OF l refl]
  have pid: "pid (current k3) = pid (current k)" using lb(1) by (simp add: same_creds_def)
  have b': "bprm' = b1\<lparr>bprm_cred :=
      (if pid (current k) \<noteq> 1
       then n3\<lparr>suid := euid n3, fsuid := euid n3, sgid := egid n3, fsgid := egid n3,
               cap_effective := if e2 then cap_permitted n3 else CAP_EMPTY_SET\<rparr>
       else n3\<lparr>suid := euid n3, fsuid := euid n3, sgid := egid n3, fsgid := egid n3\<rparr>)
       \<lparr>securebits := securebits n3 AND NOT (issecure_mask SECURE_KEEP_CAPS)\<rparr>,
      bprm_cap_effective := e2\<rparr>" and k': "k' = k3"
    using assms(1) g p l r pid by (auto simp: cap_bprm_set_creds_def Let_def)
  show "same_creds k k'" using lb(1) k' by simp
  have base: "same_base ?old n2" "same_base ?old n3"
    using assms(2) gb(1) root_privileges_bound(1) [OF p] lb(2) by (simp_all add: same_base_def)
  have "root_caps (bprm_cred bprm) = root_caps ?old"
    using assms(2) by (simp add: same_base_def root_caps_def)
  then have P: "caps (cap_permitted n3) \<subseteq> root_caps ?old"
    using gb(5) root_privileges_bound(2) [OF p] lb(3) by blast
  have no: "bprm_unsafe bprm AND NOT LSM_UNSAFE_PTRACE_CAP \<noteq> 0 \<Longrightarrow> \<not> has_cap ?old CAP_SETUID \<Longrightarrow>
     fcaps \<or> \<not> has_cap ?old CAP_SETPCAP \<Longrightarrow>
     caps (cap_permitted n3) \<subseteq> caps (cap_permitted ?old) \<and> euid n3 = uid ?old \<and> egid n3 = gid ?old"
    using lb(4) gb(2) base(1) by (simp add: same_base_def)
  show "exec_change fcaps (bprm_unsafe bprm) (pid (current k) = 1) ?old (bprm_cred bprm')"
    using base(2) P no unfolding b' exec_change_def
    by (cases e2) (simp_all add: same_base_def user_numbers_def uid_set_def gid_set_def)
qed

definition exec_outcome :: "bool \<Rightarrow> u32 \<Rightarrow> bool \<Rightarrow> cred \<Rightarrow> cred \<Rightarrow> bool" where
  "exec_outcome fcaps us init old new \<longleftrightarrow> new = old \<or> exec_change fcaps us init old new"

lemma cap_bprm_set_creds_error:
  "cap_bprm_set_creds fcaps f bprm k = (Some e, bprm', k') \<Longrightarrow> same_creds k k'"
  by (auto simp: cap_bprm_set_creds_def Let_def split: prod.splits option.splits)

lemma prepare_binprm_change:
  assumes "prepare_binprm fcaps f rd \<lparr>bprm_cred = current_cred k, bprm_cap_effective = e0, bprm_unsafe = us\<rparr> k =
    (r, bprm, k')"
  shows "same_creds k k'"
    "r = None \<Longrightarrow> exec_change fcaps us (pid (current k) = 1) (current_cred k) (bprm_cred bprm)"
proof -
  let ?b0 = "\<lparr>bprm_cred = current_cred k, bprm_cap_effective = e0, bprm_unsafe = us\<rparr>"
  have "\<exists>b. prepare_binprm fcaps f rd ?b0 k =
     (if \<not> has_f_op f then (Some EACCES, ?b0, k)
      else case cap_bprm_set_creds fcaps f b k of
             (Some e, bprm, k) \<Rightarrow> (Some e, bprm, k)
           | (None, bprm, k) \<Rightarrow> (rd, bprm, k)) \<and>
     bprm_unsafe b = us \<and> same_base (current_cred k) (bprm_cred b)"
    unfolding prepare_binprm_def Let_def by (intro exI conjI, rule refl) (auto simp: same_base_def)
  then obtain b where b: "bprm_unsafe b = us" "same_base (current_cred k) (bprm_cred b)"
    "prepare_binprm fcaps f rd ?b0 k =
     (if \<not> has_f_op f then (Some EACCES, ?b0, k)
      else case cap_bprm_set_creds fcaps f b k of
             (Some e, bprm, k) \<Rightarrow> (Some e, bprm, k)
           | (None, bprm, k) \<Rightarrow> (rd, bprm, k))"
    by blast
  obtain q b2 k2 where q: "cap_bprm_set_creds fcaps f b k = (q, b2, k2)" by (metis surj_pair)
  show "same_creds k k'"
    using assms b(3) cap_bprm_set_creds_error [of fcaps f b k _ b2 k2]
      cap_bprm_set_creds_change(1) [of fcaps f b k b2 k2] b(2)
    by (cases q) (auto simp: q split: if_splits)
  show "exec_change fcaps us (pid (current k) = 1) (current_cred k) (bprm_cred bprm)" if "r = None"
    using assms b that cap_bprm_set_creds_change(2) [of fcaps f b k b2 k2]
    by (cases q) (auto simp: q split: if_splits)
qed

lemma setup_new_exec_same: "same_creds k (setup_new_exec bprm m nondump k)"
  by (simp add: setup_new_exec_def Let_def same_creds_def)

text \<open>
  Whatever happens, the credentials are the old or the prepared ones; unless the handler
  fails after they were installed, an error leaves the old ones.
\<close>

lemma execve_outcome:
  assumes Q: "Q = (\<lambda>new. \<exists>us. (check_unsafe_exec shared in_exec (current k) = Inr us \<or> new = current_cred k) \<and>
      exec_outcome fcaps us (pid (current k) = 1) (current_cred k) new)"
    and r: "r = execve fcaps mem shared in_exec f rd loads m nondump k"
  shows "moves k (snd r)" "Q (current_cred (snd r))" "\<not> fails_committed loads \<Longrightarrow> outcome Q k r"
proof -
  have same: "outcome Q k (Inl e :: errno + u32, k1)" if "same_creds k k1" for e k1
    using that by (intro outcome_same) (auto simp: Q exec_outcome_def)
  have "moves k (snd r) \<and> Q (current_cred (snd r)) \<and> (\<not> fails_committed loads \<longrightarrow> outcome Q k r)"
  proof (cases "mem \<and> (\<exists>us. check_unsafe_exec shared in_exec (current k) = Inr us)")
    case False
    then have "outcome Q k r" using same by (auto simp: r execve_def split: sum.splits)
    then show ?thesis by (simp add: outcome_def)
  next
    case True
    then obtain us where us: "mem" "check_unsafe_exec shared in_exec (current k) = Inr us" by blast
    obtain q bprm k1 where p: "prepare_binprm fcaps f rd
        \<lparr>bprm_cred = current_cred k, bprm_cap_effective = False, bprm_unsafe = us\<rparr> k = (q, bprm, k1)"
      by (metis surj_pair)
    note pc = prepare_binprm_change [OF p]
    note new = same_creds_trans [OF pc(1) setup_new_exec_same]
    have c: "outcome Q k (commit_creds (bprm_cred bprm) (setup_new_exec bprm m nondump k1))" if "q = None"
      using pc(2) [OF that] us(2) by (intro outcome_commit new) (auto simp: Q exec_outcome_def)
    show ?thesis
      using us p c same [OF pc(1)] same [OF new]
      by (cases q; cases loads) (auto simp: r execve_def outcome_def)
  qed
  then show "moves k (snd r)" "Q (current_cred (snd r))" "\<not> fails_committed loads \<Longrightarrow> outcome Q k r"
    by simp_all
qed

lemma execve_success:
  assumes "execve fcaps mem shared in_exec f rd loads m nondump k = (Inr v, k')"
  shows "\<exists>us. check_unsafe_exec shared in_exec (current k) = Inr us \<and>
    exec_change fcaps us (pid (current k) = 1) (current_cred k) (current_cred k')"
proof -
  obtain us where us: "check_unsafe_exec shared in_exec (current k) = Inr us"
    using assms by (cases "check_unsafe_exec shared in_exec (current k)") (auto simp: execve_def split: if_splits)
  obtain r bprm k1 where p: "prepare_binprm fcaps f rd
      \<lparr>bprm_cred = current_cred k, bprm_cap_effective = False, bprm_unsafe = us\<rparr> k = (r, bprm, k1)"
    by (metis surj_pair)
  have "r = None \<and> commit_creds (bprm_cred bprm) (setup_new_exec bprm m nondump k1) = (Inr v, k')"
    using assms us p by (cases r; cases loads) (auto simp: execve_def split: if_splits)
  then have "r = None" "current_cred k' = bprm_cred bprm"
    using commit_creds_simps(2) [of "bprm_cred bprm" "setup_new_exec bprm m nondump k1"] by simp_all
  with prepare_binprm_change(2) [OF p] us show ?thesis by auto
qed

lemma execve_plain_succeeds:
  assumes "has_f_op f" "check_unsafe_exec shared in_exec (current k) = Inr us"
  shows "fst (execve False True shared in_exec f None Loads m nondump k) = Inr 0"
proof -
  have c: "fst (cap_bprm_set_creds False f b k) = None" for b
    by (simp add: cap_bprm_set_creds_def get_file_caps_def Let_def split: prod.split)
  have "fst (case X of (Some e, b, k) \<Rightarrow> (Some e, b, k) | (None, b, k) \<Rightarrow> (None, b, k)) = None"
    if "fst X = None" for X :: "errno option \<times> linux_binprm \<times> kernel"
    using that by (cases X) auto
  from this [OF c] have "fst (prepare_binprm False f None b k) = None" for b
    using assms(1) by (simp add: prepare_binprm_def Let_def)
  then obtain b' k' where "prepare_binprm False f None
      \<lparr>bprm_cred = current_cred k, bprm_cap_effective = False, bprm_unsafe = us\<rparr> k = (None, b', k')"
    by (metis prod.collapse)
  then show ?thesis using assms(2) by (simp add: execve_def)
qed

lemma check_unsafe_exec_bits:
  assumes "check_unsafe_exec shared in_exec t = Inr us"
    "shared \<or> ptrace t AND PT_PTRACED \<noteq> 0 \<and> ptrace t AND PT_PTRACE_CAP = 0"
  shows "us AND NOT LSM_UNSAFE_PTRACE_CAP \<noteq> 0"
  using assms by (auto simp: check_unsafe_exec_def tracehook_unsafe_exec_def split: if_splits)

section \<open>What every call guarantees\<close>

definition horizon :: "cred \<Rightarrow> nat set" where
  "horizon c = caps (cap_effective c) \<union> caps (cap_permitted c) \<union> root_caps c"

definition unprivileged :: "cred \<Rightarrow> bool" where
  "unprivileged c \<longleftrightarrow> caps (cap_effective c) = {} \<and> caps (cap_permitted c) = {}"

definition cred_ok :: "cred \<Rightarrow> bool" where
  "cred_ok c \<longleftrightarrow> user c = uid c \<and> groups_ok c"

definition call_change :: "cred \<Rightarrow> cred \<Rightarrow> bool" where
  "call_change old new \<longleftrightarrow>
     horizon new \<subseteq> horizon old \<and> (cred_ok old \<longrightarrow> cred_ok new) \<and> (caps_ok old \<longrightarrow> caps_ok new) \<and>
     locks_kept (securebits old) (securebits new) \<and>
     (unprivileged old \<longrightarrow> unprivileged new \<and> uid_set new \<subseteq> uid_set old \<and>
        user_numbers new \<subseteq> user_numbers old \<and> gid_set new \<subseteq> gid_set old \<and> groups new = groups old)"

lemma unprivileged_has_cap:
  "unprivileged c \<Longrightarrow> \<not> has_cap c CAP_SETUID \<and> \<not> has_cap c CAP_SETGID"
  using has_cap_effective [of c CAP_SETUID] has_cap_effective [of c CAP_SETGID]
  by (auto simp: unprivileged_def)

lemma strip_gidsD:
  "strip_gids a = strip_gids b \<Longrightarrow>
   uid a = uid b \<and> suid a = suid b \<and> euid a = euid b \<and> fsuid a = fsuid b \<and> securebits a = securebits b \<and>
   cap_inheritable a = cap_inheritable b \<and> cap_permitted a = cap_permitted b \<and>
   cap_effective a = cap_effective b \<and> cap_bset a = cap_bset b \<and> user a = user b \<and> groups a = groups b"
  by (cases a, cases b) (simp add: strip_gids_def)

lemma strip_uidsD:
  "strip_uids a = strip_uids b \<Longrightarrow>
   gid a = gid b \<and> sgid a = sgid b \<and> egid a = egid b \<and> fsgid a = fsgid b \<and>
   securebits a = securebits b \<and> cap_inheritable a = cap_inheritable b \<and> cap_bset a = cap_bset b \<and>
   groups a = groups b"
  by (cases a, cases b) (simp add: strip_uids_def)

lemmas change_defs = horizon_def root_caps_def unprivileged_def cred_ok_def caps_ok_def groups_ok_def

lemma gid_change_call: "gid_change old new \<Longrightarrow> call_change old new"
  using unprivileged_has_cap [of old]
  by (auto simp: gid_change_def call_change_def change_defs user_numbers_def uid_set_def dest!: strip_gidsD)

lemma fixedD:
  assumes "fixed c new"
  shows "strip_uids new = strip_uids c" "uid_set new = uid_set c" "user new = user c" "uid new = uid c"
    "fsuid new = fsuid c"
proof -
  have e: "new = c\<lparr>cap_permitted := cap_permitted new, cap_effective := cap_effective new\<rparr>"
    using assms by (simp add: fixed_def)
  show "strip_uids new = strip_uids c" by (subst e) simp
  show "uid_set new = uid_set c" by (subst e) (simp add: uid_set_def)
  show "user new = user c" "uid new = uid c" "fsuid new = fsuid c" by (subst e, simp)+
qed

lemma uid_change_call: "uid_change old new \<Longrightarrow> call_change old new"
proof -
  assume "uid_change old new"
  then obtain c where c: "uid_prep old c" "fixed c new" by (auto simp: uid_change_def)
  have eq: "strip_uids new = strip_uids old" "cap_permitted c = cap_permitted old"
    "cap_effective c = cap_effective old"
    using fixedD(1) [OF c(2)] c(1) by (simp_all add: uid_prep_def ids_ok_def)
  have sub: "caps (cap_permitted new) \<subseteq> caps (cap_permitted old)"
    "caps (cap_effective new) \<subseteq> caps (cap_effective old) \<union> caps (cap_permitted old)"
    "caps_ok old \<longrightarrow> caps_ok new"
    using c(2) eq by (auto simp: fixed_def caps_ok_def)
  have "unprivileged old \<longrightarrow> uid_set new \<subseteq> uid_set old \<and> user_numbers new \<subseteq> user_numbers old"
    using unprivileged_has_cap [of old] c(1) fixedD(2,5) [OF c(2)]
    by (auto simp: uid_prep_def ids_ok_def allowed_def user_numbers_def uid_set_def)
  moreover have "user old = uid old \<longrightarrow> user new = uid new"
    using c(1) fixedD(3,4) [OF c(2)] by (simp add: uid_prep_def)
  moreover note strip_uidsD [OF eq(1)] sub
  ultimately show ?thesis
    unfolding call_change_def change_defs gid_set_def by auto
qed

lemma group_change_call: "group_change old new \<Longrightarrow> call_change old new"
  using unprivileged_has_cap [of old]
  by (auto simp: group_change_def call_change_def change_defs user_numbers_def uid_set_def gid_set_def)

lemma cap_change_call: "cap_change fcaps old new \<Longrightarrow> call_change old new"
proof -
  assume c: "cap_change fcaps old new"
  show ?thesis
  proof (cases "new = old")
    case False
    then obtain E I P where "new = old\<lparr>cap_effective := E, cap_inheritable := I, cap_permitted := P\<rparr>"
      "caps P \<subseteq> caps (cap_permitted old)" "caps E \<subseteq> caps P"
      "caps I \<subseteq> caps (cap_inheritable old) \<union> caps (cap_bset old)"
      using c by (auto simp: cap_change_def caps_ok_def)
    then show ?thesis by (auto simp: call_change_def change_defs user_numbers_def uid_set_def gid_set_def)
  qed (simp add: call_change_def)
qed

lemma prctl_change_call: "prctl_change old new \<Longrightarrow> call_change old new"
proof -
  assume c: "prctl_change old new"
  then obtain B sb where "new = old\<lparr>cap_bset := B, securebits := sb\<rparr>" "caps B \<subseteq> caps (cap_bset old)"
    "locks_kept (securebits old) sb"
    by (auto simp: prctl_change_def)
  then show ?thesis by (auto simp: call_change_def change_defs user_numbers_def uid_set_def gid_set_def)
qed

lemma outcome_error: "outcome Q k r \<Longrightarrow> fst r = Inl e \<Longrightarrow> same_creds k (snd r)"
  by (simp add: outcome_def)

lemmas all_outcomes =
  setregid_outcome setgid_outcome setresgid_outcome setreuid_outcome setuid_outcome setresuid_outcome
  capset_outcome cap_task_prctl_outcome

lemma outcome_call:
  "outcome Q k r \<Longrightarrow> (\<And>new. Q new \<Longrightarrow> call_change (current_cred k) new) \<Longrightarrow>
   moves k (snd r) \<and> call_change (current_cred k) (current_cred (snd r))"
  by (simp add: outcome_def)

lemmas call_outcomes =
  outcome_call [OF setregid_outcome gid_change_call] outcome_call [OF setgid_outcome gid_change_call]
  outcome_call [OF setresgid_outcome gid_change_call] outcome_call [OF setfsgid_outcome gid_change_call]
  outcome_call [OF setreuid_outcome uid_change_call] outcome_call [OF setuid_outcome uid_change_call]
  outcome_call [OF setresuid_outcome uid_change_call] outcome_call [OF setfsuid_outcome uid_change_call]
  outcome_call [OF capset_outcome cap_change_call] outcome_call [OF cap_task_prctl_outcome prctl_change_call]

lemma call_moves: "call fcaps k k' \<Longrightarrow> moves k k' \<and> call_change (current_cred k) (current_cred k')"
proof (induction rule: call.induct)
  case (call_setgroups mem gmem pages n usr k r k')
  then have "outcome (group_change (current_cred k)) k (r, k')"
    using setgroups_returns [of mem gmem pages n usr k] by auto
  from outcome_call [OF this group_change_call] show ?case by simp
qed (rule call_outcomes, assumption)+

lemma step_moves:
  "moves k (snd (execve fcaps mem shared in_exec f rd loads m nondump k))"
  "cred_ok (current_cred k) \<Longrightarrow>
   cred_ok (current_cred (snd (execve fcaps mem shared in_exec f rd loads m nondump k)))"
  "horizon (current_cred (snd (execve fcaps mem shared in_exec f rd loads m nondump k))) \<subseteq>
   horizon (current_cred k)"
  "pid (current k) \<noteq> 1 \<Longrightarrow> caps_ok (current_cred k) \<Longrightarrow>
   caps_ok (current_cred (snd (execve fcaps mem shared in_exec f rd loads m nondump k)))"
proof -
  let ?new = "current_cred (snd (execve fcaps mem shared in_exec f rd loads m nondump k))"
  obtain us where c: "exec_outcome fcaps us (pid (current k) = 1) (current_cred k) ?new"
    using execve_outcome(2) [OF refl refl, of shared in_exec k fcaps mem f rd loads m nondump] by blast
  show "moves k (snd (execve fcaps mem shared in_exec f rd loads m nondump k))"
    by (rule execve_outcome(1) [OF refl refl])
  show "cred_ok (current_cred k) \<Longrightarrow> cred_ok ?new"
    using c by (auto simp: exec_outcome_def exec_change_def change_defs)
  show "horizon ?new \<subseteq> horizon (current_cred k)"
    using c by (auto simp: exec_outcome_def exec_change_def change_defs split: if_splits)
  show "pid (current k) \<noteq> 1 \<Longrightarrow> caps_ok (current_cred k) \<Longrightarrow> caps_ok ?new"
    using c by (auto simp: exec_outcome_def exec_change_def caps_ok_def)
qed

section \<open>Counting processes\<close>

definition others_of :: "kernel \<Rightarrow> uid_t \<Rightarrow> nat set" where
  "others_of k u = {p. \<exists>t. others k p = Some t \<and> user (cred t) = u}"

definition kinv :: "kernel \<Rightarrow> bool" where
  "kinv k \<longleftrightarrow>
     finite (dom (others k)) \<and> others k (pid (current k)) = None \<and>
     (\<forall>p t. others k p = Some t \<longrightarrow> pid t = p \<and> cred_ok (cred t)) \<and> cred_ok (current_cred k) \<and>
     (\<forall>u. processes k u = int (card (others_of k u)) + (if user (current_cred k) = u then 1 else 0))"

lemma finite_others_of: "finite (dom (others k)) \<Longrightarrow> finite (others_of k u)"
  by (rule finite_subset [of _ "dom (others k)"]) (auto simp: others_of_def)

lemma kinv_moves:
  assumes "kinv k" "moves k k'" "cred_ok (current_cred k')"
  shows "kinv k'"
proof -
  have "others_of k' = others_of k" using assms(2) by (simp add: moves_def others_of_def fun_eq_iff)
  then show ?thesis using assms by (auto simp: kinv_def moves_def transfer_def)
qed

lemma card_others_add:
  assumes "finite (dom (others k))" "others k p = None" "others k' = (others k)(p \<mapsto> t)"
  shows "card (others_of k' u) = card (others_of k u) + (if user (cred t) = u then 1 else 0)"
proof -
  have "others_of k' u = (if user (cred t) = u then insert p (others_of k u) else others_of k u)"
    using assms(2,3) by (auto simp: others_of_def)
  moreover have "p \<notin> others_of k u" using assms(2) by (simp add: others_of_def)
  ultimately show ?thesis using finite_others_of [OF assms(1), of u] by simp
qed

lemma card_others_remove:
  assumes "finite (dom (others k))" "others k p = Some t" "others k' = (others k)(p := None)"
  shows "card (others_of k u) = card (others_of k' u) + (if user (cred t) = u then 1 else 0)"
proof -
  have "others k = (others k')(p \<mapsto> t)" "others k' p = None" "finite (dom (others k'))"
    using assms by (auto simp: fun_eq_iff dom_def elim: rev_finite_subset)
  then show ?thesis by (intro card_others_add)
qed

lemma kinv_fork:
  assumes "kinv k" "p \<noteq> pid (current k)" "others k p = None"
  shows "kinv (snd (copy_process mem thread newuser full p m pt k))"
proof -
  let ?u = "user (current_cred k)"
  have inv: "kinv k1" if "same_creds k k1" for k1
    using assms(1) that by (auto simp: kinv_def same_creds_def others_of_def)
  obtain ok k1 where c: "(if int (rlim_nproc (current k)) \<le> processes k ?u then
       let (adm, k) = capable CAP_SYS_ADMIN k in
       if adm then (True, k) else let (res, k) = capable CAP_SYS_RESOURCE k in (res \<or> ?u = 0, k)
     else (True, k)) = (ok, k1)" by fastforce
  note c = c [unfolded Let_def]
  have s: "same_creds k k1"
    using c by (auto simp: Let_def dest!: capable_same intro: same_creds_trans split: if_splits prod.splits)
  obtain e k2 where cc: "copy_creds mem thread newuser k1 = (e, k2)" by fastforce
  have k2: "if e = None then k2 = k1\<lparr>processes := (processes k1)(?u := processes k1 ?u + 1)\<rparr> else k2 = k1"
    using cc s by (auto simp: copy_creds_def Let_def same_creds_def split: if_splits)
  show ?thesis
  proof (cases "ok \<and> e = None \<and> \<not> full")
    case False
    have "same_creds k (snd (copy_process mem thread newuser full p m pt k))"
      unfolding copy_process_def Let_def c prod.case using False k2 cc s
      by (cases e) (auto simp: same_creds_def split: if_splits)
    then show ?thesis by (rule inv)
  next
    case True
    let ?t = "(current k2)\<lparr>pid := p, superpriv := False, pdeath_signal := 0, mm := m, ptrace := pt\<rparr>"
    let ?k = "k2\<lparr>others := (others k2)(p \<mapsto> ?t)\<rparr>"
    have eq: "snd (copy_process mem thread newuser full p m pt k) = ?k"
      unfolding copy_process_def Let_def c prod.case using True cc by simp
    have "card (others_of ?k u) = card (others_of k u) + (if ?u = u then 1 else 0)" for u
      using card_others_add [of k p ?k ?t u] assms k2 s True by (simp add: kinv_def same_creds_def)
    then show ?thesis
      unfolding eq using assms k2 s True by (auto simp: kinv_def same_creds_def)
  qed
qed

lemma kinv_release: "kinv k \<Longrightarrow> kinv (release_task p k)"
proof (cases "others k p")
  case (Some t)
  assume k: "kinv k"
  let ?k = "release_task p k"
  have r: "others ?k = (others k)(p := None)" "current ?k = current k"
    "processes ?k = (processes k)(user (cred t) := processes k (user (cred t)) - 1)"
    by (simp_all add: release_task_def Some Let_def)
  have "card (others_of k u) = card (others_of ?k u) + (if user (cred t) = u then 1 else 0)" for u
    using card_others_remove [OF _ Some r(1)] k by (simp add: kinv_def)
  with k show "kinv ?k" using r by (auto simp: kinv_def)
qed (simp add: release_task_def)

lemma kinv_switch: "kinv k \<Longrightarrow> kinv (switch_to p k)"
proof (cases "others k p")
  case (Some t)
  assume k: "kinv k"
  let ?k = "switch_to p k"
  let ?mid = "k\<lparr>others := (others k)(p := None)\<rparr>"
  have r: "others ?k = (others ?mid)(pid (current k) \<mapsto> current k)" "current ?k = t"
    "processes ?k = processes k"
    by (simp_all add: switch_to_def Some)
  have p: "pid t = p" "p \<noteq> pid (current k)" using k Some by (auto simp: kinv_def)
  have a: "card (others_of k u) = card (others_of ?mid u) + (if user (cred t) = u then 1 else 0)" for u
    by (rule card_others_remove) (use k Some in \<open>auto simp: kinv_def\<close>)
  have b: "card (others_of ?k u) = card (others_of ?mid u) + (if user (current_cred k) = u then 1 else 0)" for u
    by (rule card_others_add) (use k r(1) in \<open>auto simp: kinv_def\<close>)
  show "kinv ?k"
    using k r p Some a b unfolding kinv_def by auto
qed (simp add: switch_to_def)

lemma kinv_cred_ok: "kinv k \<Longrightarrow> cred_ok (current_cred k)"
  by (simp add: kinv_def)

lemma kinv_step: "step fcaps k k' \<Longrightarrow> kinv k \<Longrightarrow> kinv k'"
proof (induction rule: step.induct)
  case (step_call k k')
  then have "moves k k'" "cred_ok (current_cred k')"
    using call_moves [OF step_call(1)] kinv_cred_ok [of k] by (simp_all add: call_change_def)
  then show ?case using step_call(2) by (metis kinv_moves)
next
  case (step_exec k mem shared in_exec f rd loads m nondump)
  show ?case
    by (rule kinv_moves [OF step_exec step_moves(1) step_moves(2) [OF kinv_cred_ok [OF step_exec]]])
qed (rule kinv_fork kinv_release kinv_switch; assumption)+

section \<open>The system from boot\<close>

definition tasks :: "kernel \<Rightarrow> nat \<rightharpoonup> task" where
  "tasks k = (others k)(pid (current k) \<mapsto> current k)"

definition boot :: "bool \<Rightarrow> kernel \<Rightarrow> bool" where
  "boot fcaps k \<longleftrightarrow>
     others k = Map.empty \<and> current_cred k = init_cred fcaps \<and> processes k = (\<lambda>u. if u = 0 then 1 else 0)"

lemma kinv_boot: "boot fcaps k \<Longrightarrow> kinv k"
  by (auto simp: boot_def kinv_def others_of_def cred_ok_def groups_ok_def init_cred_def)

interpretation credentials: step_invariant "boot fcaps" "step fcaps" kinv for fcaps
  by unfold_locales (auto intro: kinv_boot kinv_step)

lemma kinv_count: "kinv k \<Longrightarrow> processes k u = int (card {p. \<exists>t. tasks k p = Some t \<and> uid (cred t) = u})"
proof -
  assume k: "kinv k"
  have "{p. \<exists>t. tasks k p = Some t \<and> uid (cred t) = u} =
      (if user (current_cred k) = u then insert (pid (current k)) (others_of k u) else others_of k u)"
    using k by (auto simp: tasks_def kinv_def others_of_def cred_ok_def split: if_splits)
  moreover have "finite (others_of k u)" "pid (current k) \<notin> others_of k u"
    using k finite_others_of by (auto simp: kinv_def others_of_def)
  ultimately show ?thesis using k by (simp add: kinv_def)
qed

text \<open>The calls of one task, with and without starting programs.\<close>

inductive task_step :: "bool \<Rightarrow> kernel \<Rightarrow> kernel \<Rightarrow> bool" for fcaps where
  "call fcaps k k' \<Longrightarrow> task_step fcaps k k'"
| "task_step fcaps k (snd (execve fcaps mem shared in_exec f rd loads m nondump k))"

text \<open>
  A set that every step of a task can only make smaller stays below its first value.
\<close>

locale shrinking =
  fixes step :: "'s \<Rightarrow> 's \<Rightarrow> bool" and held :: "'s \<Rightarrow> 'a set" and live :: "'s \<Rightarrow> bool"
  assumes step_live: "live s \<Longrightarrow> step s t \<Longrightarrow> live t"
    and step_held: "live s \<Longrightarrow> step s t \<Longrightarrow> held t \<subseteq> held s"
begin

lemma steps_held: "step\<^sup>*\<^sup>* s t \<Longrightarrow> live s \<Longrightarrow> live t \<and> held t \<subseteq> held s"
  by (induction rule: rtranclp_induct) (auto dest: step_live step_held)

end

interpretation horizons: shrinking "task_step fcaps" "\<lambda>k. horizon (current_cred k)" "\<lambda>_. True" for fcaps
proof unfold_locales
  show "horizon (current_cred t) \<subseteq> horizon (current_cred s)" if "task_step fcaps s t" for s t
    using that
  proof cases
    case 1
    then show ?thesis using call_moves by (simp add: call_change_def)
  next
    case 2
    then show ?thesis using step_moves(3) by simp
  qed
qed simp

interpretation user_ids: shrinking "call fcaps" "\<lambda>k. uid_set (current_cred k)"
  "\<lambda>k. unprivileged (current_cred k)" for fcaps
  by unfold_locales (use call_moves in \<open>auto simp: call_change_def\<close>)

interpretation all_user_ids: shrinking "call fcaps" "\<lambda>k. user_numbers (current_cred k)"
  "\<lambda>k. unprivileged (current_cred k)" for fcaps
  by unfold_locales (use call_moves in \<open>auto simp: call_change_def\<close>)

interpretation supplementary: shrinking "call fcaps" "\<lambda>k. {groups (current_cred k)}"
  "\<lambda>k. unprivileged (current_cred k)" for fcaps
  by unfold_locales (use call_moves in \<open>auto simp: call_change_def\<close>)

interpretation group_ids: shrinking "call fcaps" "\<lambda>k. gid_set (current_cred k)"
  "\<lambda>k. unprivileged (current_cred k)" for fcaps
  by unfold_locales (use call_moves in \<open>auto simp: call_change_def\<close>)

interpretation inner_caps: step_invariant "\<lambda>k. pid (current k) \<noteq> 1 \<and> caps_ok (current_cred k)" "task_step fcaps"
  "\<lambda>k. pid (current k) \<noteq> 1 \<and> caps_ok (current_cred k)" for fcaps
proof unfold_locales
  show "pid (current t) \<noteq> 1 \<and> caps_ok (current_cred t)"
    if "pid (current s) \<noteq> 1 \<and> caps_ok (current_cred s)" "task_step fcaps s t" for s t
    using that(2)
  proof cases
    case 1
    then show ?thesis using call_moves [of fcaps s t] that(1) by (simp add: call_change_def moves_def)
  next
    case (2 mem shared in_exec f rd loads m nondump)
    then show ?thesis
      using step_moves(1,4) [of s fcaps mem shared in_exec f rd loads m nondump] that(1)
      by (simp add: moves_def)
  qed
qed simp

section \<open>Properties\<close>

definition boot_kernel :: "bool \<Rightarrow> kernel" where
  "boot_kernel fcaps =
     \<lparr>current = \<lparr>pid = 0, cred = init_cred fcaps, superpriv = False, pdeath_signal = 0, mm = None,
                 ptrace = 0, rlim_nproc = 100\<rparr>,
      others = Map.empty, processes = (\<lambda>u. if u = 0 then 1 else 0), dumpable = (\<lambda>_. 1),
      suid_dumpable = 0, file_caps_enabled = True\<rparr>"

text \<open>A task of user 1000 without capabilities, and a set-user-id program of root.\<close>

definition user_kernel :: kernel where
  "user_kernel = (boot_kernel False)\<lparr>current := (current (boot_kernel False))
     \<lparr>cred := (init_cred False)\<lparr>uid := 1000, suid := 1000, euid := 1000, fsuid := 1000, user := 1000,
        cap_permitted := CAP_EMPTY_SET, cap_effective := CAP_EMPTY_SET\<rparr>\<rparr>\<rparr>"

definition suid_root_file :: exec_file where
  "suid_root_file = \<lparr>i_mode = 0x9ED, i_uid = 0, i_gid = 0, mnt_nosuid = False, has_f_op = True,
     getxattr = None\<rparr>"

text \<open>
  C2: From boot on, after any sequence of identity calls, capability calls, program
  starts, forks, releases and task switches, the number of processes counted for a user
  is exactly the number of tasks whose real user number is that user.
\<close>

theorem process_counts_exact:
  assumes "boot fcaps k0" "(step fcaps)\<^sup>*\<^sup>* k0 k"
  shows "processes k u = int (card {p. \<exists>t. tasks k p = Some t \<and> uid (cred t) = u})"
  using credentials.inv_reachable [OF assms] by (rule kinv_count)

text \<open>The first task forks; user 0 then has the two processes 0 and 1.\<close>

theorem process_counts_exact_witness:
  "\<exists>k. (step False)\<^sup>*\<^sup>* (boot_kernel False) k \<and> processes k 0 = 2 \<and>
       card {p. \<exists>t. tasks k p = Some t \<and> uid (cred t) = 0} = 2"
proof -
  let ?k = "snd (copy_process True False False False 1 None 0 (boot_kernel False))"
  have "step False (boot_kernel False) ?k" by (rule step_fork) (simp_all add: boot_kernel_def)
  moreover have "boot False (boot_kernel False)" by (simp add: boot_def boot_kernel_def)
  moreover have "processes ?k 0 = 2"
    by (simp add: copy_process_def copy_creds_def boot_kernel_def init_cred_def)
  ultimately show ?thesis
    using process_counts_exact [of False "boot_kernel False" ?k 0] by auto
qed

text \<open>
  C3: A capability that is in none of a task's four sets - effective, permitted,
  inheritable and bounding - is never regained by that task, whatever identity and
  capability calls it makes and whatever programs it starts, set-user-id programs of
  root and programs with file capabilities included.
\<close>

theorem caps_never_regained:
  assumes "(task_step fcaps)\<^sup>*\<^sup>* k k'"
  shows "horizon (current_cred k') \<subseteq> horizon (current_cred k)"
  using horizons.steps_held [OF assms] by simp

text \<open>
  On this board the bounding set lacks \<^verbatim>\<open>CAP_SETPCAP\<close> (8), so that user 1000 does not get it
  from a set-user-id program of root.
\<close>

theorem caps_never_regained_witness:
  "\<exists>k'. execve False True False False suid_root_file None Loads 3 False user_kernel = (Inr 0, k') \<and>
        8 \<notin> horizon (current_cred k')"
proof -
  let ?r = "execve False True False False suid_root_file None Loads 3 False user_kernel"
  have "fst ?r = Inr 0"
    by (rule execve_plain_succeeds) (simp_all add: suid_root_file_def check_unsafe_exec_def)
  moreover have "8 \<notin> horizon (current_cred user_kernel)"
    by (simp add: user_kernel_def init_cred_def horizon_def root_caps_def caps_def
        CAP_INIT_EFF_SET_def CAP_TO_MASK_def CAP_EMPTY_SET_def bit_not_iff)
  moreover have "horizon (current_cred (snd ?r)) \<subseteq> horizon (current_cred user_kernel)"
    by (rule caps_never_regained [OF r_into_rtranclp]) (rule task_step.intros(2))
  ultimately show ?thesis by (intro exI [of _ "snd ?r"]) (metis prod.collapse subset_iff)
qed

text \<open>
  C13: For every task but the first one of user space (number 1), the effective
  capabilities stay within the permitted ones over any sequence of calls and program
  starts.
\<close>

theorem effective_within_permitted:
  assumes "(task_step fcaps)\<^sup>*\<^sup>* k k'" "pid (current k) \<noteq> 1" "caps_ok (current_cred k)"
  shows "caps_ok (current_cred k')"
  using inner_caps.inv_steps [OF assms(1)] assms(2,3) by simp

theorem effective_within_permitted_witness:
  "caps_ok (current_cred (snd (setuid True True 1000 (boot_kernel False))))"
  by (rule effective_within_permitted [OF r_into_rtranclp])
    (rule task_step.intros(1), rule call_setuid,
      auto simp: boot_kernel_def init_cred_def caps_ok_def dest: caps_lt)

text \<open>
  C4: A task without effective and permitted capabilities stays without them over any
  sequence of calls short of starting a program.  Its real, effective and saved user
  numbers are always among those three as they were, all four with the file system number
  among those four, its group numbers (real, effective, saved and file system) among those
  it had, and its supplementary groups do not change.
\<close>

theorem dropped_privileges_stay_dropped:
  assumes "(call fcaps)\<^sup>*\<^sup>* k k'" "unprivileged (current_cred k)"
  shows "unprivileged (current_cred k') \<and> uid_set (current_cred k') \<subseteq> uid_set (current_cred k) \<and>
    user_numbers (current_cred k') \<subseteq> user_numbers (current_cred k) \<and>
    gid_set (current_cred k') \<subseteq> gid_set (current_cred k) \<and>
    groups (current_cred k') = groups (current_cred k)"
  using user_ids.steps_held [OF assms] all_user_ids.steps_held [OF assms] group_ids.steps_held [OF assms]
    supplementary.steps_held [OF assms]
  by simp

text \<open>User 1000 asks for the numbers of root, then for its file system number.\<close>

theorem dropped_privileges_stay_dropped_witness:
  "\<exists>k'. (call False)\<^sup>*\<^sup>* user_kernel k' \<and>
        k' = snd (setfsuid True 0 (snd (setresuid True True 0 0 0 user_kernel))) \<and>
        user_numbers (current_cred k') \<subseteq> {1000} \<and> groups (current_cred k') = init_groups"
proof -
  let ?k = "snd (setresuid True True 0 0 0 user_kernel)" and ?k' = "\<lambda>k. snd (setfsuid True 0 k)"
  have "call False user_kernel ?k" "call False ?k (?k' ?k)"
    by (rule call_setresuid, rule call_setfsuid)
  then have r: "(call False)\<^sup>*\<^sup>* user_kernel (?k' ?k)"
    by (meson converse_rtranclp_into_rtranclp r_into_rtranclp)
  from dropped_privileges_stay_dropped [OF r] show ?thesis
    by (intro exI [of _ "?k' ?k"] conjI r refl)
      (simp_all add: user_kernel_def init_cred_def unprivileged_def user_numbers_def uid_set_def)
qed

text \<open>
  C5: A traced task whose tracer lacks the privilege to trace set-user-id programs
  (\<^verbatim>\<open>PT_PTRACE_CAP\<close>), or one that shares its file system state, gains nothing by starting a
  program: if it does not hold \<^verbatim>\<open>CAP_SETUID\<close> and, on a kernel without file capabilities, does
  not hold \<^verbatim>\<open>CAP_SETPCAP\<close> either, its new permitted capabilities are among the old ones and
  all its user and group numbers become its real ones.
\<close>

theorem unsafe_exec_gains_nothing:
  assumes "execve fcaps mem shared in_exec f rd loads m nondump k = (Inr v, k')"
    "shared \<or> ptrace (current k) AND PT_PTRACED \<noteq> 0 \<and> ptrace (current k) AND PT_PTRACE_CAP = 0"
    "\<not> has_cap (current_cred k) CAP_SETUID" "fcaps \<or> \<not> has_cap (current_cred k) CAP_SETPCAP"
  shows "caps (cap_permitted (current_cred k')) \<subseteq> caps (cap_permitted (current_cred k)) \<and>
    user_numbers (current_cred k') = {uid (current_cred k)} \<and> gid_set (current_cred k') = {gid (current_cred k)}"
  using execve_success [OF assms(1)] check_unsafe_exec_bits [OF _ assms(2)] assms(3,4)
  by (auto simp: exec_change_def)

text \<open>A traced task of user 1000 starts a set-user-id program of root.\<close>

definition traced_kernel :: kernel where
  "traced_kernel = user_kernel\<lparr>current := (current user_kernel)\<lparr>pid := 7, ptrace := PT_PTRACED\<rparr>\<rparr>"

theorem unsafe_exec_gains_nothing_witness:
  "\<exists>k'. execve False True False False suid_root_file None Loads 3 False traced_kernel = (Inr 0, k') \<and>
        user_numbers (current_cred k') = {1000} \<and> caps (cap_permitted (current_cred k')) = {}"
proof -
  let ?r = "execve False True False False suid_root_file None Loads 3 False traced_kernel"
  have "fst ?r = Inr 0"
    by (rule execve_plain_succeeds) (simp_all add: suid_root_file_def check_unsafe_exec_def)
  then have r: "?r = (Inr 0, snd ?r)" by (metis prod.collapse)
  have "\<not> has_cap (current_cred traced_kernel) c" if "c = CAP_SETUID \<or> c = CAP_SETPCAP" for c
    using that has_cap_effective [of "current_cred traced_kernel" c]
    by (auto simp: traced_kernel_def user_kernel_def)
  with unsafe_exec_gains_nothing [OF r] r show ?thesis
    by (intro exI [of _ "snd ?r"]) (auto simp: traced_kernel_def user_kernel_def)
qed

text \<open>
  C22: An identity, group, capability or process control call, or the start of a
  program, that returns an error leaves the credentials of every task and the process
  counts as they were.  The start of a program is excepted if its handler fails after it
  installed the new credentials (\<^verbatim>\<open>create_elf_tables\<close> in \<^verbatim>\<open>load_elf_binary\<close>), where the task is
  killed.
\<close>

theorem failed_calls_change_nothing:
  assumes "r \<in> {setregid mem a b k, setgid mem a k, setreuid mem umem a b k, setuid mem umem a k,
      setresuid mem umem a b c k, setresgid mem a b c k, capset fcaps mem version writable hdr_pid data k,
      cap_task_prctl fcaps mem opt a k} \<or>
    setgroups mem gmem pages n usr k = Some (Inr r) \<or>
    r = execve fcaps mem shared in_exec f rd loads m nondump k \<and> \<not> fails_committed loads"
    "fst r = Inl e"
  shows "same_creds k (snd r)"
  using assms(1)
proof (elim disjE conjE)
  assume "setgroups mem gmem pages n usr k = Some (Inr r)"
  then have "outcome (group_change (current_cred k)) k r"
    using setgroups_returns [of mem gmem pages n usr k] by auto
  from outcome_error [OF this assms(2)] show ?thesis .
next
  assume "r = execve fcaps mem shared in_exec f rd loads m nondump k" "\<not> fails_committed loads"
  note outcome = execve_outcome(3) [OF refl this]
  show ?thesis by (rule outcome_error [OF outcome assms(2)])
qed (elim insertE emptyE; rule outcome_error [OF _ assms(2)], simp only:, rule all_outcomes)

theorem failed_calls_change_nothing_witness:
  "same_creds user_kernel (snd (setuid True True 0 user_kernel))"
proof (rule failed_calls_change_nothing [where mem = True and umem = True and a = 0 and k = user_kernel])
  show "fst (setuid True True 0 user_kernel) = Inl EPERM"
  proof -
    have "\<not> has_cap (current_cred user_kernel) CAP_SETUID"
      using has_cap_effective [of "current_cred user_kernel" CAP_SETUID] by (auto simp: user_kernel_def)
    then have "capable CAP_SETUID user_kernel = (False, user_kernel)"
      by (simp add: capable_def has_cap_def)
    then show ?thesis by (simp add: setuid_def) (simp add: user_kernel_def)
  qed
qed simp

text \<open>
  C14: A task that may inspect another one either holds \<^verbatim>\<open>CAP_SYS_PTRACE\<close>, or the real,
  effective and saved user and group numbers of the other task all are its own real user
  and group number, the other task may be dumped, and it is permitted no capability that
  the inspecting task is not.
\<close>

theorem ptrace_access_guarded:
  assumes "uu_ptrace_may_access t k = (None, k')" "pid t \<noteq> pid (current k)"
  shows "has_cap (current_cred k) CAP_SYS_PTRACE \<or>
    caps (cap_permitted (cred t)) \<subseteq> caps (cap_permitted (current_cred k)) \<and>
    uid_set (cred t) = {uid (current_cred k)} \<and>
    {gid (cred t), egid (cred t), sgid (cred t)} = {gid (current_cred k)} \<and> (\<exists>m. mm t = Some m \<and> dumpable k m \<noteq> 0)"
proof (cases "has_cap (current_cred k) CAP_SYS_PTRACE")
  case False
  then have n: "or_capable b CAP_SYS_PTRACE k = (b, k)" for b
    by (cases b) (auto simp: or_capable_def capable_def has_cap_def)
  show ?thesis
    using assms by (auto simp: uu_ptrace_may_access_def cap_ptrace_access_check_def n uid_set_def Let_def
        split: if_splits option.splits)
qed simp

theorem ptrace_access_guarded_witness:
  "\<exists>k'. uu_ptrace_may_access ((current user_kernel)\<lparr>pid := 9, mm := Some 4\<rparr>) user_kernel = (None, k') \<and>
        caps (cap_permitted (cred ((current user_kernel)\<lparr>pid := 9, mm := Some 4\<rparr>))) \<subseteq>
        caps (cap_permitted (current_cred user_kernel))"
proof -
  let ?t = "(current user_kernel)\<lparr>pid := 9, mm := Some 4\<rparr>"
  have r: "uu_ptrace_may_access ?t user_kernel = (None, user_kernel)"
    by (simp add: uu_ptrace_may_access_def cap_ptrace_access_check_def or_capable_def user_kernel_def
        boot_kernel_def init_cred_def)
  have "\<not> has_cap (current_cred user_kernel) CAP_SYS_PTRACE"
    using has_cap_effective [of "current_cred user_kernel" CAP_SYS_PTRACE] by (auto simp: user_kernel_def)
  with ptrace_access_guarded [OF r] r show ?thesis by (auto simp: user_kernel_def boot_kernel_def)
qed

text \<open>
  C16: Setting the groups always returns: with \<^verbatim>\<open>EPERM\<close> without \<^verbatim>\<open>CAP_SETGID\<close>, \<^verbatim>\<open>EINVAL\<close> for a
  negative number of groups or more than \<^verbatim>\<open>NGROUPS_MAX\<close>, \<^verbatim>\<open>ENOMEM\<close> without memory, \<^verbatim>\<open>EFAULT\<close> if the list
  cannot be read, and otherwise with success.  After a success, a number is accepted as a
  group of the task exactly if it is the file system group or in the list the user passed,
  as long as the list lies less than \<open>2 ^ 31\<close> from it.
\<close>

theorem setgroups_then_member:
  "\<exists>r k'. setgroups mem gmem pages n usr k = Some (Inr (r, k')) \<and>
    r = (if \<not> has_cap (current_cred k) CAP_SETGID then Inl EPERM
         else if n < 0 \<or> NGROUPS_MAX < n then Inl EINVAL
         else if groups_alloc gmem pages n = None then Inl ENOMEM
         else if length usr < nat n then Inl EFAULT
         else if \<not> mem then Inl ENOMEM else Inr 0) \<and>
    (r = Inr 0 \<and> near (take (nat n) usr) grp \<longrightarrow>
       in_group_p (current_cred k') grp = Inr (grp = fsgid (current_cred k) \<or> grp \<in> set (take (nat n) usr)))"
proof -
  obtain r k' where r: "setgroups mem gmem pages n usr k = Some (Inr (r, k'))"
    "r = setgroups_code mem gmem pages n usr (current_cred k)"
    "r = Inr 0 \<longrightarrow> gids (groups (current_cred k')) = sort (take (nat n) usr) \<and>
      gi_ok (groups (current_cred k')) \<and> fsgid (current_cred k') = fsgid (current_cred k)"
    using setgroups_returns [of mem gmem pages n usr k] by (metis prod.collapse fst_conv snd_conv)
  have "in_group_p (current_cred k') grp = Inr (grp = fsgid (current_cred k) \<or> grp \<in> set (take (nat n) usr))"
    if "r = Inr 0" "near (take (nat n) usr) grp"
  proof -
    note g = r(3) [rule_format, OF that(1)]
    have near: "sorted (gids (groups (current_cred k')))" "near (gids (groups (current_cred k'))) grp"
      using g that(2) by (simp_all add: near_def)
    with groups_search_complete [of "groups (current_cred k')" grp] g show ?thesis
      by (auto simp: in_group_p_def)
  qed
  with r(1,2) show ?thesis unfolding setgroups_code_def by blast
qed

text \<open>Root, which may set groups, sets two, and one of them is accepted afterwards.\<close>

theorem setgroups_then_member_witness:
  "\<exists>k'. setgroups True (Some (\<lambda>_. 0)) [] 2 [3003, 1001] (boot_kernel False) = Some (Inr (Inr 0, k')) \<and>
     in_group_p (current_cred k') 1001 = Inr True"
proof -
  have "has_cap (current_cred (boot_kernel False)) CAP_SETGID"
    by (simp add: has_cap_def cap_capable_def cap_raised_def cap_at_def CAP_TO_INDEX_def CAP_TO_MASK_def
        boot_kernel_def init_cred_def CAP_INIT_EFF_SET_def)
  moreover obtain gi where "groups_alloc (Some (\<lambda>_. 0)) [] 2 = Some gi" by (simp add: groups_alloc_def)
  ultimately show ?thesis
    using setgroups_then_member [of True "Some (\<lambda>_. 0)" "[]" 2 "[3003, 1001]" "boot_kernel False" 1001]
    by (simp add: near_def)
qed

text \<open>Without file capabilities and for a task other than the first, a safe start is simple.\<close>

lemma cap_bprm_set_creds_plain:
  assumes "bprm_unsafe bprm = 0" "pid (current k) \<noteq> 1" "euid (bprm_cred bprm) \<noteq> 0"
    "uid (bprm_cred bprm) = 0" "\<not> issecure (current_cred k) SECURE_NOROOT"
  shows "\<exists>b. cap_bprm_set_creds False f bprm k = (None, b, k) \<and>
    caps (cap_effective (bprm_cred b)) = {} \<and> caps (cap_permitted (bprm_cred b)) = root_caps (current_cred k)"
  using assms
  by (simp add: cap_bprm_set_creds_def get_file_caps_def root_privileges_def limit_unsafe_def
      bprm_clear_caps_def Let_def root_caps_def)

lemma prepare_binprm_plain:
  assumes "has_f_op f" "i_mode f AND S_ISUID = 0" "uid (current_cred k) = 0" "euid (current_cred k) \<noteq> 0"
    "\<not> issecure (current_cred k) SECURE_NOROOT" "pid (current k) \<noteq> 1"
  shows "\<exists>b. prepare_binprm False f rd \<lparr>bprm_cred = current_cred k, bprm_cap_effective = False, bprm_unsafe = 0\<rparr> k =
    (rd, b, k) \<and>
    caps (cap_effective (bprm_cred b)) = {} \<and> caps (cap_permitted (bprm_cred b)) = root_caps (current_cred k)"
proof -
  let ?new = "(current_cred k)\<lparr>euid := euid (current_cred k), egid := egid (current_cred k)\<rparr>"
  let ?n = "if \<not> mnt_nosuid f \<and> i_mode f AND (S_ISGID OR S_IXGRP) = S_ISGID OR S_IXGRP
            then ?new\<lparr>egid := i_gid f\<rparr> else ?new"
  have "\<exists>b. cap_bprm_set_creds False f \<lparr>bprm_cred = ?n, bprm_cap_effective = False, bprm_unsafe = 0\<rparr> k =
      (None, b, k) \<and> caps (cap_effective (bprm_cred b)) = {} \<and>
      caps (cap_permitted (bprm_cred b)) = root_caps (current_cred k)"
    by (rule cap_bprm_set_creds_plain) (use assms in auto)
  then show ?thesis using assms(1,2) by (auto simp: prepare_binprm_def Let_def)
qed

text \<open>
  C27: A task whose real user is root but whose effective user is not, starting a program
  without the set-user-id bit, gets the whole permitted set of root and no effective
  capability; the comment in \<^verbatim>\<open>securebits.h\<close> says that a real user number of 0 raises the
  effective bit.  The kernel has no file capabilities, and the task is neither traced nor
  shares its file system state, does not have \<^verbatim>\<open>SECURE_NOROOT\<close> set, and is not task 1.
\<close>

theorem real_root_exec_not_effective:
  assumes "execve False mem False in_exec f rd loads m nondump k = (Inr v, k')" "ptrace (current k) = 0"
    "uid (current_cred k) = 0" "euid (current_cred k) \<noteq> 0" "\<not> issecure (current_cred k) SECURE_NOROOT"
    "i_mode f AND S_ISUID = 0" "has_f_op f" "pid (current k) \<noteq> 1"
  shows "caps (cap_effective (current_cred k')) = {} \<and>
    caps (cap_permitted (current_cred k')) = root_caps (current_cred k)"
proof -
  have us: "check_unsafe_exec False in_exec (current k) = (if in_exec then Inl EAGAIN else Inr 0)"
    using assms(2) by (simp add: check_unsafe_exec_def tracehook_unsafe_exec_def)
  obtain b where b: "prepare_binprm False f rd
      \<lparr>bprm_cred = current_cred k, bprm_cap_effective = False, bprm_unsafe = 0\<rparr> k = (rd, b, k)"
    "caps (cap_effective (bprm_cred b)) = {}" "caps (cap_permitted (bprm_cred b)) = root_caps (current_cred k)"
    using prepare_binprm_plain [OF assms(7,6,3-5,8)] by blast
  have "commit_creds (bprm_cred b) (setup_new_exec b m nondump k) = (Inr v, k')"
    using assms(1) us b(1) by (cases rd; cases loads) (auto simp: execve_def split: if_splits)
  then have "current_cred k' = bprm_cred b"
    using commit_creds_simps(2) [of "bprm_cred b" "setup_new_exec b m nondump k"] by simp
  with b show ?thesis by simp
qed

definition half_root_kernel :: kernel where
  "half_root_kernel = user_kernel\<lparr>current := (current user_kernel)
     \<lparr>pid := 7, cred := (current_cred user_kernel)\<lparr>uid := 0, user := 0\<rparr>\<rparr>\<rparr>"

theorem real_root_exec_not_effective_witness:
  "\<exists>k'. execve False True False False (suid_root_file\<lparr>i_mode := 0\<rparr>) None Loads 3 False half_root_kernel =
     (Inr 0, k') \<and> caps (cap_effective (current_cred k')) = {} \<and>
     8 \<notin> caps (cap_permitted (current_cred k'))"
proof -
  let ?f = "suid_root_file\<lparr>i_mode := 0\<rparr>"
  let ?r = "execve False True False False ?f None Loads 3 False half_root_kernel"
  have "fst ?r = Inr 0"
    by (rule execve_plain_succeeds) (simp_all add: suid_root_file_def check_unsafe_exec_def)
  then have r: "?r = (Inr 0, snd ?r)" by (metis prod.collapse)
  have "8 \<notin> root_caps (current_cred half_root_kernel)"
    by (simp add: half_root_kernel_def user_kernel_def init_cred_def root_caps_def caps_def
        CAP_INIT_EFF_SET_def CAP_TO_MASK_def CAP_EMPTY_SET_def bit_not_iff)
  with real_root_exec_not_effective [OF r] r show ?thesis
    by (intro exI [of _ "snd ?r"])
      (simp add: half_root_kernel_def user_kernel_def boot_kernel_def init_cred_def suid_root_file_def issecure_def)
qed

text \<open>
  C28: With \<^verbatim>\<open>SECURE_KEEP_CAPS\<close> set, \<^verbatim>\<open>setuid\<close> from root to another user keeps the permitted set
  and clears the effective one; the comment on \<^verbatim>\<open>cap_emulate_setxuid\<close> says that both are retained.
\<close>

theorem keep_caps_clears_effective:
  assumes "setuid mem umem u k = (Inr v, k')" "has_cap (current_cred k) CAP_SETUID"
    "issecure (current_cred k) SECURE_KEEP_CAPS" "\<not> issecure (current_cred k) SECURE_NO_SETUID_FIXUP"
    "euid (current_cred k) = 0" "u \<noteq> 0"
  shows "cap_permitted (current_cred k') = cap_permitted (current_cred k) \<and>
    caps (cap_effective (current_cred k')) = {}"
proof -
  obtain ok k1 where c: "capable CAP_SETUID k = (ok, k1)" by fastforce
  have ok: "ok" using capable_same [OF c] assms(2) by simp
  have fix_eq: "cap_task_fix_setuid c (current_cred k) LSM_SETID_ID =
      Inr (c\<lparr>cap_effective := CAP_EMPTY_SET\<rparr>)" if "euid c = u" for c
    using assms(3-6) that by (simp add: cap_task_fix_setuid_def cap_emulate_setxuid_def)
  have "\<exists>c. commit_creds (c\<lparr>cap_effective := CAP_EMPTY_SET\<rparr>) k1 = (Inr v, k') \<and>
      cap_permitted c = cap_permitted (current_cred k)"
    using assms(1) ok
    by (auto simp: setuid_def c Let_def fix_and_commit_def fix_eq set_user_def split: if_splits)
  then obtain c where "commit_creds (c\<lparr>cap_effective := CAP_EMPTY_SET\<rparr>) k1 = (Inr v, k')"
    "cap_permitted c = cap_permitted (current_cred k)" by blast
  then show ?thesis
    using commit_creds_simps(2) [of "c\<lparr>cap_effective := CAP_EMPTY_SET\<rparr>" k1] by simp
qed

definition keep_kernel :: kernel where
  "keep_kernel = (boot_kernel False)\<lparr>current := (current (boot_kernel False))
     \<lparr>cred := (init_cred False)\<lparr>securebits := 0x10\<rparr>\<rparr>\<rparr>"

theorem keep_caps_clears_effective_witness:
  "\<exists>k'. setuid True True 1000 keep_kernel = (Inr 0, k') \<and> cap_permitted (current_cred k') = CAP_FULL_SET \<and>
        caps (cap_effective (current_cred k')) = {}"
proof -
  have has: "has_cap (current_cred keep_kernel) CAP_SETUID"
    by (simp add: has_cap_def cap_capable_def cap_raised_def cap_at_def CAP_TO_INDEX_def CAP_TO_MASK_def
        keep_kernel_def init_cred_def CAP_INIT_EFF_SET_def)
  have s: "issecure (current_cred keep_kernel) SECURE_KEEP_CAPS"
    "\<not> issecure (current_cred keep_kernel) SECURE_NO_SETUID_FIXUP" "euid (current_cred keep_kernel) = 0"
    by (simp_all add: keep_kernel_def init_cred_def issecure_def issecure_mask_def)
  have "fst (setuid True True 1000 keep_kernel) = Inr 0"
    using has
    by (simp add: setuid_def capable_def has_cap_def set_user_def fix_and_commit_def cap_task_fix_setuid_def
        Let_def)
      (simp add: keep_kernel_def boot_kernel_def init_cred_def)
  then have r: "setuid True True 1000 keep_kernel = (Inr 0, snd (setuid True True 1000 keep_kernel))"
    by (metis prod.collapse)
  from keep_caps_clears_effective [OF r has s] show ?thesis
    by (subst r) (simp add: keep_kernel_def init_cred_def)
qed

end
