(* ===== verification/Resource.thy ===== *)
theory Resource
  imports Prelude
begin

text \<open>
  The resource trees of \<^verbatim>\<open>kernel/resource.c\<close>: who owns which range of I/O ports or
  physical addresses.  A descriptor lives at an address of a store, and the code links
  descriptors by parent, sibling and child pointers, so the model has the store explicitly;
  a slot is the address of a pointer field, what the code's \<^verbatim>\<open>struct resource **p\<close> holds.
  Every walk is a loop over pointers: \<^term>\<open>None\<close> is a walk that never ends, \<^term>\<open>Some (Inl c)\<close>
  a crash.  This theory holds the definitions; \<^verbatim>\<open>resource_size_t\<close> is 32 bits wide.
\<close>

section \<open>Descriptors and the store\<close>

record resource =
  rs_start :: u32
  rs_end :: u32
  rs_name :: "string option"
  rs_flags :: u32
  rs_parent :: "nat option"
  rs_sibling :: "nat option"
  rs_child :: "nat option"

type_synonym heap = "nat \<rightharpoonup> resource"
type_synonym 'a run = "(crash + 'a) option"

abbreviation "IORESOURCE_IO \<equiv> (0x100 :: u32)"
abbreviation "IORESOURCE_MEM \<equiv> (0x200 :: u32)"
abbreviation "IORESOURCE_SIZEALIGN \<equiv> (0x20000 :: u32)"
abbreviation "IORESOURCE_STARTALIGN \<equiv> (0x40000 :: u32)"
abbreviation "IORESOURCE_EXCLUSIVE \<equiv> (0x8000000 :: u32)"
abbreviation "IORESOURCE_BUSY \<equiv> (0x80000000 :: u32)"

definition resource_zero :: resource where
  "resource_zero = \<lparr>rs_start = 0, rs_end = 0, rs_name = None, rs_flags = 0,
     rs_parent = None, rs_sibling = None, rs_child = None\<rparr>"

definition iomem_resource :: resource where
  "iomem_resource = resource_zero\<lparr>rs_name := Some ''PCI mem'', rs_start := 0, rs_end := - 1,
     rs_flags := IORESOURCE_MEM\<rparr>"

definition deref :: "heap \<Rightarrow> nat \<Rightarrow> crash + resource" where
  "deref h a = (case h a of None \<Rightarrow> Inl Dangling | Some r \<Rightarrow> Inr r)"

definition deref_ptr :: "heap \<Rightarrow> nat option \<Rightarrow> crash + nat \<times> resource" where
  "deref_ptr h p =
     (case p of None \<Rightarrow> Inl Null_deref | Some a \<Rightarrow> bindE (deref h a) (\<lambda>r. Inr (a, r)))"

definition modify :: "heap \<Rightarrow> nat \<Rightarrow> (resource \<Rightarrow> resource) \<Rightarrow> crash + heap" where
  "modify h a f = bindE (deref h a) (\<lambda>r. Inr (h(a \<mapsto> f r)))"

datatype slot = Child_of nat | Sibling_of nat

fun load :: "heap \<Rightarrow> slot \<Rightarrow> crash + nat option" where
  "load h (Child_of a) = bindE (deref h a) (\<lambda>r. Inr (rs_child r))"
| "load h (Sibling_of a) = bindE (deref h a) (\<lambda>r. Inr (rs_sibling r))"

fun store :: "heap \<Rightarrow> slot \<Rightarrow> nat option \<Rightarrow> crash + heap" where
  "store h (Child_of a) v = modify h a (rs_child_update (\<lambda>_. v))"
| "store h (Sibling_of a) v = modify h a (rs_sibling_update (\<lambda>_. v))"

section \<open>Walking a tree\<close>

text \<open>The climb of \<^verbatim>\<open>r_next\<close>: up to the first ancestor with a sibling.\<close>

partial_function (option) climb :: "nat \<Rightarrow> heap \<Rightarrow> nat option run" where
  "climb p h =
     bindR (Some (deref h p)) (\<lambda>r.
       case (rs_sibling r, rs_parent r) of
         (None, Some q) \<Rightarrow> climb q h
       | _ \<Rightarrow> Some (Inr (rs_sibling r)))"

definition r_next :: "nat \<Rightarrow> heap \<Rightarrow> nat option run" where
  "r_next p h =
     bindR (Some (deref h p)) (\<lambda>r.
       case rs_child r of Some c \<Rightarrow> Some (Inr (Some c)) | None \<Rightarrow> climb p h)"

fun r_skip :: "nat \<Rightarrow> nat option \<Rightarrow> heap \<Rightarrow> nat option run" where
  "r_skip (Suc pos) (Some p) h = bindR (r_next p h) (\<lambda>q. r_skip pos q h)"
| "r_skip pos p h = Some (Inr p)"

definition r_start :: "nat \<Rightarrow> nat \<Rightarrow> heap \<Rightarrow> nat option run" where
  "r_start root pos h = bindR (Some (deref h root)) (\<lambda>r. r_skip pos (rs_child r) h)"

fun r_depth :: "nat \<Rightarrow> nat \<Rightarrow> nat \<Rightarrow> nat \<Rightarrow> heap \<Rightarrow> crash + nat" where
  "r_depth 0 depth root p h = Inr depth"
| "r_depth (Suc left) depth root p h =
     bindE (deref h p) (\<lambda>r.
       if rs_parent r = Some root then Inr depth
       else case rs_parent r of
              None \<Rightarrow> if left = 0 then Inr (Suc depth) else Inl Null_deref
            | Some q \<Rightarrow> r_depth left (Suc depth) root q h)"

text \<open>A line of \<^verbatim>\<open>/proc/iomem\<close>: indentation, width of the numbers, range and name.\<close>

definition r_show :: "nat \<Rightarrow> nat \<Rightarrow> heap \<Rightarrow> crash + nat \<times> nat \<times> u32 \<times> u32 \<times> string" where
  "r_show root p h =
     bindE (deref h root) (\<lambda>rt.
     bindE (r_depth 5 0 root p h) (\<lambda>depth.
     bindE (deref h p) (\<lambda>r.
       Inr (depth * 2, if rs_end rt < 0x10000 then 4 else 8, rs_start r, rs_end r,
            case rs_name r of None \<Rightarrow> ''<BAD>'' | Some n \<Rightarrow> n))))"

section \<open>Requesting and releasing\<close>

definition link :: "nat \<Rightarrow> nat \<Rightarrow> nat option \<Rightarrow> slot \<Rightarrow> heap \<Rightarrow> crash + heap" where
  "link root new tmp p h =
     bindE (modify h new (rs_sibling_update (\<lambda>_. tmp))) (\<lambda>h.
     bindE (store h p (Some new)) (\<lambda>h.
       modify h new (rs_parent_update (\<lambda>_. Some root))))"

partial_function (option) request_loop ::
  "nat \<Rightarrow> nat \<Rightarrow> u32 \<Rightarrow> u32 \<Rightarrow> slot \<Rightarrow> heap \<Rightarrow> (nat option \<times> heap) run" where
  "request_loop root new st en p h =
     bindR (Some (load h p)) (\<lambda>tmp.
       case tmp of
         None \<Rightarrow> bindR (Some (link root new tmp p h)) (\<lambda>h. Some (Inr (None, h)))
       | Some t \<Rightarrow>
           bindR (Some (deref h t)) (\<lambda>r.
             if rs_start r > en
             then bindR (Some (link root new tmp p h)) (\<lambda>h. Some (Inr (None, h)))
             else if rs_end r < st then request_loop root new st en (Sibling_of t) h
             else Some (Inr (Some t, h))))"

definition uu_request_resource :: "nat \<Rightarrow> nat \<Rightarrow> heap \<Rightarrow> (nat option \<times> heap) run" where
  "uu_request_resource root new h =
     bindR (Some (deref h new)) (\<lambda>n.
       let st = rs_start n; en = rs_end n in
       if en < st then Some (Inr (Some root, h))
       else bindR (Some (deref h root)) (\<lambda>r.
         if st < rs_start r then Some (Inr (Some root, h))
         else if en > rs_end r then Some (Inr (Some root, h))
         else request_loop root new st en (Child_of root) h))"

partial_function (option) release_loop ::
  "nat \<Rightarrow> slot \<Rightarrow> heap \<Rightarrow> (errno option \<times> heap) run" where
  "release_loop old p h =
     bindR (Some (load h p)) (\<lambda>tmp.
       case tmp of
         None \<Rightarrow> Some (Inr (Some EINVAL, h))
       | Some t \<Rightarrow>
           if t = old then
             bindR (Some (bindE (deref h t) (\<lambda>r. store h p (rs_sibling r)))) (\<lambda>h.
             bindR (Some (modify h old (rs_parent_update (\<lambda>_. None)))) (\<lambda>h.
               Some (Inr (None, h))))
           else release_loop old (Sibling_of t) h)"

definition uu_release_resource :: "nat \<Rightarrow> heap \<Rightarrow> (errno option \<times> heap) run" where
  "uu_release_resource old h =
     bindR (Some (deref h old)) (\<lambda>d.
       case rs_parent d of
         None \<Rightarrow> Some (Inl Null_deref)
       | Some q \<Rightarrow> release_loop old (Child_of q) h)"

definition conflict_errno :: "nat option \<times> heap \<Rightarrow> errno option \<times> heap" where
  "conflict_errno = (\<lambda>(conflict, h). (if conflict \<noteq> None then Some EBUSY else None, h))"

definition request_resource :: "nat \<Rightarrow> nat \<Rightarrow> heap \<Rightarrow> (errno option \<times> heap) run" where
  "request_resource root new h =
     bindR (uu_request_resource root new h) (\<lambda>c. Some (Inr (conflict_errno c)))"

definition release_resource :: "nat \<Rightarrow> heap \<Rightarrow> (errno option \<times> heap) run" where
  "release_resource old h = uu_release_resource old h"

section \<open>System memory\<close>

partial_function (option) ram_loop ::
  "u32 \<Rightarrow> u32 \<Rightarrow> u32 \<Rightarrow> string option \<Rightarrow> nat option \<Rightarrow> heap \<Rightarrow> nat option run" where
  "ram_loop st en fl name p h =
     (case p of
        None \<Rightarrow> Some (Inr None)
      | Some a \<Rightarrow>
          bindR (Some (deref h a)) (\<lambda>r.
            if rs_flags r \<noteq> fl then ram_loop st en fl name (rs_sibling r) h
            else if name \<noteq> None \<and> rs_name r = None then Some (Inl Null_deref)
            else if name \<noteq> None \<and> rs_name r \<noteq> name then ram_loop st en fl name (rs_sibling r) h
            else if rs_start r > en then Some (Inr None)
            else if rs_end r \<ge> st \<and> rs_start r < en then Some (Inr (Some a))
            else ram_loop st en fl name (rs_sibling r) h))"

text \<open>
  \<^verbatim>\<open>find_next_system_ram\<close> on the range \<open>st\<close>, \<open>en\<close> with the flags \<open>fl\<close> of \<^verbatim>\<open>res\<close>: the part of
  the range within the resource found, \<^term>\<open>None\<close> for the return value -1.
\<close>

definition find_next_system_ram ::
  "nat \<Rightarrow> u32 \<Rightarrow> u32 \<Rightarrow> u32 \<Rightarrow> string option \<Rightarrow> heap \<Rightarrow> (u32 \<times> u32) option run" where
  "find_next_system_ram iomem st en fl name h =
     (if st \<ge> en then Some (Inl Bug)
      else
        bindR (Some (deref h iomem)) (\<lambda>root.
        bindR (ram_loop st en fl name (rs_child root) h) (\<lambda>p.
          case p of
            None \<Rightarrow> Some (Inr None)
          | Some a \<Rightarrow>
              bindR (Some (deref h a)) (\<lambda>r.
                Some (Inr (Some (if st < rs_start r then rs_start r else st,
                                 if en > rs_end r then rs_end r else en)))))))"

partial_function (option) ram_range_loop ::
  "nat \<Rightarrow> (u32 \<Rightarrow> u32 \<Rightarrow> 's \<Rightarrow> int \<times> 's) \<Rightarrow> u32 \<Rightarrow> u32 \<Rightarrow> u32 \<Rightarrow> heap \<Rightarrow> int \<times> 's \<Rightarrow> (int \<times> 's) run" where
  "ram_range_loop iomem func orig_end st en h rs =
     (if st < en then
        bindR (find_next_system_ram iomem st en (IORESOURCE_MEM OR IORESOURCE_BUSY)
                 (Some ''System RAM'') h) (\<lambda>found.
          case found of
            None \<Rightarrow> Some (Inr rs)
          | Some (st', en') \<Rightarrow>
              (let rs = func (drop_bit 12 st') (drop_bit 12 (en' + 1 - st')) (snd rs)
               in if fst rs \<noteq> 0 then Some (Inr rs)
                  else ram_range_loop iomem func orig_end (en' + 1) orig_end h rs))
      else Some (Inr rs))"

text \<open>
  \<^verbatim>\<open>walk_system_ram_range\<close>: \<open>func\<close> is the callback, acting on what \<^verbatim>\<open>arg\<close> points to and not
  on the tree.  The page numbers are shifted as 64-bit values and stored in 32 bits.
\<close>

definition walk_system_ram_range ::
  "nat \<Rightarrow> u32 \<Rightarrow> u32 \<Rightarrow> (u32 \<Rightarrow> u32 \<Rightarrow> 's \<Rightarrow> int \<times> 's) \<Rightarrow> heap \<Rightarrow> 's \<Rightarrow> (int \<times> 's) run" where
  "walk_system_ram_range iomem start_pfn nr_pages func h s =
     (let st = ucast (push_bit 12 (ucast start_pfn :: 64 word)) :: u32;
          en = ucast (push_bit 12 (ucast (start_pfn + nr_pages) :: 64 word) - 1) :: u32
      in ram_range_loop iomem func en st en h (- 1, s))"

section \<open>Finding room\<close>

definition ALIGN :: "u32 \<Rightarrow> u32 \<Rightarrow> u32" where
  "ALIGN x a = (x + (a - 1)) AND NOT (a - 1)"

type_synonym alignf = "(resource \<Rightarrow> u32 \<Rightarrow> u32 \<Rightarrow> resource) option"

text \<open>One round of \<^verbatim>\<open>find_resource\<close>: the gap up to \<open>en\<close>, cut to the bounds and aligned.\<close>

definition fit_gap ::
  "u32 \<Rightarrow> u32 \<Rightarrow> u32 \<Rightarrow> u32 \<Rightarrow> alignf \<Rightarrow> u32 \<Rightarrow> resource \<Rightarrow> resource" where
  "fit_gap sz mn mx align alignf en n =
     (let n = n\<lparr>rs_end := en\<rparr>;
          n = (if rs_start n < mn then n\<lparr>rs_start := mn\<rparr> else n);
          n = (if rs_end n > mx then n\<lparr>rs_end := mx\<rparr> else n);
          n = n\<lparr>rs_start := ALIGN (rs_start n) align\<rparr>
      in case alignf of None \<Rightarrow> n | Some f \<Rightarrow> f n sz align)"

partial_function (option) find_loop ::
  "nat \<Rightarrow> nat \<Rightarrow> u32 \<Rightarrow> u32 \<Rightarrow> u32 \<Rightarrow> u32 \<Rightarrow> alignf \<Rightarrow> nat option \<Rightarrow> heap \<Rightarrow> (errno option \<times> heap) run"
  where
  "find_loop root new sz mn mx align alignf this h =
     bindR (Some (case this of
                    None \<Rightarrow> bindE (deref h root) (\<lambda>r. Inr (rs_end r))
                  | Some t \<Rightarrow> bindE (deref h t) (\<lambda>r. Inr (rs_start r - 1)))) (\<lambda>en.
     bindR (Some (deref h new)) (\<lambda>n.
       let n = fit_gap sz mn mx align alignf en n in
       if rs_start n < rs_end n \<and> rs_end n - rs_start n \<ge> sz - 1
       then Some (Inr (None, h(new \<mapsto> n\<lparr>rs_end := rs_start n + sz - 1\<rparr>)))
       else case this of
              None \<Rightarrow> Some (Inr (Some EBUSY, h(new \<mapsto> n)))
            | Some t \<Rightarrow>
                bindR (Some (deref (h(new \<mapsto> n)) t)) (\<lambda>r.
                  find_loop root new sz mn mx align alignf (rs_sibling r)
                    (h(new \<mapsto> n\<lparr>rs_start := rs_end r + 1\<rparr>)))))"

definition find_resource ::
  "nat \<Rightarrow> nat \<Rightarrow> u32 \<Rightarrow> u32 \<Rightarrow> u32 \<Rightarrow> u32 \<Rightarrow> alignf \<Rightarrow> heap \<Rightarrow> (errno option \<times> heap) run" where
  "find_resource root new sz mn mx align alignf h =
     bindR (Some (deref h root)) (\<lambda>r.
     bindR (Some (modify h new (rs_start_update (\<lambda>_. rs_start r)))) (\<lambda>h.
       case rs_child r of
         None \<Rightarrow> find_loop root new sz mn mx align alignf None h
       | Some t \<Rightarrow>
           bindR (Some (deref h t)) (\<lambda>c.
             if rs_start c = 0 then
               bindR (Some (modify h new (rs_start_update (\<lambda>_. rs_end c + 1)))) (\<lambda>h.
                 find_loop root new sz mn mx align alignf (rs_sibling c) h)
             else find_loop root new sz mn mx align alignf (Some t) h)))"

definition allocate_resource ::
  "nat \<Rightarrow> nat \<Rightarrow> u32 \<Rightarrow> u32 \<Rightarrow> u32 \<Rightarrow> u32 \<Rightarrow> alignf \<Rightarrow> heap \<Rightarrow> (errno option \<times> heap) run" where
  "allocate_resource root new sz mn mx align alignf h =
     bindR (find_resource root new sz mn mx align alignf h) (\<lambda>(err, h).
       case err of
         Some e \<Rightarrow> Some (Inr (Some e, h))
       | None \<Rightarrow> bindR (uu_request_resource root new h) (\<lambda>c. Some (Inr (conflict_errno c))))"

section \<open>Inserting above existing resources\<close>

text \<open>
  The first loop of \<^verbatim>\<open>__insert_resource\<close>: down to the resource the new one cannot go into.
  The result is a return value, or \<^verbatim>\<open>parent\<close> and \<^verbatim>\<open>first\<close> where the loop breaks.
\<close>

partial_function (option) descend_loop ::
  "nat \<Rightarrow> nat \<Rightarrow> heap \<Rightarrow> ((nat option + nat \<times> nat) \<times> heap) run" where
  "descend_loop parent new h =
     bindR (uu_request_resource parent new h) (\<lambda>(first, h).
       case first of
         None \<Rightarrow> Some (Inr (Inl None, h))
       | Some f \<Rightarrow>
           if f = parent then Some (Inr (Inl (Some f), h))
           else
             bindR (Some (deref h f)) (\<lambda>fr.
             bindR (Some (deref h new)) (\<lambda>n.
               if rs_start fr > rs_start n \<or> rs_end fr < rs_end n
               then Some (Inr (Inr (parent, f), h))
               else if rs_start fr = rs_start n \<and> rs_end fr = rs_end n
               then Some (Inr (Inr (parent, f), h))
               else descend_loop f new h)))"

text \<open>
  The second: over the siblings the new resource covers, to a partial overlap (\<^term>\<open>Inl\<close>) or
  to the last of them.
\<close>

partial_function (option) cover_loop :: "nat \<Rightarrow> nat \<Rightarrow> heap \<Rightarrow> (nat + nat) run" where
  "cover_loop new next h =
     bindR (Some (deref h next)) (\<lambda>x.
     bindR (Some (deref h new)) (\<lambda>n.
       if rs_start x < rs_start n \<or> rs_end x > rs_end n then Some (Inr (Inl next))
       else case rs_sibling x of
              None \<Rightarrow> Some (Inr (Inr next))
            | Some s \<Rightarrow>
                bindR (Some (deref h s)) (\<lambda>y.
                  if rs_start y > rs_end n then Some (Inr (Inr next))
                  else cover_loop new s h)))"

partial_function (option) adopt_loop :: "nat \<Rightarrow> nat option \<Rightarrow> heap \<Rightarrow> heap run" where
  "adopt_loop new next h =
     (case next of
        None \<Rightarrow> Some (Inr h)
      | Some x \<Rightarrow>
          bindR (Some (modify h x (rs_parent_update (\<lambda>_. Some new)))) (\<lambda>h.
          bindR (Some (deref h x)) (\<lambda>r. adopt_loop new (rs_sibling r) h)))"

partial_function (option) before_loop :: "nat \<Rightarrow> nat option \<Rightarrow> heap \<Rightarrow> nat run" where
  "before_loop first next h =
     bindR (Some (deref_ptr h next)) (\<lambda>(x, r).
       if rs_sibling r \<noteq> Some first then before_loop first (rs_sibling r) h
       else Some (Inr x))"

definition insert_above :: "nat \<Rightarrow> nat \<Rightarrow> nat \<Rightarrow> nat \<Rightarrow> heap \<Rightarrow> heap run" where
  "insert_above parent new first lst h =
     bindR (Some (deref h lst)) (\<lambda>l.
     bindR (Some (modify h new (\<lambda>n. n\<lparr>rs_parent := Some parent, rs_sibling := rs_sibling l,
                                      rs_child := Some first\<rparr>))) (\<lambda>h.
     bindR (Some (modify h lst (rs_sibling_update (\<lambda>_. None)))) (\<lambda>h.
     bindR (adopt_loop new (Some first) h) (\<lambda>h.
     bindR (Some (deref h parent)) (\<lambda>r.
       if rs_child r = Some first
       then bindR (Some (modify h parent (rs_child_update (\<lambda>_. Some new)))) (\<lambda>h. Some (Inr h))
       else
         bindR (before_loop first (rs_child r) h) (\<lambda>x.
         bindR (Some (modify h x (rs_sibling_update (\<lambda>_. Some new)))) (\<lambda>h. Some (Inr h))))))))"

definition uu_insert_resource :: "nat \<Rightarrow> nat \<Rightarrow> heap \<Rightarrow> (nat option \<times> heap) run" where
  "uu_insert_resource parent new h =
     bindR (descend_loop parent new h) (\<lambda>(d, h).
       case d of
         Inl ret \<Rightarrow> Some (Inr (ret, h))
       | Inr (parent, first) \<Rightarrow>
           bindR (cover_loop new first h) (\<lambda>c.
             case c of
               Inl next \<Rightarrow> Some (Inr (Some next, h))
             | Inr lst \<Rightarrow>
                 bindR (insert_above parent new first lst h) (\<lambda>h. Some (Inr (None, h)))))"

definition insert_resource :: "nat \<Rightarrow> nat \<Rightarrow> heap \<Rightarrow> (errno option \<times> heap) run" where
  "insert_resource parent new h =
     bindR (uu_insert_resource parent new h) (\<lambda>c. Some (Inr (conflict_errno c)))"

partial_function (option) expand_loop :: "nat \<Rightarrow> nat \<Rightarrow> heap \<Rightarrow> heap run" where
  "expand_loop root new h =
     bindR (uu_insert_resource root new h) (\<lambda>(conflict, h).
       case conflict of
         None \<Rightarrow> Some (Inr h)
       | Some c \<Rightarrow>
           if c = root then Some (Inr h)
           else
             bindR (Some (deref h c)) (\<lambda>cr.
             bindR (Some (modify h new (\<lambda>n.
                      let n = (if rs_start cr < rs_start n then n\<lparr>rs_start := rs_start cr\<rparr> else n)
                      in if rs_end cr > rs_end n then n\<lparr>rs_end := rs_end cr\<rparr> else n))) (\<lambda>h.
               expand_loop root new h)))"

definition insert_resource_expand_to_fit :: "nat \<Rightarrow> nat \<Rightarrow> heap \<Rightarrow> heap run" where
  "insert_resource_expand_to_fit root new h =
     bindR (Some (deref h new)) (\<lambda>n.
       if rs_parent n \<noteq> None then Some (Inr h) else expand_loop root new h)"

section \<open>Changing a range\<close>

partial_function (option) children_within :: "u32 \<Rightarrow> u32 \<Rightarrow> nat option \<Rightarrow> heap \<Rightarrow> bool run" where
  "children_within st en tmp h =
     (case tmp of
        None \<Rightarrow> Some (Inr True)
      | Some t \<Rightarrow>
          bindR (Some (deref h t)) (\<lambda>r.
            if rs_start r < st \<or> rs_end r > en then Some (Inr False)
            else children_within st en (rs_sibling r) h))"

definition adjust_resource :: "nat \<Rightarrow> u32 \<Rightarrow> u32 \<Rightarrow> heap \<Rightarrow> (errno option \<times> heap) run" where
  "adjust_resource res st sz h =
     bindR (Some (deref h res)) (\<lambda>r.
     bindR (Some (deref_ptr h (rs_parent r))) (\<lambda>(_, parent).
       let en = st + sz - 1 in
       if st < rs_start parent \<or> en > rs_end parent then Some (Inr (Some EBUSY, h))
       else
         bindR (children_within st en (rs_child r) h) (\<lambda>within.
           if \<not> within then Some (Inr (Some EBUSY, h))
           else
             bindR (Some (case rs_sibling r of
                            None \<Rightarrow> Inr False
                          | Some s \<Rightarrow> bindE (deref h s) (\<lambda>sr. Inr (rs_start sr \<le> en)))) (\<lambda>hit.
               if hit then Some (Inr (Some EBUSY, h))
               else
                 bindR (if rs_child parent = Some res then Some (Inr False)
                        else bindR (before_loop res (rs_child parent) h) (\<lambda>t.
                             bindR (Some (deref h t)) (\<lambda>tr. Some (Inr (st \<le> rs_end tr))))) (\<lambda>hit.
                   if hit then Some (Inr (Some EBUSY, h))
                   else Some (Inr (None, h(res \<mapsto> r\<lparr>rs_start := st, rs_end := en\<rparr>))))))))"

section \<open>Regions\<close>

text \<open>
  \<open>kzalloc h\<close> is the address of a fresh descriptor, \<^term>\<open>None\<close> where there is no memory.
\<close>

definition region :: "u32 \<Rightarrow> u32 \<Rightarrow> string option \<Rightarrow> u32 \<Rightarrow> resource" where
  "region st en name flags =
     resource_zero\<lparr>rs_name := name, rs_start := st, rs_end := en, rs_flags := IORESOURCE_BUSY OR flags\<rparr>"

partial_function (option) uu_reserve_region_with_split ::
  "(heap \<Rightarrow> nat option) \<Rightarrow> nat \<Rightarrow> u32 \<Rightarrow> u32 \<Rightarrow> string option \<Rightarrow> heap \<Rightarrow> heap run" where
  "uu_reserve_region_with_split kzalloc root st en name h =
     (case kzalloc h of
        None \<Rightarrow> Some (Inr h)
      | Some res \<Rightarrow>
          bindR (uu_request_resource root res (h(res \<mapsto> region st en name 0))) (\<lambda>(conflict, h).
            case conflict of
              None \<Rightarrow> Some (Inr h)
            | Some c \<Rightarrow>
                let h = h(res := None) in
                bindR (Some (deref h c)) (\<lambda>cr.
                  if rs_start cr \<le> st \<and> rs_end cr \<ge> en then Some (Inr h)
                  else
                    bindR (if rs_start cr > st
                           then uu_reserve_region_with_split kzalloc root st (rs_start cr - 1) name h
                           else Some (Inr h)) (\<lambda>h.
                    bindR (Some (deref h c)) (\<lambda>cr.
                      if rs_end cr < en
                      then uu_reserve_region_with_split kzalloc root (rs_end cr + 1) en name h
                      else Some (Inr h))))))"

definition reserve_region_with_split ::
  "(heap \<Rightarrow> nat option) \<Rightarrow> nat \<Rightarrow> u32 \<Rightarrow> u32 \<Rightarrow> string option \<Rightarrow> heap \<Rightarrow> heap run" where
  "reserve_region_with_split kzalloc root st en name h =
     uu_reserve_region_with_split kzalloc root st en name h"

definition resource_size :: "resource \<Rightarrow> u32" where
  "resource_size r = rs_end r - rs_start r + 1"

definition resource_alignment :: "resource \<Rightarrow> u32" where
  "resource_alignment r =
     (let f = rs_flags r AND (IORESOURCE_SIZEALIGN OR IORESOURCE_STARTALIGN) in
      if f = IORESOURCE_SIZEALIGN then resource_size r
      else if f = IORESOURCE_STARTALIGN then rs_start r
      else 0)"

partial_function (option) region_loop :: "nat \<Rightarrow> nat \<Rightarrow> heap \<Rightarrow> (nat option \<times> heap) run" where
  "region_loop parent res h =
     bindR (uu_request_resource parent res h) (\<lambda>(conflict, h).
       case conflict of
         None \<Rightarrow> Some (Inr (Some res, h))
       | Some c \<Rightarrow>
           bindR (Some (deref h c)) (\<lambda>cr.
             if c \<noteq> parent \<and> rs_flags cr AND IORESOURCE_BUSY = 0 then region_loop c res h
             else Some (Inr (None, h(res := None)))))"

definition uu_request_region ::
  "(heap \<Rightarrow> nat option) \<Rightarrow> nat \<Rightarrow> u32 \<Rightarrow> u32 \<Rightarrow> string option \<Rightarrow> u32 \<Rightarrow> heap \<Rightarrow> (nat option \<times> heap) run"
  where
  "uu_request_region kzalloc parent st n name flags h =
     (case kzalloc h of
        None \<Rightarrow> Some (Inr (None, h))
      | Some res \<Rightarrow> region_loop parent res (h(res \<mapsto> region st (st + n - 1) name flags)))"

definition uu_check_region ::
  "(heap \<Rightarrow> nat option) \<Rightarrow> nat \<Rightarrow> u32 \<Rightarrow> u32 \<Rightarrow> heap \<Rightarrow> (errno option \<times> heap) run" where
  "uu_check_region kzalloc parent st n h =
     bindR (uu_request_region kzalloc parent st n (Some ''check-region'') 0 h) (\<lambda>(res, h).
       case res of
         None \<Rightarrow> Some (Inr (Some EBUSY, h))
       | Some r \<Rightarrow>
           bindR (release_resource r h) (\<lambda>(_, h). Some (Inr (None, h(r := None)))))"

text \<open>\<^verbatim>\<open>__release_region\<close>; the result is false where the code prints its warning.\<close>

partial_function (option) release_region_loop ::
  "u32 \<Rightarrow> u32 \<Rightarrow> slot \<Rightarrow> heap \<Rightarrow> (bool \<times> heap) run" where
  "release_region_loop st en p h =
     bindR (Some (load h p)) (\<lambda>res.
       case res of
         None \<Rightarrow> Some (Inr (False, h))
       | Some a \<Rightarrow>
           bindR (Some (deref h a)) (\<lambda>r.
             if rs_start r \<le> st \<and> rs_end r \<ge> en then
               if rs_flags r AND IORESOURCE_BUSY = 0 then release_region_loop st en (Child_of a) h
               else if rs_start r \<noteq> st \<or> rs_end r \<noteq> en then Some (Inr (False, h))
               else bindR (Some (store h p (rs_sibling r))) (\<lambda>h. Some (Inr (True, h(a := None))))
             else release_region_loop st en (Sibling_of a) h))"

definition uu_release_region :: "nat \<Rightarrow> u32 \<Rightarrow> u32 \<Rightarrow> heap \<Rightarrow> (bool \<times> heap) run" where
  "uu_release_region parent st n h = release_region_loop st (st + n - 1) (Child_of parent) h"

section \<open>Managed regions\<close>

text \<open>
  The regions a device gives back when it goes away: the entries of its list of managed
  resources (\<^verbatim>\<open>drivers/base/devres.c\<close>) whose release function is \<^verbatim>\<open>devm_region_release\<close>, oldest
  first.  \<open>mem\<close> says whether \<^verbatim>\<open>devres_alloc\<close> succeeds.
\<close>

record region_devres =
  dr_parent :: nat
  dr_start :: u32
  dr_n :: u32

definition devm_region_release :: "region_devres \<Rightarrow> heap \<Rightarrow> (bool \<times> heap) run" where
  "devm_region_release this h = uu_release_region (dr_parent this) (dr_start this) (dr_n this) h"

definition devm_region_match :: "region_devres \<Rightarrow> region_devres \<Rightarrow> bool" where
  "devm_region_match this match_data \<longleftrightarrow>
     dr_parent this = dr_parent match_data \<and> dr_start this = dr_start match_data \<and>
     dr_n this = dr_n match_data"

text \<open>\<^verbatim>\<open>devres_destroy\<close>: drops the newest entry that matches; false for \<^verbatim>\<open>-ENOENT\<close>.\<close>

fun drop_first :: "('a \<Rightarrow> bool) \<Rightarrow> 'a list \<Rightarrow> 'a list option" where
  "drop_first P [] = None"
| "drop_first P (x # xs) = (if P x then Some xs else map_option ((#) x) (drop_first P xs))"

definition devres_destroy :: "region_devres \<Rightarrow> region_devres list \<Rightarrow> bool \<times> region_devres list" where
  "devres_destroy match_data drs =
     (case drop_first (\<lambda>d. devm_region_match d match_data) (rev drs) of
        None \<Rightarrow> (False, drs)
      | Some rest \<Rightarrow> (True, rev rest))"

definition uu_devm_request_region ::
  "(heap \<Rightarrow> nat option) \<Rightarrow> bool \<Rightarrow> nat \<Rightarrow> u32 \<Rightarrow> u32 \<Rightarrow> string option \<Rightarrow>
   heap \<times> region_devres list \<Rightarrow> (nat option \<times> heap \<times> region_devres list) run" where
  "uu_devm_request_region kzalloc mem parent st n name s =
     (if \<not> mem then Some (Inr (None, s))
      else
        let dr = \<lparr>dr_parent = parent, dr_start = st, dr_n = n\<rparr> in
        bindR (uu_request_region kzalloc parent st n name 0 (fst s)) (\<lambda>(res, h).
          Some (Inr (res, h, if res \<noteq> None then snd s @ [dr] else snd s))))"

definition uu_devm_release_region ::
  "nat \<Rightarrow> u32 \<Rightarrow> u32 \<Rightarrow> heap \<times> region_devres list \<Rightarrow> (bool \<times> heap \<times> region_devres list) run" where
  "uu_devm_release_region parent st n s =
     (let match_data = \<lparr>dr_parent = parent, dr_start = st, dr_n = n\<rparr> in
      bindR (uu_release_region parent st n (fst s)) (\<lambda>(_, h).
        let (found, drs) = devres_destroy match_data (snd s) in Some (Inr (found, h, drs))))"

section \<open>Checks of the memory tree\<close>

definition PFN_DOWN :: "u32 \<Rightarrow> u32" where
  "PFN_DOWN x = drop_bit 12 x"

partial_function (option) sanity_loop :: "u32 \<Rightarrow> u32 \<Rightarrow> nat option \<Rightarrow> heap \<Rightarrow> bool run" where
  "sanity_loop addr sz p h =
     (case p of
        None \<Rightarrow> Some (Inr True)
      | Some a \<Rightarrow>
          bindR (Some (deref h a)) (\<lambda>r.
            if rs_start r \<ge> addr + sz \<or> rs_end r < addr \<or>
               PFN_DOWN (rs_start r) \<le> PFN_DOWN addr \<and>
               PFN_DOWN (rs_end r) \<ge> PFN_DOWN (addr + sz - 1) \<or>
               rs_flags r AND IORESOURCE_BUSY \<noteq> 0
            then bindR (r_next a h) (\<lambda>q. sanity_loop addr sz q h)
            else Some (Inr False)))"

definition iomem_map_sanity_check :: "nat \<Rightarrow> u32 \<Rightarrow> u32 \<Rightarrow> heap \<Rightarrow> bool run" where
  "iomem_map_sanity_check iomem addr sz h =
     bindR (Some (deref h iomem)) (\<lambda>r. sanity_loop addr sz (rs_child r) h)"

partial_function (option) exclusive_loop :: "64 word \<Rightarrow> nat option \<Rightarrow> heap \<Rightarrow> bool run" where
  "exclusive_loop addr p h =
     (case p of
        None \<Rightarrow> Some (Inr False)
      | Some a \<Rightarrow>
          bindR (Some (deref h a)) (\<lambda>r.
            if (ucast (rs_start r) :: 64 word) \<ge> addr + 4096 then Some (Inr False)
            else if (ucast (rs_end r) :: 64 word) < addr
            then bindR (r_next a h) (\<lambda>q. exclusive_loop addr q h)
            else if rs_flags r AND IORESOURCE_BUSY \<noteq> 0 \<and> rs_flags r AND IORESOURCE_EXCLUSIVE \<noteq> 0
            then Some (Inr True)
            else bindR (r_next a h) (\<lambda>q. exclusive_loop addr q h)))"

text \<open>\<open>strict\<close> is the variable \<^verbatim>\<open>strict_iomem_checks\<close>.\<close>

definition iomem_is_exclusive :: "bool \<Rightarrow> nat \<Rightarrow> 64 word \<Rightarrow> heap \<Rightarrow> bool run" where
  "iomem_is_exclusive strict iomem addr h =
     (if \<not> strict then Some (Inr False)
      else
        bindR (Some (deref h iomem)) (\<lambda>r.
          exclusive_loop (addr AND 0xFFFFF000) (rs_child r) h))"

end
