(* ===== verification/Resource_Tree.thy ===== *)
theory Resource_Tree
  imports Resource "HOL-Library.Tree"
begin

text \<open>
  The shape of a resource tree in the store.  A list of siblings with their subtrees is a
  binary tree of addresses: the left subtree of a node holds its children, the right one its
  later siblings.  The theory shows how this shape behaves when one pointer changes, which
  is all that the operations do.
\<close>

section \<open>Lists of siblings\<close>

text \<open>
  \<open>forest h par lo hi p t e\<close>: following \<open>p\<close> in the store one meets the siblings of \<open>t\<close> and then the
  pointer \<open>e\<close>; they have the parent \<open>par\<close>, their ranges lie between \<open>lo\<close> and \<open>hi\<close> in increasing
  order without overlap, and the ranges of the children of a node lie within its own.
\<close>

fun forest :: "heap \<Rightarrow> nat option \<Rightarrow> nat \<Rightarrow> nat \<Rightarrow> nat option \<Rightarrow> nat tree \<Rightarrow> nat option \<Rightarrow> bool" where
  "forest h par lo hi p Leaf e \<longleftrightarrow> p = e"
| "forest h par lo hi p (Node k a s) e \<longleftrightarrow>
     p = Some a \<and>
     (case h a of
        None \<Rightarrow> False
      | Some r \<Rightarrow>
          rs_parent r = par \<and> lo \<le> unat (rs_start r) \<and> rs_start r \<le> rs_end r \<and>
          unat (rs_end r) \<le> hi \<and>
          forest h (Some a) (unat (rs_start r)) (unat (rs_end r)) (rs_child r) k None \<and>
          forest h par (Suc (unat (rs_end r))) hi (rs_sibling r) s e)"

text \<open>A whole tree: one node without parent and siblings, and distinct addresses.\<close>

definition tree_at :: "heap \<Rightarrow> nat \<Rightarrow> nat tree \<Rightarrow> bool" where
  "tree_at h root t \<longleftrightarrow> right t = Leaf \<and> distinct (preorder t) \<and>
     forest h None 0 (2 ^ 32 - 1) (Some root) t None"

fun tops :: "nat tree \<Rightarrow> nat list" where
  "tops Leaf = []"
| "tops (Node k a s) = a # tops s"

fun join :: "nat tree \<Rightarrow> nat tree \<Rightarrow> nat tree" where
  "join Leaf t = t"
| "join (Node k a s) t = Node k a (join s t)"

fun twhile :: "(nat \<Rightarrow> bool) \<Rightarrow> nat tree \<Rightarrow> nat tree" where
  "twhile P Leaf = Leaf"
| "twhile P (Node k a s) = (if P a then Node k a (twhile P s) else Leaf)"

fun dwhile :: "(nat \<Rightarrow> bool) \<Rightarrow> nat tree \<Rightarrow> nat tree" where
  "dwhile P Leaf = Leaf"
| "dwhile P (Node k a s) = (if P a then dwhile P s else Node k a s)"

lemma join_twhile [simp]: "join (twhile P t) (dwhile P t) = t"
  by (induction t) auto

lemma twhile_tops: "a \<in> set (tops (twhile P t)) \<Longrightarrow> P a"
  by (induction t) (auto split: if_splits)

lemma dwhile_top: "dwhile P t = Node k a s \<Longrightarrow> \<not> P a"
  by (induction t) (auto split: if_splits)

lemma tops_join [simp]: "tops (join t u) = tops t @ tops u"
  by (induction t) auto

lemma join_Leaf [simp]: "join t Leaf = t"
  by (induction t) auto

lemma join_assoc: "join (join t u) v = join t (join u v)"
  by (induction t) auto

lemma set_join [simp]: "set_tree (join t u) = set_tree t \<union> set_tree u"
  by (induction t) auto

lemma preorder_join [simp]: "preorder (join t u) = preorder t @ preorder u"
  by (induction t) auto

lemma tops_set: "set (tops t) \<subseteq> set_tree t"
  by (induction t) auto

lemma tops_in [dest]: "a \<in> set (tops t) \<Longrightarrow> a \<in> set_tree t"
  using tops_set by blast

lemma split_at_top:
  "a \<in> set (tops t) \<Longrightarrow> \<exists>u k s. t = join u (Node k a s)"
proof (induction t)
  case (Node k b s)
  show ?case
  proof (cases "a = b")
    case True
    then have "Node k b s = join Leaf (Node k a s)" by simp
    then show ?thesis by blast
  next
    case False
    with Node obtain u k' s' where "s = join u (Node k' a s')" by auto
    then have "Node k b s = join (Node k b u) (Node k' a s')" by simp
    then show ?thesis by blast
  qed
qed simp

lemma forest_frame:
  "\<forall>x\<in>set_tree t. h' x = h x \<Longrightarrow> forest h' par lo hi p t e = forest h par lo hi p t e"
proof (induction t arbitrary: par lo hi p e)
  case (Node k a s)
  then have "h' a = h a" by simp
  then show ?case using Node by (auto split: option.split)
qed simp

lemma forest_fun_upd [simp]:
  "x \<notin> set_tree t \<Longrightarrow> forest (h(x := v)) par lo hi p t e = forest h par lo hi p t e"
  by (rule forest_frame) auto

lemma forest_mono:
  "forest h par lo hi p t e \<Longrightarrow> lo' \<le> lo \<Longrightarrow> hi \<le> hi' \<Longrightarrow> forest h par lo' hi' p t e"
  by (induction t arbitrary: lo lo' p) (auto split: option.splits)

text \<open>Where the room behind the siblings of \<open>t\<close> begins.\<close>

fun reach :: "heap \<Rightarrow> nat \<Rightarrow> nat tree \<Rightarrow> nat" where
  "reach h lo Leaf = lo"
| "reach h lo (Node k a s) = reach h (case h a of None \<Rightarrow> lo | Some r \<Rightarrow> Suc (unat (rs_end r))) s"

lemma forest_join:
  "forest h par lo hi p (join t u) e \<longleftrightarrow>
     (\<exists>q. forest h par lo hi p t q \<and> forest h par (reach h lo t) hi q u e)"
  by (induction t arbitrary: lo p) (auto split: option.split)

lemma forest_split:
  "forest h par lo hi p t e \<Longrightarrow>
   \<exists>q. forest h par lo hi p (twhile P t) q \<and> forest h par (reach h lo (twhile P t)) hi q (dwhile P t) e"
  using forest_join [of h par lo hi p "twhile P t" "dwhile P t" e] by simp

lemma forest_top:
  "forest h par lo hi p t e \<Longrightarrow> a \<in> set (tops t) \<Longrightarrow>
   \<exists>r. h a = Some r \<and> rs_parent r = par \<and> lo \<le> unat (rs_start r) \<and> rs_start r \<le> rs_end r \<and>
       unat (rs_end r) \<le> hi"
proof (induction t arbitrary: lo p)
  case (Node k b s)
  then obtain r where r: "h b = Some r" "lo \<le> unat (rs_start r)" "rs_start r \<le> rs_end r"
    by (auto split: option.splits)
  from r(3) have le: "unat (rs_start r) \<le> unat (rs_end r)" by (simp add: word_le_nat_alt)
  show ?case
  proof (cases "a = b")
    case False
    with Node.prems r have "forest h par (Suc (unat (rs_end r))) hi (rs_sibling r) s e"
      and "a \<in> set (tops s)" by auto
    from Node.IH(2) [OF this] r le show ?thesis by auto
  qed (use Node.prems r in auto)
qed simp

lemma forest_node:
  "forest h par lo hi p t e \<Longrightarrow> a \<in> set_tree t \<Longrightarrow>
   \<exists>r. h a = Some r \<and> lo \<le> unat (rs_start r) \<and> rs_start r \<le> rs_end r \<and> unat (rs_end r) \<le> hi"
proof (induction t arbitrary: par lo hi p e)
  case (Node k b s)
  then obtain r where r: "h b = Some r" "lo \<le> unat (rs_start r)" "rs_start r \<le> rs_end r"
    "unat (rs_end r) \<le> hi"
    and k: "forest h (Some b) (unat (rs_start r)) (unat (rs_end r)) (rs_child r) k None"
    and s: "forest h par (Suc (unat (rs_end r))) hi (rs_sibling r) s e"
    by (auto split: option.splits)
  from r(3) have le: "unat (rs_start r) \<le> unat (rs_end r)" by (simp add: word_le_nat_alt)
  from Node.prems(2) consider "a = b" | "a \<in> set_tree k" | "a \<in> set_tree s" by auto
  then show ?case
  proof cases
    case 2
    from Node.IH(1) [OF k this] r show ?thesis by fastforce
  next
    case 3
    from Node.IH(2) [OF s this] r le show ?thesis by fastforce
  qed (use r in auto)
qed simp

lemma reach_ge: "forest h par lo hi p t e \<Longrightarrow> lo \<le> reach h lo t"
proof (induction t arbitrary: lo p)
  case (Node k a s)
  then obtain r where r: "h a = Some r" "lo \<le> unat (rs_start r)" "rs_start r \<le> rs_end r"
    "forest h par (Suc (unat (rs_end r))) hi (rs_sibling r) s e"
    by (auto split: option.splits)
  from r(3) have "unat (rs_start r) \<le> unat (rs_end r)" by (simp add: word_le_nat_alt)
  with Node.IH(2) [OF r(4)] r(1,2) show ?case by simp
qed simp

lemma reach_le:
  "forest h par lo hi p t e \<Longrightarrow> \<forall>a\<in>set (tops t). \<forall>r. h a = Some r \<longrightarrow> unat (rs_end r) < b \<Longrightarrow>
   lo \<le> b \<Longrightarrow> reach h lo t \<le> b"
  by (induction t arbitrary: lo p) (auto split: option.splits)

section \<open>Changing one pointer\<close>

fun owner :: "slot \<Rightarrow> nat" where
  "owner (Child_of a) = a"
| "owner (Sibling_of a) = a"

fun set_slot :: "slot \<Rightarrow> nat option \<Rightarrow> resource \<Rightarrow> resource" where
  "set_slot (Child_of a) v r = r\<lparr>rs_child := v\<rparr>"
| "set_slot (Sibling_of a) v r = r\<lparr>rs_sibling := v\<rparr>"

definition put :: "heap \<Rightarrow> slot \<Rightarrow> nat option \<Rightarrow> heap" where
  "put h p v = h(owner p := map_option (set_slot p v) (h (owner p)))"

lemma put_other [simp]: "x \<noteq> owner p \<Longrightarrow> put h p v x = h x"
  by (simp add: put_def)

lemma put_owner [simp]: "put h p v (owner p) = map_option (set_slot p v) (h (owner p))"
  by (simp add: put_def)

lemma store_eq: "h (owner p) = Some r \<Longrightarrow> store h p v = Inr (put h p v)"
  by (cases p) (simp_all add: put_def modify_def deref_def)

lemma set_slot_fields [simp]:
  "rs_start (set_slot p v r) = rs_start r" "rs_end (set_slot p v r) = rs_end r"
  "rs_flags (set_slot p v r) = rs_flags r" "rs_parent (set_slot p v r) = rs_parent r"
  "rs_name (set_slot p v r) = rs_name r"
  by (cases p; simp)+

lemma load_put [simp]: "h (owner p) = Some r \<Longrightarrow> load (put h p v) p = Inr v"
  by (cases p) (simp_all add: put_def deref_def)

lemma load_Inr_owner: "load h p = Inr v \<Longrightarrow> \<exists>r. h (owner p) = Some r"
  by (cases p) (auto simp: deref_def split: option.splits)

lemma load_frame: "h' (owner p) = h (owner p) \<Longrightarrow> load h' p = load h p"
  by (cases p) (simp_all add: deref_def)

text \<open>The slot that points behind the siblings of a forest whose first slot is \<open>p\<close>.\<close>

fun endslot :: "slot \<Rightarrow> nat tree \<Rightarrow> slot" where
  "endslot p Leaf = p"
| "endslot p (Node k a s) = endslot (Sibling_of a) s"

lemma owner_endslot: "owner (endslot p t) \<in> insert (owner p) (set (tops t))"
  by (induction p t rule: endslot.induct) auto

lemma owner_endslot_Node: "owner (endslot p (Node k a s)) \<in> set (tops (Node k a s))"
  using owner_endslot [of "Sibling_of a" s] by simp

lemma load_endslot:
  "forest h par lo hi q t e \<Longrightarrow> load h p = Inr q \<Longrightarrow> load h (endslot p t) = Inr e"
  by (induction t arbitrary: p q lo) (auto simp: deref_def split: option.splits)

lemma forest_relink:
  assumes "forest h par lo hi q t e" "distinct (preorder t)" "t \<noteq> Leaf"
  shows "forest (put h (endslot p t) v) par lo hi q t v"
  using assms
proof (induction t arbitrary: q lo p)
  case (Node k a s)
  then obtain r where r: "h a = Some r" "q = Some a" "rs_parent r = par" "lo \<le> unat (rs_start r)"
      "rs_start r \<le> rs_end r" "unat (rs_end r) \<le> hi"
    and k: "forest h (Some a) (unat (rs_start r)) (unat (rs_end r)) (rs_child r) k None"
    and s: "forest h par (Suc (unat (rs_end r))) hi (rs_sibling r) s e"
    by (auto split: option.splits)
  let ?h = "put h (endslot p (Node k a s)) v"
  have ak: "a \<notin> set_tree k" "a \<notin> set_tree s" "set_tree k \<inter> set_tree s = {}"
    using Node.prems(2) by (auto simp flip: set_preorder)
  show ?case
  proof (cases s)
    case Leaf
    have "forest ?h (Some a) (unat (rs_start r)) (unat (rs_end r)) (rs_child r) k None"
      using k ak Leaf by (subst forest_frame [of _ _ h]) (auto simp: put_def)
    then show ?thesis using Leaf r put_owner [of h "Sibling_of a" v] by simp
  next
    case (Node k' b s')
    then have own: "owner (endslot p (tree.Node k a s)) \<in> set (tops s)"
      using owner_endslot_Node by simp
    then have ne: "a \<noteq> owner (endslot p (tree.Node k a s))" and nk: "owner (endslot p (tree.Node k a s)) \<notin> set_tree k"
      using ak by auto
    have "forest ?h par (Suc (unat (rs_end r))) hi (rs_sibling r) s v"
      using Node.IH(2) [OF s, of "Sibling_of a"] Node.prems(2) Node by simp
    moreover have "forest ?h (Some a) (unat (rs_start r)) (unat (rs_end r)) (rs_child r) k None"
      using k nk by (subst forest_frame [of _ _ h]) (auto simp: put_def)
    ultimately show ?thesis using r ne by simp
  qed
qed simp

lemma put_geometry: "map_option rs_end (put h p v x) = map_option rs_end (h x)"
  by (cases "x = owner p") (simp_all add: option.map_comp comp_def)

lemma reach_geometry:
  "\<forall>x\<in>set (tops t). map_option rs_end (h' x) = map_option rs_end (h x) \<Longrightarrow> reach h' lo t = reach h lo t"
proof (induction t arbitrary: lo)
  case (Node k a s)
  then have "map_option rs_end (h' a) = map_option rs_end (h a)" by simp
  then have "(case h' a of None \<Rightarrow> lo | Some r \<Rightarrow> Suc (unat (rs_end r))) =
             (case h a of None \<Rightarrow> lo | Some r \<Rightarrow> Suc (unat (rs_end r)))"
    by (auto split: option.split)
  with Node show ?case by simp
qed simp

text \<open>
  Replacing what follows the first siblings \<open>t\<close> of a list: the slot behind them gets the first
  pointer of the new rest \<open>u\<close>, the nodes of \<open>t\<close> stay as they are.
\<close>

lemma forest_replace_rest:
  assumes "forest h par lo hi q t e" "distinct (preorder t)" "load h p = Inr q" "owner p \<notin> set_tree t"
    and "\<forall>x\<in>insert (owner p) (set_tree t). h' x = put h (endslot p t) v x"
    and "forest h' par (reach h lo t) hi v u f"
  shows "\<exists>q'. load h' p = Inr q' \<and> forest h' par lo hi q' (join t u) f"
proof (cases t)
  case Leaf
  from load_Inr_owner [OF assms(3)] obtain r where "h (owner p) = Some r" by blast
  then have "load h' p = Inr v" using assms(5) Leaf load_frame [of h' p "put h p v"] by simp
  then show ?thesis using Leaf assms(6) by auto
next
  case (Node k a s)
  then have own: "owner (endslot p t) \<in> set_tree t" using owner_endslot_Node [of p k a s] by blast
  with assms(4) have "owner p \<noteq> owner (endslot p t)" by auto
  then have "h' (owner p) = h (owner p)" using assms(5) by simp
  then have "load h' p = load h p" by (rule load_frame)
  then have "load h' p = Inr q" using assms(3) by simp
  moreover have "forest h' par lo hi q t v"
    using forest_relink [OF assms(1,2), of p v] Node assms(5)
    by (subst forest_frame [of _ _ "put h (endslot p t) v"]) simp_all
  moreover have "reach h' lo t = reach h lo t"
    using assms(5) put_geometry by (intro reach_geometry) auto
  ultimately show ?thesis using assms(6) by (auto simp: forest_join)
qed

section \<open>Changing the children of one node\<close>

fun kids :: "nat \<Rightarrow> nat tree \<Rightarrow> nat tree" where
  "kids a Leaf = Leaf"
| "kids a (Node k b s) = (if a = b then k else if a \<in> set_tree k then kids a k else kids a s)"

fun regrow :: "nat \<Rightarrow> nat tree \<Rightarrow> nat tree \<Rightarrow> nat tree" where
  "regrow a u Leaf = Leaf"
| "regrow a u (Node k b s) =
     (if a = b then Node u b s else if a \<in> set_tree k then Node (regrow a u k) b s
      else Node k b (regrow a u s))"

lemma kids_subset: "set_tree (kids a t) \<subseteq> set_tree t"
  by (induction t) auto

lemma forest_kids:
  "forest h par lo hi p t e \<Longrightarrow> a \<in> set_tree t \<Longrightarrow>
   \<exists>r. h a = Some r \<and> rs_start r \<le> rs_end r \<and> lo \<le> unat (rs_start r) \<and> unat (rs_end r) \<le> hi \<and>
       forest h (Some a) (unat (rs_start r)) (unat (rs_end r)) (rs_child r) (kids a t) None"
proof (induction t arbitrary: par lo hi p e)
  case (Node k b s)
  then obtain r where r: "h b = Some r" "lo \<le> unat (rs_start r)" "rs_start r \<le> rs_end r"
    "unat (rs_end r) \<le> hi"
    and k: "forest h (Some b) (unat (rs_start r)) (unat (rs_end r)) (rs_child r) k None"
    and s: "forest h par (Suc (unat (rs_end r))) hi (rs_sibling r) s e"
    by (auto split: option.splits)
  from r(3) have le: "unat (rs_start r) \<le> unat (rs_end r)" by (simp add: word_le_nat_alt)
  consider "a = b" | "a \<noteq> b" "a \<in> set_tree k" | "a \<noteq> b" "a \<notin> set_tree k" "a \<in> set_tree s"
    using Node.prems(2) by auto
  then show ?case
  proof cases
    case 2
    from Node.IH(1) [OF k this(2)] r 2 show ?thesis by fastforce
  next
    case 3
    from Node.IH(2) [OF s this(3)] r le 3 show ?thesis by fastforce
  qed (use r k in auto)
qed simp

lemma distinct_kids: "distinct (preorder t) \<Longrightarrow> distinct (preorder (kids a t))"
  by (induction t) auto

lemma kids_not_self: "distinct (preorder t) \<Longrightarrow> a \<notin> set_tree (kids a t)"
proof (induction t)
  case (Node k b s)
  then have d: "b \<notin> set_tree k" by (auto simp flip: set_preorder)
  with Node show ?case by simp
qed simp

lemma set_regrow:
  "distinct (preorder t) \<Longrightarrow> a \<in> set_tree t \<Longrightarrow>
   set_tree (regrow a u t) = set_tree t - set_tree (kids a t) \<union> set_tree u"
proof (induction t)
  case (Node k b s)
  then have d: "b \<notin> set_tree k" "b \<notin> set_tree s" "set_tree k \<inter> set_tree s = {}"
    by (auto simp flip: set_preorder)
  then show ?case
    using Node kids_subset [of a k] kids_subset [of a s] kids_not_self [of "Node k b s" a]
    by auto
qed simp

lemma distinct_regrow:
  "distinct (preorder t) \<Longrightarrow> a \<in> set_tree t \<Longrightarrow> distinct (preorder u) \<Longrightarrow>
   set_tree u \<inter> (set_tree t - set_tree (kids a t)) = {} \<Longrightarrow> distinct (preorder (regrow a u t))"
proof (induction t)
  case (Node k b s)
  then have d: "b \<notin> set_tree k" "b \<notin> set_tree s" "set_tree k \<inter> set_tree s = {}"
      "distinct (preorder k)" "distinct (preorder s)"
    by (auto simp flip: set_preorder)
  consider "a = b" | "a \<noteq> b" "a \<in> set_tree k" | "a \<noteq> b" "a \<notin> set_tree k" "a \<in> set_tree s"
    using Node.prems(2) by auto
  then show ?case
  proof cases
    case 1
    with Node.prems d show ?thesis by (auto simp flip: set_preorder)
  next
    case 2
    then have "kids a (Node k b s) = kids a k" by simp
    moreover have "set_tree (kids a k) \<subseteq> set_tree k" by (rule kids_subset)
    ultimately have dis: "set_tree u \<inter> (set_tree k - set_tree (kids a k)) = {}"
      "b \<notin> set_tree u" "set_tree u \<inter> set_tree s = {}"
      using Node.prems(4) d by auto
    then have "distinct (preorder (regrow a u k))" using Node.IH(1) Node.prems 2 d by simp
    then show ?thesis using 2 d dis set_regrow [OF d(4), of a u] by (auto simp flip: set_preorder)
  next
    case 3
    then have "kids a (Node k b s) = kids a s" by simp
    moreover have "set_tree (kids a s) \<subseteq> set_tree s" by (rule kids_subset)
    ultimately have dis: "set_tree u \<inter> (set_tree s - set_tree (kids a s)) = {}"
      "b \<notin> set_tree u" "set_tree u \<inter> set_tree k = {}"
      using Node.prems(4) d by auto
    then have "distinct (preorder (regrow a u s))" using Node.IH(2) Node.prems 3 d by simp
    then show ?thesis using 3 d dis set_regrow [OF d(5), of a u] by (auto simp flip: set_preorder)
  qed
qed simp

lemma forest_regrow:
  assumes "forest h par lo hi p t e" "distinct (preorder t)" "a \<in> set_tree t" "h a = Some r"
    and "\<forall>x\<in>set_tree t - set_tree (kids a t) - {a}. h' x = h x"
    and "h' a = Some (r\<lparr>rs_child := c\<rparr>)"
    and "forest h' (Some a) (unat (rs_start r)) (unat (rs_end r)) c u None"
  shows "forest h' par lo hi p (regrow a u t) e"
  using assms(1-3,5)
proof (induction t arbitrary: par lo hi p e)
  case (Node k b s)
  obtain rb where rb: "h b = Some rb" "p = Some b" "rs_parent rb = par" "lo \<le> unat (rs_start rb)"
      "rs_start rb \<le> rs_end rb" "unat (rs_end rb) \<le> hi"
    and k: "forest h (Some b) (unat (rs_start rb)) (unat (rs_end rb)) (rs_child rb) k None"
    and s: "forest h par (Suc (unat (rs_end rb))) hi (rs_sibling rb) s e"
    using Node.prems(1) by (auto split: option.splits)
  have d: "b \<notin> set_tree k" "b \<notin> set_tree s" "set_tree k \<inter> set_tree s = {}"
      "distinct (preorder k)" "distinct (preorder s)"
    using Node.prems(2) by (auto simp flip: set_preorder)
  have sk: "set_tree (kids a k) \<subseteq> set_tree k" "set_tree (kids a s) \<subseteq> set_tree s"
    by (rule kids_subset)+
  consider "a = b" | "a \<noteq> b" "a \<in> set_tree k" | "a \<noteq> b" "a \<notin> set_tree k" "a \<in> set_tree s"
    using Node.prems(3) by auto
  then show ?case
  proof cases
    case 1
    then have "forest h' par (Suc (unat (rs_end rb))) hi (rs_sibling rb) s e"
      using s d Node.prems(4) by (subst forest_frame [of _ _ h]) auto
    then show ?thesis using 1 rb assms(4,6,7) by simp
  next
    case 2
    then have fr: "\<forall>x\<in>set_tree k - set_tree (kids a k) - {a}. h' x = h x"
      and fs: "\<forall>x\<in>set_tree s. h' x = h x" and fb: "h' b = h b"
      using Node.prems(4) d sk by auto
    have "forest h' par (Suc (unat (rs_end rb))) hi (rs_sibling rb) s e"
      using s fs by (subst forest_frame [of _ _ h]) auto
    with Node.IH(1) [OF k d(4) 2(2) fr] 2 rb fb show ?thesis by simp
  next
    case 3
    then have fr: "\<forall>x\<in>set_tree s - set_tree (kids a s) - {a}. h' x = h x"
      and fk: "\<forall>x\<in>set_tree k. h' x = h x" and fb: "h' b = h b"
      using Node.prems(4) d sk by auto
    have "forest h' (Some b) (unat (rs_start rb)) (unat (rs_end rb)) (rs_child rb) k None"
      using k fk by (subst forest_frame [of _ _ h]) auto
    with Node.IH(2) [OF s d(5) 3(3) fr] 3 rb fb show ?thesis by simp
  qed
qed simp


lemma tree_at_regrow:
  assumes "tree_at h root t" "a \<in> set_tree t" "h a = Some r"
    and "\<forall>x\<in>set_tree t - set_tree (kids a t) - {a}. h' x = h x"
    and "h' a = Some (r\<lparr>rs_child := c\<rparr>)"
    and "forest h' (Some a) (unat (rs_start r)) (unat (rs_end r)) c u None"
    and "distinct (preorder u)" "set_tree u \<inter> (set_tree t - set_tree (kids a t)) = {}"
  shows "tree_at h' root (regrow a u t) \<and>
         set_tree (regrow a u t) = set_tree t - set_tree (kids a t) \<union> set_tree u"
proof -
  have "right (regrow a u t) = Leaf"
    using assms(1,2) by (cases t) (auto simp: tree_at_def)
  then show ?thesis
    using assms forest_regrow [OF _ _ assms(2,3,4,5,6)] distinct_regrow [OF _ assms(2,7,8)]
      set_regrow [OF _ assms(2)]
    by (simp add: tree_at_def)
qed

lemma tree_at_kids:
  assumes "tree_at h root t" "a \<in> set_tree t"
  obtains r where "h a = Some r" "rs_start r \<le> rs_end r"
    "forest h (Some a) (unat (rs_start r)) (unat (rs_end r)) (rs_child r) (kids a t) None"
    "distinct (preorder (kids a t))" "a \<notin> set_tree (kids a t)" "set_tree (kids a t) \<subseteq> set_tree t"
  using assms forest_kids [of h None 0 "2 ^ 32 - 1" "Some root" t None a] distinct_kids [of t a]
    kids_not_self [of t a] kids_subset [of a t]
  by (auto simp: tree_at_def)

lemma tree_at_frame:
  "tree_at h root t \<Longrightarrow> \<forall>x\<in>set_tree t. h' x = h x \<Longrightarrow> tree_at h' root t"
  using forest_frame [of t h' h] by (simp add: tree_at_def)

lemma tree_at_root: "tree_at h root t \<Longrightarrow> root \<in> set_tree t"
  by (cases t) (auto simp: tree_at_def)

text \<open>Parent pointers lead to the parent.\<close>

lemma forest_parent:
  "forest h par lo hi p t e \<Longrightarrow> distinct (preorder t) \<Longrightarrow> a \<in> set_tree t \<Longrightarrow>
   \<exists>r. h a = Some r \<and>
       (a \<in> set (tops t) \<and> rs_parent r = par \<or>
        (\<exists>q\<in>set_tree t. rs_parent r = Some q \<and> a \<in> set (tops (kids q t))))"
proof (induction t arbitrary: par lo hi p e)
  case (Node k b s)
  then obtain r where r: "h b = Some r" "rs_parent r = par"
    and k: "forest h (Some b) (unat (rs_start r)) (unat (rs_end r)) (rs_child r) k None"
    and s: "forest h par (Suc (unat (rs_end r))) hi (rs_sibling r) s e"
    by (auto split: option.splits)
  have d: "b \<notin> set_tree k" "b \<notin> set_tree s" "set_tree k \<inter> set_tree s = {}"
      "distinct (preorder k)" "distinct (preorder s)"
    using Node.prems(2) by (auto simp flip: set_preorder)
  have kk: "kids q (Node k b s) = kids q k" if "q \<in> set_tree k" for q using that d by auto
  have ks: "kids q (Node k b s) = kids q s" if "q \<in> set_tree s" for q using that d by auto
  have kb: "kids b (Node k b s) = k" by simp
  from Node.prems(3) consider "a = b" | "a \<in> set_tree k" | "a \<in> set_tree s" by auto
  then show ?case
  proof cases
    case 2
    from Node.IH(1) [OF k d(4) 2] obtain ra where "h a = Some ra"
      "a \<in> set (tops k) \<and> rs_parent ra = Some b \<or>
       (\<exists>q\<in>set_tree k. rs_parent ra = Some q \<and> a \<in> set (tops (kids q k)))" by blast
    moreover have "b \<in> set_tree (Node k b s)" "set_tree k \<subseteq> set_tree (Node k b s)" by auto
    ultimately show ?thesis using kk kb by (metis subsetD)
  next
    case 3
    from Node.IH(2) [OF s d(5) 3] obtain ra where "h a = Some ra"
      "a \<in> set (tops s) \<and> rs_parent ra = par \<or>
       (\<exists>q\<in>set_tree s. rs_parent ra = Some q \<and> a \<in> set (tops (kids q s)))" by blast
    moreover have "set_tree s \<subseteq> set_tree (Node k b s)" "set (tops s) \<subseteq> set (tops (Node k b s))" by auto
    ultimately show ?thesis using ks by (metis subsetD)
  qed (use r in auto)
qed simp

lemma tree_at_parent:
  assumes "tree_at h root t" "a \<in> set_tree t" "a \<noteq> root"
  obtains r q where "h a = Some r" "q \<in> set_tree t" "rs_parent r = Some q" "a \<in> set (tops (kids q t))"
proof -
  have "tops t = [root]" using assms(1) by (cases t) (auto simp: tree_at_def)
  then show ?thesis
    using forest_parent [of h None 0 "2 ^ 32 - 1" "Some root" t None a] assms that
    by (auto simp: tree_at_def)
qed

text \<open>Two nodes are nested or their ranges are disjoint.\<close>

lemma forest_nested_or_disjoint:
  "forest h par lo hi p t e \<Longrightarrow> distinct (preorder t) \<Longrightarrow> x \<in> set_tree t \<Longrightarrow> y \<in> set_tree t \<Longrightarrow> x \<noteq> y \<Longrightarrow>
   h x = Some rx \<Longrightarrow> h y = Some ry \<Longrightarrow>
   x \<in> set_tree (kids y t) \<or> y \<in> set_tree (kids x t) \<or> rs_end rx < rs_start ry \<or> rs_end ry < rs_start rx"
proof (induction t arbitrary: par lo hi p e)
  case (Node k b s)
  then obtain r where r: "h b = Some r" "rs_start r \<le> rs_end r"
    and k: "forest h (Some b) (unat (rs_start r)) (unat (rs_end r)) (rs_child r) k None"
    and s: "forest h par (Suc (unat (rs_end r))) hi (rs_sibling r) s e"
    by (auto split: option.splits)
  have d: "b \<notin> set_tree k" "b \<notin> set_tree s" "set_tree k \<inter> set_tree s = {}"
      "distinct (preorder k)" "distinct (preorder s)"
    using Node.prems(2) by (auto simp flip: set_preorder)
  have lower: "rs_end r < rs_start z" if "a \<in> set_tree s" "h a = Some z" for a z
    using forest_node [OF s that(1)] that(2) by (auto simp: word_less_nat_alt)
  have upper: "rs_end z \<le> rs_end r" if "a \<in> insert b (set_tree k)" "h a = Some z" for a z
    using forest_node [OF k, of a] that r(1) by (auto simp: word_le_nat_alt)
  have across: "rs_end z < rs_start z'"
    if "a \<in> insert b (set_tree k)" "h a = Some z" "a' \<in> set_tree s" "h a' = Some z'" for a z a' z'
    using upper [OF that(1,2)] lower [OF that(3,4)] by (rule le_less_trans)
  consider "x \<in> insert b (set_tree k)" "y \<in> set_tree s" | "y \<in> insert b (set_tree k)" "x \<in> set_tree s"
    | "x \<in> set_tree k" "y \<in> set_tree k" | "x \<in> set_tree s" "y \<in> set_tree s"
    | "x = b" "y \<in> set_tree k" | "y = b" "x \<in> set_tree k"
    using Node.prems(3-5) by auto
  then show ?case
  proof cases
    case 3
    from Node.IH(1) [OF k d(4) 3 Node.prems(5-7)] show ?thesis using 3 d by auto
  next
    case 4
    from Node.IH(2) [OF s d(5) 4 Node.prems(5-7)] show ?thesis using 4 d by auto
  qed (use across Node.prems(6,7) d in auto)
qed simp


text \<open>
  The general step of the operations: among the children of a node those behind the first
  ones \<open>u\<close> are replaced, which changes one slot beside the nodes replaced.
\<close>

lemma tree_replace_rest:
  assumes T: "tree_at h root t" "a \<in> set_tree t" "h a = Some r" "kids a t = join u w"
    and h': "\<forall>x\<in>set_tree t - set_tree w. h' x = put h (endslot (Child_of a) u) v x"
    and w': "forest h' (Some a) (reach h (unat (rs_start r)) u) (unat (rs_end r)) v w' None"
    and d': "distinct (preorder w')" "set_tree w' \<inter> (set_tree t - set_tree w) = {}"
  shows "tree_at h' root (regrow a (join u w') t) \<and>
         set_tree (regrow a (join u w') t) = set_tree t - set_tree w \<union> set_tree w'"
proof -
  let ?p = "Child_of a"
  from tree_at_kids [OF T(1,2)] T(3,4)
  have f: "forest h (Some a) (unat (rs_start r)) (unat (rs_end r)) (rs_child r) (join u w) None"
    and d: "distinct (preorder (join u w))" "a \<notin> set_tree (join u w)" "set_tree (join u w) \<subseteq> set_tree t"
    by auto
  then have dis: "set_tree u \<inter> set_tree w = {}" "distinct (preorder u)" "a \<notin> set_tree u" "a \<notin> set_tree w"
    by (auto simp flip: set_preorder)
  from f obtain e where u: "forest h (Some a) (unat (rs_start r)) (unat (rs_end r)) (rs_child r) u e"
    by (auto simp: forest_join)
  have own: "owner (endslot ?p u) \<in> insert a (set_tree u)"
    using owner_endslot [of ?p u] by auto
  have "\<forall>x\<in>insert (owner ?p) (set_tree u). h' x = put h (endslot ?p u) v x"
    using h' d dis T(2) by auto
  from forest_replace_rest [OF u dis(2) _ _ this w', simplified] T(3) dis(3)
  obtain c where c: "load h' ?p = Inr c"
    and fu: "forest h' (Some a) (unat (rs_start r)) (unat (rs_end r)) c (join u w') None"
    by (auto simp: deref_def)
  have "h' a = put h (endslot ?p u) v a" using h' T(2) dis by simp
  then have "h' a = Some (r\<lparr>rs_child := c\<rparr>)"
  proof (cases u)
    case (Node k b s)
    then have "owner (endslot ?p u) \<in> set_tree u" using owner_endslot_Node [of ?p k b s] by blast
    then have "a \<noteq> owner (endslot ?p u)" using dis(3) by metis
    with \<open>h' a = _\<close> T(3) c show ?thesis by (auto simp: deref_def)
  qed (use c T(3) in \<open>auto simp: put_def deref_def\<close>)
  moreover have "\<forall>x\<in>set_tree t - set_tree (kids a t) - {a}. h' x = h x"
    using h' own T(4) by (auto simp: put_def)
  moreover have "distinct (preorder (join u w'))" "set_tree (join u w') \<inter> (set_tree t - set_tree (kids a t)) = {}"
    using d' d dis T(4) by (auto simp flip: set_preorder)
  ultimately show ?thesis
    using tree_at_regrow [OF T(1,2,3) _ _ fu] T(4) d dis d' by auto
qed

end
