(* ===== verification/Resource_Ops.thy ===== *)
theory Resource_Ops
  imports Resource_Tree
begin

text \<open>
  What the operations on resource trees do to the tree a store holds: every walk ends, no
  pointer is followed into nothing, and the tree stays well formed.
\<close>

section \<open>Requesting\<close>

definition view :: "resource \<Rightarrow> u32 \<times> u32 \<times> u32 \<times> string option" where
  "view r = (rs_start r, rs_end r, rs_flags r, rs_name r)"

lemma view_put [simp]: "map_option view (put h p v x) = map_option view (h x)"
proof -
  have "view \<circ> set_slot p v = view" by (simp add: view_def fun_eq_iff)
  then show ?thesis by (cases "x = owner p") (simp_all add: option.map_comp)
qed

lemma deref_Some [simp]: "h a = Some r \<Longrightarrow> deref h a = Inr r"
  by (simp add: deref_def)

lemma load_Child [simp]: "h a = Some r \<Longrightarrow> load h (Child_of a) = Inr (rs_child r)"
  by simp

lemma link_eq:
  assumes "h new = Some n" "h (owner p) = Some r" "new \<noteq> owner p"
  shows "link par new tmp p h =
    Inr ((put h p (Some new))(new \<mapsto> n\<lparr>rs_sibling := tmp, rs_parent := Some par\<rparr>))"
proof -
  let ?h = "h(new \<mapsto> n\<lparr>rs_sibling := tmp\<rparr>)"
  have 1: "modify h new (rs_sibling_update (\<lambda>_. tmp)) = Inr ?h"
    using assms(1) by (simp add: modify_def)
  have 2: "store ?h p (Some new) = Inr (put ?h p (Some new))"
    using assms by (intro store_eq) simp
  have 3: "put ?h p (Some new) = (put h p (Some new))(new \<mapsto> n\<lparr>rs_sibling := tmp\<rparr>)"
    using assms(3) by (auto simp: put_def)
  show ?thesis unfolding link_def 1 bindE_simps 2 3 by (simp add: modify_def)
qed

lemma request_loop_walk:
  "forest h par lo hi q t e \<Longrightarrow> load h p = Inr q \<Longrightarrow>
   \<forall>a\<in>set (tops t). \<forall>r. h a = Some r \<longrightarrow> rs_end r < st \<Longrightarrow> st \<le> en \<Longrightarrow>
   request_loop root new st en p h = request_loop root new st en (endslot p t) h"
proof (induction t arbitrary: p q lo)
  case (Node k a s)
  then obtain r where r: "h a = Some r" "q = Some a" "rs_start r \<le> rs_end r" "rs_end r < st"
    and s: "forest h par (Suc (unat (rs_end r))) hi (rs_sibling r) s e"
    by (auto split: option.splits)
  from r(3,4) Node.prems(4) have "\<not> en < rs_start r" by order
  then have "request_loop root new st en p h = request_loop root new st en (Sibling_of a) h"
    using r Node.prems(2) by (subst request_loop.simps) simp
  also have "\<dots> = request_loop root new st en (endslot (Sibling_of a) s) h"
    using Node.IH(2) [OF s] r Node.prems(3,4) by simp
  finally show ?case by simp
qed simp

text \<open>Whether a node of the store overlaps a range.\<close>

definition hits :: "heap \<Rightarrow> u32 \<Rightarrow> u32 \<Rightarrow> nat \<Rightarrow> bool" where
  "hits h st en a \<longleftrightarrow>
     (case h a of None \<Rightarrow> False | Some r \<Rightarrow> rs_start r \<le> en \<and> st \<le> rs_end r)"

definition fits :: "resource \<Rightarrow> resource \<Rightarrow> bool" where
  "fits n r \<longleftrightarrow> rs_start n \<le> rs_end n \<and> rs_start r \<le> rs_start n \<and> rs_end n \<le> rs_end r"

abbreviation left_of :: "heap \<Rightarrow> u32 \<Rightarrow> nat \<Rightarrow> bool" where
  "left_of h st \<equiv> \<lambda>a. \<forall>r. h a = Some r \<longrightarrow> rs_end r < st"

text \<open>The first sibling that does not end before the range decides.\<close>

lemma request_loop_conflict:
  assumes "forest h par lo hi q t e" "load h p = Inr q" "st \<le> en"
    and "dwhile (left_of h st) t = Node k a s" "hits h st en a"
  shows "request_loop root new st en p h = Some (Inr (Some a, h))"
proof -
  let ?u = "twhile (left_of h st) t"
  obtain m where u: "forest h par lo hi q ?u m"
    and rest: "forest h par (reach h lo ?u) hi m (Node k a s) e"
    using forest_split [OF assms(1), of "left_of h st"] assms(4) by auto
  have "load h (endslot p ?u) = Inr (Some a)" using load_endslot [OF u assms(2)] rest by simp
  moreover have "\<exists>r. h a = Some r \<and> rs_start r \<le> en \<and> st \<le> rs_end r"
    using assms(5) by (auto simp: hits_def split: option.splits)
  ultimately have "request_loop root new st en (endslot p ?u) h = Some (Inr (Some a, h))"
    by (subst request_loop.simps) (auto simp: not_less)
  then show ?thesis
    using request_loop_walk [OF u assms(2) _ assms(3)] twhile_tops [of _ "left_of h st" t] by simp
qed

lemma request_loop_free:
  assumes "forest h par lo hi q t None" "load h p = Inr q" "st \<le> en"
    and "\<forall>a\<in>set (tops t). \<not> hits h st en a"
    and "h new = Some n" "new \<notin> insert (owner p) (set_tree t)"
  shows "\<exists>m. request_loop root new st en p h =
      Some (Inr (None, (put h (endslot p (twhile (left_of h st) t)) (Some new))
        (new \<mapsto> n\<lparr>rs_sibling := m, rs_parent := Some root\<rparr>))) \<and>
      forest h par lo hi q (twhile (left_of h st) t) m \<and>
      forest h par (Suc (unat en)) hi m (dwhile (left_of h st) t) None"
proof -
  let ?u = "twhile (left_of h st) t" and ?w = "dwhile (left_of h st) t"
  obtain m where u: "forest h par lo hi q ?u m" and w: "forest h par (reach h lo ?u) hi m ?w None"
    using forest_split [OF assms(1)] by blast
  have l: "load h (endslot p ?u) = Inr m" by (rule load_endslot [OF u assms(2)])
  obtain r where own: "h (owner (endslot p ?u)) = Some r" using load_Inr_owner [OF l] by blast
  have "owner (endslot p ?u) \<in> insert (owner p) (set_tree t)"
    using owner_endslot [of p ?u] set_join [of ?u ?w] by auto
  with assms(6) have ne: "new \<noteq> owner (endslot p ?u)" by metis
  have right: "en < rs_start z" if "?w = Node k a s" "h a = Some z" for k a s z
  proof -
    have "\<not> left_of h st a" by (rule dwhile_top [OF that(1)])
    moreover have "a \<in> set (tops (join ?u ?w))" using that(1) by simp
    then have "\<not> hits h st en a" using assms(4) by (metis join_twhile)
    ultimately show ?thesis using that(2) by (auto simp: hits_def)
  qed
  have w': "forest h par (Suc (unat en)) hi m ?w None"
  proof (cases ?w)
    case (Node k a s)
    with w obtain z where "h a = Some z" by (auto split: option.splits)
    with right [OF Node] w Node show ?thesis by (simp add: word_less_nat_alt Suc_le_eq)
  qed (use w in simp)
  have "request_loop root new st en (endslot p ?u) h =
      bindR (Some (link root new m (endslot p ?u) h)) (\<lambda>h. Some (Inr (None, h)))"
  proof (cases ?w)
    case Leaf
    with w l show ?thesis by (subst request_loop.simps) simp
  next
    case (Node k a s)
    with w obtain z where z: "h a = Some z" "m = Some a" by (auto split: option.splits)
    with right [OF Node z(1)] l show ?thesis by (subst request_loop.simps) simp
  qed
  then have "request_loop root new st en (endslot p ?u) h =
      Some (Inr (None, (put h (endslot p ?u) (Some new))
        (new \<mapsto> n\<lparr>rs_sibling := m, rs_parent := Some root\<rparr>)))"
    by (simp add: link_eq [OF assms(5) own ne])
  then show ?thesis
    using request_loop_walk [OF u assms(2) _ assms(3)] twhile_tops [of _ "left_of h st" t] u w' by auto
qed

text \<open>The new node in front of the siblings \<open>w\<close>.\<close>

lemma forest_new_node:
  assumes "h' new = Some n'" "rs_parent n' = par" "rs_sibling n' = m" "rs_child n' = None"
    and "lo \<le> unat (rs_start n')" "rs_start n' \<le> rs_end n'" "unat (rs_end n') \<le> hi"
    and "forest h par (Suc (unat (rs_end n'))) hi m w None" "\<forall>x\<in>set_tree w. h' x = h x"
  shows "forest h' par lo hi (Some new) (Node Leaf new w) None"
  using assms forest_frame [OF assms(9)] by simp

text \<open>If some sibling overlaps the range, the first one that does not end before it does.\<close>

lemma first_hit:
  assumes K: "forest h par lo hi q t None" and c: "c \<in> set (tops t)" "hits h st en c"
  obtains k b s where "dwhile (left_of h st) t = Node k b s" "hits h st en b"
proof -
  let ?u = "twhile (left_of h st) t" and ?w = "dwhile (left_of h st) t"
  have "c \<notin> set (tops ?u)"
    using twhile_tops [of c "left_of h st" t] c(2) by (auto simp: hits_def split: option.splits)
  moreover have "set (tops t) = set (tops ?u) \<union> set (tops ?w)" by (metis join_twhile tops_join set_append)
  then have "c \<in> set (tops ?u) \<union> set (tops ?w)" using c(1) by simp
  ultimately have cw: "c \<in> set (tops ?w)" by auto
  then obtain k b s where w: "?w = Node k b s" by (cases ?w) auto
  obtain m where fw: "forest h par (reach h lo ?u) hi m ?w None" using forest_split [OF K] by blast
  obtain z where z: "h c = Some z" "rs_start z \<le> en" using c(2) by (auto simp: hits_def split: option.splits)
  obtain y where y: "h b = Some y" "rs_start y \<le> rs_end y"
    "forest h par (Suc (unat (rs_end y))) hi (rs_sibling y) s None"
    using fw w by (auto split: option.splits)
  have "rs_start y \<le> en"
  proof (cases "c = b")
    case False
    with cw w have "c \<in> set (tops s)" by auto
    from forest_top [OF y(3) this] z(1) have "unat (rs_end y) < unat (rs_start z)" by auto
    with y(2) z(2) show ?thesis by (simp add: word_le_nat_alt)
  qed (use y z in auto)
  with dwhile_top [OF w] y(1) have "hits h st en b" by (auto simp: hits_def)
  with w that show thesis by blast
qed

lemma uu_request_resource_linked:
  assumes T: "tree_at h root t" "a \<in> set_tree t" "h a = Some r"
    and new: "h new = Some n" "new \<notin> set_tree t" "rs_child n = None"
    and free: "fits n r" "\<forall>c\<in>set (tops (kids a t)). \<not> hits h (rs_start n) (rs_end n) c"
  obtains u w m h' where
      "request_loop a new (rs_start n) (rs_end n) (Child_of a) h = Some (Inr (None, h'))"
      "kids a t = join u w" "load h (endslot (Child_of a) u) = Inr m"
      "h' = (put h (endslot (Child_of a) u) (Some new))
              (new \<mapsto> n\<lparr>rs_sibling := m, rs_parent := Some a\<rparr>)"
      "tree_at h' root (regrow a (join u (Node Leaf new w)) t)"
      "set_tree (regrow a (join u (Node Leaf new w)) t) = insert new (set_tree t)"
proof -
  let ?st = "rs_start n" and ?en = "rs_end n" and ?K = "kids a t"
  let ?u = "twhile (left_of h ?st) ?K" and ?w = "dwhile (left_of h ?st) ?K"
  let ?S = "unat (rs_start r)" and ?E = "unat (rs_end r)"
  from tree_at_kids [OF T(1,2)] T(3)
  have K: "forest h (Some a) ?S ?E (rs_child r) ?K None" and d: "distinct (preorder ?K)"
    "a \<notin> set_tree ?K" "set_tree ?K \<subseteq> set_tree t" by auto
  have load: "load h (Child_of a) = Inr (rs_child r)" using T(3) by simp
  from request_loop_free [OF K load _ free(2) new(1)] free(1) new(2) d T(2)
  obtain m where m: "request_loop a new ?st ?en (Child_of a) h =
      Some (Inr (None, (put h (endslot (Child_of a) ?u) (Some new))
        (new \<mapsto> n\<lparr>rs_sibling := m, rs_parent := Some a\<rparr>)))"
    and fu: "forest h (Some a) ?S ?E (rs_child r) ?u m"
    and fw: "forest h (Some a) (Suc (unat ?en)) ?E m ?w None"
    by (fastforce simp: fits_def)
  let ?h = "(put h (endslot (Child_of a) ?u) (Some new))(new \<mapsto> n\<lparr>rs_sibling := m, rs_parent := Some a\<rparr>)"
  have sub: "set_tree ?u \<union> set_tree ?w = set_tree ?K" using set_join [of ?u ?w] by simp
  have dw: "distinct (preorder ?w)" "set_tree ?u \<inter> set_tree ?w = {}"
    using d(1) preorder_join [of ?u ?w] by (auto simp flip: set_preorder)
  have own: "owner (endslot (Child_of a) ?u) \<in> insert a (set_tree ?u)"
    using owner_endslot [of "Child_of a" ?u] by auto
  then have frw: "\<forall>x\<in>set_tree ?w. ?h x = h x"
    using dw(2) d new(2) sub by (auto simp: put_def)
  have le: "reach h ?S ?u \<le> unat ?st"
    using free(1) twhile_tops [of _ "left_of h ?st" ?K]
    by (intro reach_le [OF fu]) (auto simp: fits_def word_le_nat_alt word_less_nat_alt)
  have "forest ?h (Some a) (reach h ?S ?u) ?E (Some new) (Node Leaf new ?w) None"
    using free(1) le new(3) fw frw
    by (intro forest_new_node [where h = h and n' = "n\<lparr>rs_sibling := m, rs_parent := Some a\<rparr>"])
      (auto simp: fits_def word_le_nat_alt)
  moreover have "distinct (preorder (Node Leaf new ?w))"
    "set_tree (Node Leaf new ?w) \<inter> (set_tree t - set_tree ?w) = {}"
    using dw d new(2) sub by (auto simp flip: set_preorder)
  moreover have "\<forall>x\<in>set_tree t - set_tree ?w. ?h x = put h (endslot (Child_of a) ?u) (Some new) x"
    using new(2) by auto
  ultimately have "tree_at ?h root (regrow a (join ?u (Node Leaf new ?w)) t) \<and>
      set_tree (regrow a (join ?u (Node Leaf new ?w)) t) =
      set_tree t - set_tree ?w \<union> set_tree (Node Leaf new ?w)"
    by (intro tree_replace_rest [OF T]) simp_all
  moreover have "set_tree t - set_tree ?w \<union> set_tree (Node Leaf new ?w) = insert new (set_tree t)"
    using sub d by auto
  ultimately show thesis
    using that [OF m _ load_endslot [OF fu load], of ?w] by simp
qed

lemma uu_request_resource_cases:
  assumes T: "tree_at h root t" "a \<in> set_tree t" "h a = Some r"
    and new: "h new = Some n" "new \<notin> set_tree t" "rs_child n = None"
  obtains (outside) "\<not> fits n r" "uu_request_resource a new h = Some (Inr (Some a, h))"
  | (conflict) k c s where "fits n r" "dwhile (left_of h (rs_start n)) (kids a t) = Node k c s"
      "hits h (rs_start n) (rs_end n) c" "uu_request_resource a new h = Some (Inr (Some c, h))"
  | (linked) u w m h' where "fits n r" "\<forall>c\<in>set (tops (kids a t)). \<not> hits h (rs_start n) (rs_end n) c"
      "uu_request_resource a new h = Some (Inr (None, h'))"
      "kids a t = join u w" "load h (endslot (Child_of a) u) = Inr m"
      "h' = (put h (endslot (Child_of a) u) (Some new))
              (new \<mapsto> n\<lparr>rs_sibling := m, rs_parent := Some a\<rparr>)"
      "tree_at h' root (regrow a (join u (Node Leaf new w)) t)"
      "set_tree (regrow a (join u (Node Leaf new w)) t) = insert new (set_tree t)"
proof -
  let ?st = "rs_start n" and ?en = "rs_end n" and ?K = "kids a t"
  from tree_at_kids [OF T(1,2)] T(3)
  have K: "forest h (Some a) (unat (rs_start r)) (unat (rs_end r)) (rs_child r) ?K None" by auto
  have loop: "uu_request_resource a new h = request_loop a new ?st ?en (Child_of a) h" if "fits n r"
    using that T(3) new(1) by (auto simp: uu_request_resource_def fits_def Let_def)
  have load: "load h (Child_of a) = Inr (rs_child r)" using T(3) by simp
  consider "\<not> fits n r" | c where "fits n r" "c \<in> set (tops ?K)" "hits h ?st ?en c"
    | "fits n r" "\<forall>c\<in>set (tops ?K). \<not> hits h ?st ?en c" by blast
  then show thesis
  proof cases
    case 1
    then have "uu_request_resource a new h = Some (Inr (Some a, h))"
      using T(3) new(1) by (auto simp: uu_request_resource_def fits_def Let_def not_le)
    with 1 outside show ?thesis by blast
  next
    case 2
    from first_hit [OF K 2(2,3)] obtain k b s
      where b: "dwhile (left_of h ?st) ?K = Node k b s" "hits h ?st ?en b" .
    with request_loop_conflict [OF K load _ b] loop [OF 2(1)] 2(1) conflict show ?thesis
      by (simp add: fits_def)
  next
    case 3
    from uu_request_resource_linked [OF T new 3] obtain u w m h' where
      "request_loop a new ?st ?en (Child_of a) h = Some (Inr (None, h'))"
      "kids a t = join u w" "load h (endslot (Child_of a) u) = Inr m"
      "h' = (put h (endslot (Child_of a) u) (Some new))
              (new \<mapsto> n\<lparr>rs_sibling := m, rs_parent := Some a\<rparr>)"
      "tree_at h' root (regrow a (join u (Node Leaf new w)) t)"
      "set_tree (regrow a (join u (Node Leaf new w)) t) = insert new (set_tree t)" .
    with linked [OF 3] loop [OF 3(1)] show ?thesis by metis
  qed
qed

section \<open>Releasing\<close>

lemma release_loop_walk:
  "forest h par lo hi q t e \<Longrightarrow> load h p = Inr q \<Longrightarrow> old \<notin> set (tops t) \<Longrightarrow>
   release_loop old p h = release_loop old (endslot p t) h"
proof (induction t arbitrary: p q lo)
  case (Node k a s)
  then obtain r where r: "h a = Some r" "q = Some a"
    and s: "forest h par (Suc (unat (rs_end r))) hi (rs_sibling r) s e"
    by (auto split: option.splits)
  then have "release_loop old p h = release_loop old (Sibling_of a) h"
    using Node.prems(2,3) by (subst release_loop.simps) simp
  also have "\<dots> = release_loop old (endslot (Sibling_of a) s) h"
    using Node.IH(2) [OF s] r Node.prems(3) by simp
  finally show ?case by simp
qed simp

text \<open>Taking a node and its children out of the list of its siblings.\<close>

lemma tree_unlink:
  assumes T: "tree_at h root t" "q \<in> set_tree t" "kids q t = join u (Node k a s)" "h a = Some r"
    and h': "\<forall>x\<in>set_tree t - set_tree k - {a}. h' x = put h (endslot (Child_of q) u) (rs_sibling r) x"
  shows "tree_at h' root (regrow q (join u s) t) \<and>
         set_tree (regrow q (join u s) t) = set_tree t - set_tree k - {a}"
proof -
  from tree_at_kids [OF T(1,2)] T(3) obtain rq where q: "h q = Some rq"
    and f: "forest h (Some q) (unat (rs_start rq)) (unat (rs_end rq)) (rs_child rq) (join u (Node k a s)) None"
    and d: "distinct (preorder (join u (Node k a s)))" "q \<notin> set_tree (join u (Node k a s))"
      "set_tree (join u (Node k a s)) \<subseteq> set_tree t"
    by metis
  have dis: "set_tree u \<inter> set_tree (Node k a s) = {}" "distinct (preorder s)"
    "set_tree s \<inter> insert a (set_tree k) = {}"
    using d(1) by (auto simp flip: set_preorder)
  have s: "forest h (Some q) (Suc (unat (rs_end r))) (unat (rs_end rq)) (rs_sibling r) s None"
    and le: "reach h (unat (rs_start rq)) u \<le> Suc (unat (rs_end r))"
    using f T(4) by (auto simp: forest_join word_le_nat_alt)
  have own: "owner (endslot (Child_of q) u) \<in> insert q (set_tree u)"
    using owner_endslot [of "Child_of q" u] by auto
  then have "\<forall>x\<in>set_tree s. x \<in> set_tree t - set_tree k - {a} \<and> x \<noteq> owner (endslot (Child_of q) u)"
    using dis d by auto
  then have "\<forall>x\<in>set_tree s. h' x = h x" using h' by simp
  with forest_mono [OF s le order.refl]
  have "forest h' (Some q) (reach h (unat (rs_start rq)) u) (unat (rs_end rq)) (rs_sibling r) s None"
    by (subst forest_frame [of _ _ h]) auto
  moreover have "\<forall>x\<in>set_tree t - set_tree (Node k a s). h' x = put h (endslot (Child_of q) u) (rs_sibling r) x"
    using h' by auto
  moreover have "set_tree s \<inter> (set_tree t - set_tree (Node k a s)) = {}" by auto
  ultimately have "tree_at h' root (regrow q (join u s) t) \<and>
      set_tree (regrow q (join u s) t) = set_tree t - set_tree (Node k a s) \<union> set_tree s"
    using tree_replace_rest [OF T(1,2) q T(3)] dis(2) by metis
  moreover have "set_tree t - set_tree (Node k a s) \<union> set_tree s = set_tree t - set_tree k - {a}"
    using dis(3) d(3) by auto
  ultimately show ?thesis by simp
qed

lemma uu_release_resource_tree:
  assumes T: "tree_at h root t" "old \<in> set_tree t" "old \<noteq> root"
  obtains q u k s r where "q \<in> set_tree t" "kids q t = join u (Node k old s)" "h old = Some r"
    "rs_parent r = Some q"
    "uu_release_resource old h = Some (Inr (None,
       (put h (endslot (Child_of q) u) (rs_sibling r))(old \<mapsto> r\<lparr>rs_parent := None\<rparr>)))"
    "tree_at ((put h (endslot (Child_of q) u) (rs_sibling r))(old \<mapsto> r\<lparr>rs_parent := None\<rparr>))
       root (regrow q (join u s) t)"
    "set_tree (regrow q (join u s) t) = set_tree t - set_tree k - {old}"
proof -
  from tree_at_parent [OF T] obtain r q where r: "h old = Some r" "q \<in> set_tree t"
    "rs_parent r = Some q" "old \<in> set (tops (kids q t))" .
  from split_at_top [OF r(4)] obtain u k s where K: "kids q t = join u (Node k old s)" by blast
  from tree_at_kids [OF T(1) r(2)] K obtain rq where q: "h q = Some rq"
    and f: "forest h (Some q) (unat (rs_start rq)) (unat (rs_end rq)) (rs_child rq) (join u (Node k old s)) None"
    and d: "distinct (preorder (join u (Node k old s)))" "q \<notin> set_tree (join u (Node k old s))"
    by metis
  let ?p = "endslot (Child_of q) u"
  let ?h = "(put h ?p (rs_sibling r))(old \<mapsto> r\<lparr>rs_parent := None\<rparr>)"
  from f have u: "forest h (Some q) (unat (rs_start rq)) (unat (rs_end rq)) (rs_child rq) u (Some old)"
    by (auto simp: forest_join)
  have load: "load h (Child_of q) = Inr (rs_child rq)" using q by simp
  have lp: "load h ?p = Inr (Some old)" by (rule load_endslot [OF u load])
  have ou: "old \<notin> set_tree u" using d(1) by (auto simp flip: set_preorder)
  have own: "owner ?p \<in> insert q (set_tree u)" using owner_endslot [of "Child_of q" u] by auto
  then have ne: "old \<noteq> owner ?p" using ou d(2) by auto
  obtain ro where ro: "h (owner ?p) = Some ro" using load_Inr_owner [OF lp] by blast
  have "uu_release_resource old h = release_loop old (Child_of q) h"
    using r by (simp add: uu_release_resource_def)
  also have "\<dots> = release_loop old ?p h" using release_loop_walk [OF u load] ou by blast
  also have "\<dots> = Some (Inr (None, ?h))"
    using lp r(1) ro store_eq [of h ?p ro] ne by (subst release_loop.simps) (simp add: modify_def)
  finally have "uu_release_resource old h = Some (Inr (None, ?h))" .
  moreover have "\<forall>x\<in>set_tree t - set_tree k - {old}. ?h x = put h ?p (rs_sibling r) x" by simp
  ultimately show thesis
    using that [OF r(2) K r(1,3)] tree_unlink [OF T(1) r(2) K r(1)] by blast
qed

end
