(* ===== verification/Resource_Region.thy ===== *)
theory Resource_Region
  imports Resource_Ops
begin

text \<open>
  Regions: requests that go down to the innermost resource that holds the range and is not
  busy, and releases that find the region again.
\<close>

section \<open>Going down\<close>

lemma size_kids: "a \<in> set_tree t \<Longrightarrow> size (kids a t) < size t"
  by (induction t) auto

lemma kids_kids: "distinct (preorder t) \<Longrightarrow> c \<in> set_tree (kids a t) \<Longrightarrow> kids c t = kids c (kids a t)"
proof (induction t)
  case (Node k b s)
  then have d: "b \<notin> set_tree k" "b \<notin> set_tree s" "set_tree k \<inter> set_tree s = {}"
      "distinct (preorder k)" "distinct (preorder s)"
    by (auto simp flip: set_preorder)
  then show ?case
    using Node kids_subset [of a k] kids_subset [of a s] by (auto split: if_splits)
qed simp

lemma kids_join: "c \<notin> set_tree u \<Longrightarrow> kids c (join u (Node k c s)) = k"
  by (induction u) auto

lemma size_kids_child:
  "distinct (preorder t) \<Longrightarrow> c \<in> set_tree (kids a t) \<Longrightarrow> size (kids c t) < size (kids a t)"
  using kids_kids [of t c a] size_kids [of c "kids a t"] by simp

definition busy :: "resource \<Rightarrow> bool" where
  "busy r \<longleftrightarrow> rs_flags r AND IORESOURCE_BUSY \<noteq> 0"

definition contains :: "heap \<Rightarrow> u32 \<Rightarrow> u32 \<Rightarrow> nat \<Rightarrow> bool" where
  "contains h st en a \<longleftrightarrow>
     (case h a of None \<Rightarrow> False | Some r \<Rightarrow> rs_start r \<le> st \<and> en \<le> rs_end r)"

lemma contains_hits: "contains h st en a \<Longrightarrow> st \<le> en \<Longrightarrow> hits h st en a"
  unfolding contains_def hits_def by (cases "h a") (auto intro: order.trans)

lemma contains_view:
  "map_option view (h' a) = map_option view (h a) \<Longrightarrow> contains h' st en a = contains h st en a"
  unfolding contains_def view_def by (cases "h a"; cases "h' a") simp_all

lemma forest_under_top:
  "forest h par lo hi p t e \<Longrightarrow> y \<in> set_tree t \<Longrightarrow>
   \<exists>c\<in>set (tops t). \<exists>rc ry. h c = Some rc \<and> h y = Some ry \<and> rs_start rc \<le> rs_start ry \<and> rs_end ry \<le> rs_end rc"
proof (induction t arbitrary: lo p)
  case (Node k b s)
  then obtain r where r: "h b = Some r"
    and k: "forest h (Some b) (unat (rs_start r)) (unat (rs_end r)) (rs_child r) k None"
    and s: "forest h par (Suc (unat (rs_end r))) hi (rs_sibling r) s e"
    by (auto split: option.splits)
  from Node.prems(2) consider "y = b" | "y \<in> set_tree k" | "y \<in> set_tree s" by auto
  then show ?case
  proof cases
    case 2
    from forest_node [OF k this] r show ?thesis by (auto simp: word_le_nat_alt)
  next
    case 3
    from Node.IH(2) [OF s this] show ?thesis by auto
  qed (use r in auto)
qed simp

lemma hits_top:
  assumes "forest h par lo hi p t e" "y \<in> set_tree t" "hits h st en y"
  shows "\<exists>c\<in>set (tops t). hits h st en c"
proof -
  from forest_under_top [OF assms(1,2)] obtain c rc ry where
    "c \<in> set (tops t)" "h c = Some rc" "h y = Some ry" "rs_start rc \<le> rs_start ry" "rs_end ry \<le> rs_end rc"
    by blast
  moreover from this(3) assms(3) have "rs_start ry \<le> en" "st \<le> rs_end ry" by (simp_all add: hits_def)
  ultimately show ?thesis by (auto simp: hits_def intro!: bexI [of _ c])
qed

lemma region_busy [simp]: "busy (region st en name flags)"
proof -
  have "bit (rs_flags (region st en name flags) AND IORESOURCE_BUSY) 31"
    by (simp add: region_def bit_simps bit_numeral_rec)
  then show ?thesis by (auto simp: busy_def)
qed

lemma region_fields [simp]:
  "rs_start (region st en name flags) = st" "rs_end (region st en name flags) = en"
  "rs_child (region st en name flags) = None"
  by (simp_all add: region_def resource_zero_def)

text \<open>
  The walk of a release over the children of \<open>a\<close>: past those that do not hold the range, into
  the one that does, unless it is busy.
\<close>

lemma release_region_walk:
  "forest h par lo hi q t e \<Longrightarrow> load h p = Inr q \<Longrightarrow> \<forall>a\<in>set (tops t). \<not> contains h st en a \<Longrightarrow>
   release_region_loop st en p h = release_region_loop st en (endslot p t) h"
proof (induction t arbitrary: p q lo)
  case (Node k a s)
  then obtain r where r: "h a = Some r" "q = Some a" "\<not> (rs_start r \<le> st \<and> en \<le> rs_end r)"
    and s: "forest h par (Suc (unat (rs_end r))) hi (rs_sibling r) s e"
    by (auto simp: contains_def split: option.splits)
  then have "release_region_loop st en p h = release_region_loop st en (Sibling_of a) h"
    using Node.prems(2,3) by (subst release_region_loop.simps) auto
  also have "\<dots> = release_region_loop st en (endslot (Sibling_of a) s) h"
    using Node.IH(2) [OF s] r Node.prems(3) by simp
  finally show ?case by simp
qed simp

lemma release_region_into:
  assumes "forest h par lo hi q u (Some c)" "load h p = Inr q" "\<forall>a\<in>set (tops u). \<not> contains h st en a"
    and "h c = Some rc" "rs_start rc \<le> st" "en \<le> rs_end rc" "\<not> busy rc"
  shows "release_region_loop st en p h = release_region_loop st en (Child_of c) h"
proof -
  have "load h (endslot p u) = Inr (Some c)" by (rule load_endslot [OF assms(1,2)])
  then have "release_region_loop st en (endslot p u) h = release_region_loop st en (Child_of c) h"
    using assms(4-7) by (subst release_region_loop.simps) (auto simp: busy_def)
  with release_region_walk [OF assms(1-3)] show ?thesis by simp
qed

text \<open>
  The outcome of a request for a region below \<open>a\<close>: refused, or linked in below a resource \<open>q\<close> of
  the tree, where a release starting at \<open>a\<close> arrives again; no busy resource below \<open>a\<close> overlaps it.
\<close>

definition granted_at ::
  "heap \<Rightarrow> nat tree \<Rightarrow> nat \<Rightarrow> nat \<Rightarrow> resource \<Rightarrow> nat \<Rightarrow> nat tree \<Rightarrow> nat tree \<Rightarrow> nat option \<Rightarrow> heap \<Rightarrow> bool" where
  "granted_at h t a new n q u w m h' \<longleftrightarrow>
     q \<in> insert a (set_tree (kids a t)) \<and> (q \<noteq> a \<longrightarrow> (\<forall>r. h q = Some r \<longrightarrow> \<not> busy r)) \<and>
     (\<forall>r. h q = Some r \<longrightarrow> fits n r) \<and>
     (\<forall>c\<in>set (tops (kids q t)). \<not> hits h (rs_start n) (rs_end n) c) \<and>
     (\<forall>y\<in>set_tree (kids a t). \<forall>r. h y = Some r \<longrightarrow> busy r \<longrightarrow> \<not> hits h (rs_start n) (rs_end n) y) \<and>
     kids q t = join u w \<and> load h (endslot (Child_of q) u) = Inr m \<and>
     h' = (put h (endslot (Child_of q) u) (Some new))
            (new \<mapsto> n\<lparr>rs_sibling := m, rs_parent := Some q\<rparr>) \<and>
     release_region_loop (rs_start n) (rs_end n) (Child_of a) h' =
     release_region_loop (rs_start n) (rs_end n) (Child_of q) h'"

lemma granted_descend:
  assumes T: "tree_at h root t" "a \<in> set_tree t" "h a = Some r" "new \<notin> set_tree t"
    and c: "dwhile (left_of h (rs_start n)) (kids a t) = Node k c s" "h c = Some rc" "\<not> busy rc"
    and g: "granted_at h t c new n q u w m h'"
  shows "granted_at h t a new n q u w m h'"
proof -
  let ?st = "rs_start n" and ?en = "rs_end n"
  define u0 where "u0 = twhile (left_of h ?st) (kids a t)"
  from tree_at_kids [OF T(1,2)] T(3)
  have K: "forest h (Some a) (unat (rs_start r)) (unat (rs_end r)) (rs_child r) (kids a t) None"
    and d: "distinct (preorder (kids a t))" "a \<notin> set_tree (kids a t)" "set_tree (kids a t) \<subseteq> set_tree t"
    by auto
  have j: "kids a t = join u0 (Node k c s)" unfolding u0_def c(1) [symmetric] by simp
  have dt: "distinct (preorder t)" using T(1) by (simp add: tree_at_def)
  have ca: "c \<in> set_tree (kids a t)" using j by simp
  have dis: "c \<notin> set_tree u0" "set_tree k \<inter> set_tree u0 = {}" "c \<noteq> a" "a \<notin> set_tree k"
    using d j by (auto simp flip: set_preorder)
  have kc: "kids c t = k" using kids_kids [OF dt ca] j kids_join [OF dis(1)] by simp
  from g have q: "q \<in> insert c (set_tree k)" "q \<noteq> c \<longrightarrow> (\<forall>r. h q = Some r \<longrightarrow> \<not> busy r)"
    "\<forall>r. h q = Some r \<longrightarrow> fits n r" "kids q t = join u w"
    and h': "h' = (put h (endslot (Child_of q) u) (Some new))(new \<mapsto> n\<lparr>rs_sibling := m, rs_parent := Some q\<rparr>)"
    and rel: "release_region_loop ?st ?en (Child_of c) h' = release_region_loop ?st ?en (Child_of q) h'"
    by (auto simp: granted_at_def kc)
  have "set_tree u \<subseteq> set_tree (kids q t)" using q(4) by simp
  also have "\<dots> \<subseteq> set_tree k"
  proof (cases "q = c")
    case False
    then have "q \<in> set_tree (kids c t)" using q(1) kc by simp
    then show ?thesis using kids_kids [OF dt, of q c] kids_subset [of q "kids c t"] kc by simp
  qed (simp add: kc)
  finally have own: "owner (endslot (Child_of q) u) \<in> insert c (set_tree k)"
    using owner_endslot [of "Child_of q" u] q(1) by auto
  have "\<forall>x\<in>insert a (set_tree u0). x \<noteq> owner (endslot (Child_of q) u) \<and> x \<noteq> new"
    using own dis T(2,4) d(3) j by auto
  then have fr: "\<forall>x\<in>insert a (set_tree u0). h' x = h x" unfolding h' by simp
  from K j obtain e where fu0: "forest h (Some a) (unat (rs_start r)) (unat (rs_end r)) (rs_child r) u0 (Some c)"
    and fc: "forest h (Some a) e (unat (rs_end r)) (Some c) (Node k c s) None"
    by (auto simp: forest_join)
  then have fu: "forest h' (Some a) (unat (rs_start r)) (unat (rs_end r)) (rs_child r) u0 (Some c)"
    using fr by (subst forest_frame [of _ _ h]) auto
  have cn: "c \<noteq> new" using ca d(3) T(4) by auto
  have "map_option view (h' c) = map_option view (h c)" unfolding h' using cn by simp
  then obtain rc' where rc': "h' c = Some rc'" "view rc' = view rc" using c(2) by auto
  have within: "rs_start rc \<le> ?st \<and> ?en \<le> rs_end rc \<and> ?st \<le> ?en"
  proof (cases "q = c")
    case False
    then have "q \<in> set_tree k" using q(1) by simp
    with forest_node [of h "Some c" "unat (rs_start rc)" "unat (rs_end rc)" "rs_child rc" k None q] fc c(2)
    obtain rq where "h q = Some rq" "rs_start rc \<le> rs_start rq" "rs_end rq \<le> rs_end rc"
      by (auto simp: word_le_nat_alt)
    with q(3) show ?thesis by (auto simp: fits_def)
  qed (use q(3) c(2) in \<open>auto simp: fits_def\<close>)
  have "\<not> contains h' ?st ?en b" if "b \<in> set (tops u0)" for b
    using twhile_tops [of b "left_of h ?st" "kids a t"] that fr within
    by (fastforce simp: u0_def contains_def split: option.splits)
  then have "release_region_loop ?st ?en (Child_of a) h' = release_region_loop ?st ?en (Child_of c) h'"
    using rc' c(3) within fr T(3) by (intro release_region_into [OF fu, where rc = rc']) (auto simp: view_def busy_def)
  moreover have "\<not> hits h ?st ?en y" if y: "y \<in> set_tree (kids a t)" "h y = Some ry" "busy ry" for y ry
  proof
    assume hit: "hits h ?st ?en y"
    from y(1) j consider "y \<in> set_tree u0" | "y = c" | "y \<in> set_tree k" | "y \<in> set_tree s" by auto
    then show False
    proof cases
      case 1
      from hits_top [OF fu0 1 hit] obtain z where "z \<in> set (tops u0)" "hits h ?st ?en z" by blast
      with twhile_tops [of z "left_of h ?st" "kids a t"] show False
        by (auto simp: u0_def hits_def split: option.splits)
    next
      case 4
      have "forest h (Some a) (Suc (unat (rs_end rc))) (unat (rs_end r)) (rs_sibling rc) s None"
        using fc c(2) by simp
      from forest_node [OF this 4] y(2) hit within show False
        by (auto simp: hits_def word_le_nat_alt)
    qed (use y c g hit kc in \<open>auto simp: granted_at_def\<close>)
  qed
  ultimately show ?thesis using g rel ca d(2) q c kc j by (auto simp: granted_at_def)
qed

lemma region_loop_cases:
  assumes T: "tree_at h root t" and new: "h new = Some n" "new \<notin> set_tree t" "rs_child n = None"
  shows "a \<in> set_tree t \<Longrightarrow>
    region_loop a new h = Some (Inr (None, h(new := None))) \<or>
    (\<exists>q u w m h'. region_loop a new h = Some (Inr (Some new, h')) \<and>
       granted_at h t a new n q u w m h' \<and>
       tree_at h' root (regrow q (join u (Node Leaf new w)) t) \<and>
       set_tree (regrow q (join u (Node Leaf new w)) t) = insert new (set_tree t))"
proof (induction "size (kids a t)" arbitrary: a rule: less_induct)
  case less
  from tree_at_kids [OF T less.prems] obtain r where r: "h a = Some r"
    and d: "a \<notin> set_tree (kids a t)" "set_tree (kids a t) \<subseteq> set_tree t"
    and K: "forest h (Some a) (unat (rs_start r)) (unat (rs_end r)) (rs_child r) (kids a t) None" by metis
  from T less.prems r new show ?case
  proof (cases rule: uu_request_resource_cases)
    case outside
    then show ?thesis using r by (subst region_loop.simps) simp
  next
    case (conflict k c s)
    have "c \<in> set_tree (join (twhile (left_of h (rs_start n)) (kids a t)) (dwhile (left_of h (rs_start n)) (kids a t)))"
      unfolding conflict(2) by simp
    then have c: "c \<in> set_tree (kids a t)" by simp
    with d have ca: "c \<noteq> a" "c \<in> set_tree t" by auto
    from conflict(3) obtain rc where rc: "h c = Some rc" by (auto simp: hits_def split: option.splits)
    show ?thesis
    proof (cases "busy rc")
      case True
      then show ?thesis using conflict(4) rc by (subst region_loop.simps) (simp add: busy_def)
    next
      case False
      then have eq: "region_loop a new h = region_loop c new h"
        using conflict(4) rc ca by (subst region_loop.simps) (simp add: busy_def)
      have "size (kids c t) < size (kids a t)"
        using T c by (intro size_kids_child) (simp_all add: tree_at_def)
      from less.hyps [OF this ca(2)] show ?thesis
        unfolding eq using granted_descend [OF T less.prems r new(2) conflict(2) rc False] by blast
    qed
  next
    case (linked u w m h')
    then have "region_loop a new h = Some (Inr (Some new, h'))"
      by (subst region_loop.simps) simp
    moreover have "\<not> hits h (rs_start n) (rs_end n) y" if "y \<in> set_tree (kids a t)" for y
      using hits_top [OF K that] linked(2) by blast
    then have "granted_at h t a new n a u w m h'"
      using linked r by (auto simp: granted_at_def)
    ultimately show ?thesis using linked by blast
  qed
qed

section \<open>Giving a region back\<close>

lemma put_load: "load h p = Inr m \<Longrightarrow> put h p m = h"
  by (cases p) (auto simp: put_def deref_def split: option.splits)

lemma put_put [simp]: "put (put h p v) p w = put h p w"
proof -
  have "set_slot p w \<circ> set_slot p v = set_slot p w" by (cases p) (simp_all add: fun_eq_iff)
  then show ?thesis by (simp add: put_def option.map_comp)
qed

lemma put_upd: "x \<noteq> owner p \<Longrightarrow> put (h(x := v)) p w = (put h p w)(x := v)"
  by (auto simp: put_def)

lemma kids_regrow: "a \<in> set_tree t \<Longrightarrow> distinct (preorder t) \<Longrightarrow> a \<notin> set_tree u \<Longrightarrow> kids a (regrow a u t) = u"
proof (induction t)
  case (Node k b s)
  then have d: "b \<notin> set_tree k" "b \<notin> set_tree s" "set_tree k \<inter> set_tree s = {}"
      "distinct (preorder k)" "distinct (preorder s)"
    by (auto simp flip: set_preorder)
  have "a \<in> set_tree (regrow a u k)" if "a \<in> set_tree k"
    using set_regrow [OF d(4) that, of u] kids_not_self [OF d(4)] that by auto
  with Node d show ?case by auto
qed simp

text \<open>
  A node just linked in below \<open>q\<close>: the slot that points to it, and what the store is when it is
  taken out again.
\<close>

lemma linked_slot:
  assumes T: "tree_at h root t" "q \<in> set_tree t" "kids q t = join u w" "load h (endslot (Child_of q) u) = Inr m"
    and new: "new \<notin> set_tree t"
    and h': "h' = (put h (endslot (Child_of q) u) (Some new))(new \<mapsto> n)"
    and T': "tree_at h' root (regrow q (join u (Node Leaf new w)) t)"
  obtains rq where "h' q = Some rq" "load h' (endslot (Child_of q) u) = Inr (Some new)"
    "forest h' (Some q) (unat (rs_start rq)) (unat (rs_end rq)) (rs_child rq) u (Some new)"
    "new \<noteq> owner (endslot (Child_of q) u)" "new \<notin> set_tree u"
    "put h' (endslot (Child_of q) u) m = h(new \<mapsto> n)"
proof -
  let ?p = "endslot (Child_of q) u" and ?u = "join u (Node Leaf new w)"
  from tree_at_kids [OF T(1,2)] T(3) have d: "q \<notin> set_tree (join u w)" "set_tree (join u w) \<subseteq> set_tree t"
    by metis+
  have dt: "distinct (preorder t)" using T(1) by (simp add: tree_at_def)
  have qn: "q \<notin> set_tree ?u" using d new T(2) by auto
  have "q \<in> set_tree (regrow q ?u t)"
    using set_regrow [OF dt T(2), of ?u] T(2,3) d by auto
  from tree_at_kids [OF T' this] obtain rq where rq: "h' q = Some rq"
    and f: "forest h' (Some q) (unat (rs_start rq)) (unat (rs_end rq)) (rs_child rq) ?u None"
    using kids_regrow [OF T(2) dt qn] by metis
  from f have fu: "forest h' (Some q) (unat (rs_start rq)) (unat (rs_end rq)) (rs_child rq) u (Some new)"
    by (auto simp: forest_join)
  have own: "owner ?p \<in> insert q (set_tree u)" using owner_endslot [of "Child_of q" u] by auto
  then have ne: "new \<noteq> owner ?p" "new \<notin> set_tree u" using new d T(2) by auto
  have "load h' ?p = Inr (Some new)" using load_endslot [OF fu] rq by simp
  moreover have "put h' ?p m = h(new \<mapsto> n)"
    unfolding h' using put_upd [OF ne(1)] put_load [OF T(4)] by simp
  ultimately show thesis using that rq fu ne by blast
qed

lemma release_new_region:
  assumes T: "tree_at h root t" "a \<in> set_tree t" "new \<notin> set_tree t"
    and g: "granted_at h t a new n q u w m h'" and n: "busy n"
    and T': "tree_at h' root (regrow q (join u (Node Leaf new w)) t)"
  shows "release_region_loop (rs_start n) (rs_end n) (Child_of a) h' = Some (Inr (True, h(new := None)))"
proof -
  let ?p = "endslot (Child_of q) u" and ?st = "rs_start n" and ?en = "rs_end n"
  let ?n = "n\<lparr>rs_sibling := m, rs_parent := Some q\<rparr>"
  have q: "q \<in> set_tree t" using g kids_subset [of a t] T(2) by (auto simp: granted_at_def)
  from g have j: "kids q t = join u w" and l: "load h ?p = Inr m"
    and h': "h' = (put h ?p (Some new))(new \<mapsto> ?n)"
    and free: "\<forall>c\<in>set (tops (join u w)). \<not> hits h ?st ?en c"
    and fit: "\<forall>r. h q = Some r \<longrightarrow> fits n r"
    and rel: "release_region_loop ?st ?en (Child_of a) h' = release_region_loop ?st ?en (Child_of q) h'"
    by (auto simp: granted_at_def)
  from linked_slot [OF T(1) q j l T(3) h' T'] obtain rq where rq: "h' q = Some rq"
    and lp: "load h' ?p = Inr (Some new)"
    and fu: "forest h' (Some q) (unat (rs_start rq)) (unat (rs_end rq)) (rs_child rq) u (Some new)"
    and ne: "new \<noteq> owner ?p" "new \<notin> set_tree u" and undo: "put h' ?p m = h(new \<mapsto> ?n)" .
  from tree_at_kids [OF T(1) q] fit have le: "?st \<le> ?en" by (metis fits_def)
  have "\<not> contains h' ?st ?en b" if "b \<in> set (tops u)" for b
  proof -
    have "map_option view (h' b) = map_option view (h b)"
      unfolding h' using ne that by (metis fun_upd_other tops_in view_put)
    moreover have "\<not> hits h ?st ?en b" using free that by simp
    ultimately show ?thesis using le contains_view [of h' b h] contains_hits by blast
  qed
  with release_region_walk [OF fu] rq rel
  have "release_region_loop ?st ?en (Child_of a) h' = release_region_loop ?st ?en ?p h'" by simp
  also have "\<dots> = bindR (Some (store h' ?p m)) (\<lambda>h. Some (Inr (True, h(new := None))))"
    using lp n by (subst release_region_loop.simps) (simp add: h' busy_def)
  also have "\<dots> = Some (Inr (True, (put h' ?p m)(new := None)))"
    using load_Inr_owner [OF lp] store_eq by fastforce
  finally show ?thesis by (simp add: undo)
qed

lemma release_new_resource:
  assumes T: "tree_at h root t" "a \<in> set_tree t" "new \<notin> set_tree t"
    and g: "granted_at h t a new n q u w m h'"
    and T': "tree_at h' root (regrow q (join u (Node Leaf new w)) t)"
  shows "\<exists>n'. uu_release_resource new h' = Some (Inr (None, h(new \<mapsto> n')))"
proof -
  let ?p = "endslot (Child_of q) u"
  let ?n = "n\<lparr>rs_sibling := m, rs_parent := Some q\<rparr>"
  have q: "q \<in> set_tree t" using g kids_subset [of a t] T(2) by (auto simp: granted_at_def)
  from g have j: "kids q t = join u w" and l: "load h ?p = Inr m"
    and h': "h' = (put h ?p (Some new))(new \<mapsto> ?n)"
    by (auto simp: granted_at_def)
  from linked_slot [OF T(1) q j l T(3) h' T'] obtain rq where rq: "h' q = Some rq"
    and lp: "load h' ?p = Inr (Some new)"
    and fu: "forest h' (Some q) (unat (rs_start rq)) (unat (rs_end rq)) (rs_child rq) u (Some new)"
    and ne: "new \<noteq> owner ?p" "new \<notin> set_tree u" and undo: "put h' ?p m = h(new \<mapsto> ?n)" .
  have "uu_release_resource new h' = release_loop new (Child_of q) h'"
    unfolding uu_release_resource_def by (simp add: h')
  also have "\<dots> = release_loop new ?p h'"
    using release_loop_walk [OF fu, of "Child_of q" new] rq ne(2) by auto
  also have "\<dots> = bindR (Some (store h' ?p m)) (\<lambda>h.
      bindR (Some (modify h new (rs_parent_update (\<lambda>_. None)))) (\<lambda>h. Some (Inr (None, h))))"
    using lp by (subst release_loop.simps) (simp add: h')
  also have "store h' ?p m = Inr (h(new \<mapsto> ?n))"
    using load_Inr_owner [OF lp] store_eq undo by fastforce
  finally have "uu_release_resource new h' = Some (Inr (None, h(new \<mapsto> ?n\<lparr>rs_parent := None\<rparr>)))"
    by (simp add: modify_def)
  then show ?thesis by blast
qed

end
