(* ===== verification/Resource_Busy.thy ===== *)
theory Resource_Busy
  imports Resource_Region
begin

text \<open>
  Busy regions: releasing keeps the tree, and regions that drivers get by requesting them
  never share an address with another busy resource.
\<close>

section \<open>Releasing any region\<close>

lemma release_region_tree:
  assumes T: "tree_at h root t"
  shows "a \<in> set_tree t \<Longrightarrow>
    release_region_loop st en (Child_of a) h = Some (Inr (False, h)) \<or>
    (\<exists>p x m t'. release_region_loop st en (Child_of a) h = Some (Inr (True, (put h p m)(x := None))) \<and>
       load h p = Inr (Some x) \<and> x \<in> set_tree t \<and> x \<noteq> root \<and> 
       tree_at ((put h p m)(x := None)) root t' \<and> set_tree t' \<subseteq> set_tree t - {x})"
proof (induction "size (kids a t)" arbitrary: a rule: less_induct)
  case less
  let ?P = "\<lambda>b. \<not> contains h st en b"
  define u where "u = twhile ?P (kids a t)"
  from tree_at_kids [OF T less.prems] obtain r where r: "h a = Some r"
    and d: "distinct (preorder (kids a t))" "a \<notin> set_tree (kids a t)" "set_tree (kids a t) \<subseteq> set_tree t"
    and K: "forest h (Some a) (unat (rs_start r)) (unat (rs_end r)) (rs_child r) (kids a t) None" by metis
  from forest_split [OF K, of ?P] obtain e
    where u: "forest h (Some a) (unat (rs_start r)) (unat (rs_end r)) (rs_child r) u e"
    and w: "forest h (Some a) (reach h (unat (rs_start r)) u) (unat (rs_end r)) e (dwhile ?P (kids a t)) None"
    unfolding u_def by blast
  have load: "load h (Child_of a) = Inr (rs_child r)" using r by simp
  have lp: "load h (endslot (Child_of a) u) = Inr e" by (rule load_endslot [OF u load])
  have walk: "release_region_loop st en (Child_of a) h = release_region_loop st en (endslot (Child_of a) u) h"
    using twhile_tops [of _ ?P "kids a t"] by (intro release_region_walk [OF u load]) (auto simp: u_def)
  show ?case
  proof (cases "dwhile ?P (kids a t)")
    case Leaf
    then have "release_region_loop st en (endslot (Child_of a) u) h = Some (Inr (False, h))"
      using w lp by (subst release_region_loop.simps) simp
    then show ?thesis using walk by simp
  next
    case (Node k x s)
    have j: "kids a t = join u (Node k x s)" unfolding u_def Node [symmetric] by simp
    then have x: "x \<in> set_tree (kids a t)" "x \<in> set_tree t" "x \<noteq> a" using d by auto
    from dwhile_top [OF Node] obtain rx where rx: "h x = Some rx" "rs_start rx \<le> st" "en \<le> rs_end rx"
      by (auto simp: contains_def split: option.splits)
    have e: "e = Some x" using w Node by simp
    consider "\<not> busy rx" | "busy rx" "rs_start rx \<noteq> st \<or> rs_end rx \<noteq> en"
      | "busy rx" "rs_start rx = st" "rs_end rx = en" by blast
    then show ?thesis
    proof cases
      case 1
      then have "release_region_loop st en (endslot (Child_of a) u) h = release_region_loop st en (Child_of x) h"
        using lp e rx by (subst release_region_loop.simps) (simp add: busy_def)
      moreover have "size (kids x t) < size (kids a t)"
        using T x by (intro size_kids_child) (simp_all add: tree_at_def)
      ultimately show ?thesis using walk less.hyps [OF _ x(2)] by simp
    next
      case 2
      then have "release_region_loop st en (endslot (Child_of a) u) h = Some (Inr (False, h))"
        using lp e rx by (subst release_region_loop.simps) (auto simp: busy_def)
      then show ?thesis using walk by simp
    next
      case 3
      let ?p = "endslot (Child_of a) u"
      have "release_region_loop st en ?p h =
          bindR (Some (store h ?p (rs_sibling rx))) (\<lambda>h. Some (Inr (True, h(x := None))))"
        using 3 lp e rx by (subst release_region_loop.simps) (simp add: busy_def)
      also have "store h ?p (rs_sibling rx) = Inr (put h ?p (rs_sibling rx))"
        using load_Inr_owner [OF lp] store_eq by blast
      finally have rel: "release_region_loop st en ?p h = Some (Inr (True, (put h ?p (rs_sibling rx))(x := None)))"
        unfolding bindR_simps .
      have "\<forall>y\<in>set_tree t - set_tree k - {x}.
          ((put h ?p (rs_sibling rx))(x := None)) y = put h ?p (rs_sibling rx) y" by simp
      note c = tree_unlink [OF T less.prems j rx(1) this]
      have "set_tree (regrow a (join u s) t) \<subseteq> set_tree t - {x}" using conjunct2 [OF c] by blast
      moreover have "x \<noteq> root" using tree_at_root [OF conjunct1 [OF c]] calculation by blast
      ultimately show ?thesis
        by (intro disjI2 exI conjI) (rule trans [OF walk rel] lp [unfolded e] x conjunct1 [OF c] | assumption)+
    qed
  qed
qed

section \<open>Which busy resources may overlap\<close>

text \<open>
  Two busy resources of the tree at \<open>h'\<close> overlap only if both were in the tree \<open>t\<close> at \<open>h\<close> and
  have kept their ranges, flags and names.
\<close>

definition old_node :: "heap \<Rightarrow> nat tree \<Rightarrow> nat \<Rightarrow> resource \<Rightarrow> bool" where
  "old_node h t x r \<longleftrightarrow> x \<in> set_tree t \<and> map_option view (h x) = Some (view r)"

definition overlap_old :: "heap \<Rightarrow> nat tree \<Rightarrow> heap \<Rightarrow> nat tree \<Rightarrow> bool" where
  "overlap_old h t h' t' \<longleftrightarrow>
     (\<forall>x\<in>set_tree t'. \<forall>y\<in>set_tree t'. \<forall>rx ry. x \<noteq> y \<longrightarrow> h' x = Some rx \<longrightarrow> h' y = Some ry \<longrightarrow>
        busy rx \<longrightarrow> busy ry \<longrightarrow>
        rs_end rx < rs_start ry \<or> rs_end ry < rs_start rx \<or> old_node h t x rx \<and> old_node h t y ry)"

definition root_free :: "heap \<Rightarrow> nat \<Rightarrow> bool" where
  "root_free h root \<longleftrightarrow> (\<forall>r. h root = Some r \<longrightarrow> \<not> busy r)"

lemma view_SomeD:
  assumes "map_option view (h' x) = map_option view (h x)" "h' x = Some r'"
  obtains r where "h x = Some r" "view r = view r'"
  using assms by (cases "h x") auto

lemma view_fields:
  "view r = view r' \<Longrightarrow> rs_start r = rs_start r' \<and> rs_end r = rs_end r' \<and> busy r = busy r'"
  by (simp add: view_def busy_def)

text \<open>What only removes nodes and relinks the others keeps this.\<close>

lemma overlap_old_shrink:
  assumes O: "overlap_old h0 t0 h t" and t': "set_tree t' \<subseteq> set_tree t"
    and v: "\<forall>x\<in>set_tree t'. map_option view (h' x) = map_option view (h x)"
  shows "overlap_old h0 t0 h' t'"
  unfolding overlap_old_def
proof (intro ballI allI impI)
  fix x y rx ry assume x: "x \<in> set_tree t'" "h' x = Some rx" "busy rx"
    and y: "y \<in> set_tree t'" "h' y = Some ry" "busy ry" and ne: "x \<noteq> y"
  from v x obtain sx where sx: "h x = Some sx" "view sx = view rx" by (metis view_SomeD)
  from v y obtain sy where sy: "h y = Some sy" "view sy = view ry" by (metis view_SomeD)
  have "rs_end sx < rs_start sy \<or> rs_end sy < rs_start sx \<or> old_node h0 t0 x sx \<and> old_node h0 t0 y sy"
    using O x y ne sx sy t' view_fields [OF sx(2)] view_fields [OF sy(2)]
    unfolding overlap_old_def by blast
  then show "rs_end rx < rs_start ry \<or> rs_end ry < rs_start rx \<or> old_node h0 t0 x rx \<and> old_node h0 t0 y ry"
    using view_fields [OF sx(2)] view_fields [OF sy(2)] sx sy by (auto simp: old_node_def)
qed

lemma root_free_view:
  "map_option view (h' root) = map_option view (h root) \<Longrightarrow> root_free h root \<Longrightarrow> root_free h' root"
  unfolding root_free_def by (metis view_SomeD view_fields)

lemma overlap_old_release:
  assumes T: "tree_at h root t" and O: "overlap_old h0 t0 h t" and R: "root_free h root"
    and rel: "uu_release_region root st n h = Some (Inr (b, h'))"
  shows "\<exists>t'. tree_at h' root t' \<and> overlap_old h0 t0 h' t' \<and> root_free h' root"
proof -
  from release_region_tree [OF T tree_at_root [OF T], of st "st + n - 1"] rel
  consider "h' = h" | p x m t' where "h' = (put h p m)(x := None)" "x \<noteq> root"
    "tree_at h' root t'" "set_tree t' \<subseteq> set_tree t - {x}"
    by (auto simp: uu_release_region_def)
  then show ?thesis
  proof cases
    case 2
    then have v: "\<forall>y\<in>insert root (set_tree t'). map_option view (h' y) = map_option view (h y)" by auto
    then have "overlap_old h0 t0 h' t'" using 2(4) by (intro overlap_old_shrink [OF O]) auto
    moreover have "root_free h' root" using v root_free_view R by blast
    ultimately show ?thesis using 2(3) by blast
  qed (use T O R in blast)
qed

lemma tree_at_dom: "tree_at h root t \<Longrightarrow> x \<in> set_tree t \<Longrightarrow> \<exists>r. h x = Some r"
  using forest_node [of h None 0 "2 ^ 32 - 1" "Some root" t None x] by (auto simp: tree_at_def)

lemma tree_at_fresh:
  "tree_at h root t \<Longrightarrow> h new = None \<Longrightarrow> new \<notin> set_tree t \<and> tree_at (h(new \<mapsto> n)) root t"
  using tree_at_dom [of h root t new] by (auto intro!: tree_at_frame [of h root t])

text \<open>A request for a region with a fresh descriptor.\<close>

lemma request_region_cases:
  assumes T: "tree_at h root t" "a \<in> set_tree t" and fresh: "\<forall>x. kzalloc h = Some x \<longrightarrow> h x = None"
  obtains (refused) "uu_request_region kzalloc a st n name flags h = Some (Inr (None, h))"
  | (granted) new q u w m h' where
      "uu_request_region kzalloc a st n name flags h = Some (Inr (Some new, h'))"
      "h new = None" "new \<notin> set_tree t" "kzalloc h = Some new"
      "tree_at (h(new \<mapsto> region st (st + n - 1) name flags)) root t"
      "granted_at (h(new \<mapsto> region st (st + n - 1) name flags)) t a new
         (region st (st + n - 1) name flags) q u w m h'"
      "tree_at h' root (regrow q (join u (Node Leaf new w)) t)"
      "set_tree (regrow q (join u (Node Leaf new w)) t) = insert new (set_tree t)"
proof (cases "kzalloc h")
  case None
  then show ?thesis using refused by (simp add: uu_request_region_def)
next
  case (Some new)
  let ?n = "region st (st + n - 1) name flags" and ?h = "h(new \<mapsto> region st (st + n - 1) name flags)"
  from Some fresh have new: "h new = None" by blast
  note f = tree_at_fresh [OF T(1) new, of ?n]
  have eq: "uu_request_region kzalloc a st n name flags h = region_loop a new ?h"
    using Some by (simp add: uu_request_region_def)
  from region_loop_cases [of ?h root t new ?n a] f T(2)
  consider "region_loop a new ?h = Some (Inr (None, ?h(new := None)))"
    | q u w m h' where "region_loop a new ?h = Some (Inr (Some new, h'))"
       "granted_at ?h t a new ?n q u w m h'"
       "tree_at h' root (regrow q (join u (Node Leaf new w)) t)"
       "set_tree (regrow q (join u (Node Leaf new w)) t) = insert new (set_tree t)"
    by auto
  then show ?thesis
  proof cases
    case 1
    moreover have "?h(new := None) = h" using new by auto
    ultimately show ?thesis using refused eq by simp
  next
    case 2
    with granted [OF _ new conjunct1 [OF f] Some conjunct2 [OF f] 2(2)] eq show ?thesis by simp
  qed
qed

lemma kids_root: "tree_at h root t \<Longrightarrow> set_tree t = insert root (set_tree (kids root t))"
  by (cases t) (auto simp: tree_at_def)

lemma overlap_old_request:
  assumes T: "tree_at h root t" and O: "overlap_old h0 t0 h t" and R: "root_free h root"
    and fresh: "\<forall>x. kzalloc h = Some x \<longrightarrow> h x = None"
    and req: "uu_request_region kzalloc root st n name flags h = Some (Inr (res, h'))"
  shows "\<exists>t'. tree_at h' root t' \<and> overlap_old h0 t0 h' t' \<and> root_free h' root"
  using T tree_at_root [OF T] fresh
proof (cases rule: request_region_cases [where st = st and n = n and name = name and flags = flags])
  case refused
  then show ?thesis using req T O R by auto
next
  case (granted new q u w m h2)
  define n1 where "n1 = region st (st + n - 1) name flags"
  define h1 where "h1 = h(new \<mapsto> n1)"
  define t' where "t' = regrow q (join u (Node Leaf new w)) t"
  from granted(1) req have eq: "h2 = h'" by auto
  have set: "set_tree t' = insert new (set_tree t)" and T': "tree_at h' root t'"
    using granted(7,8) by (simp_all add: t'_def eq)
  have "granted_at h1 t root new n1 q u w m h'" using granted(6) by (simp add: h1_def n1_def eq)
  then have apart: "\<forall>y\<in>set_tree (kids root t). \<forall>r. h1 y = Some r \<longrightarrow> busy r \<longrightarrow>
        \<not> hits h1 (rs_start n1) (rs_end n1) y"
      and h': "h' = (put h1 (endslot (Child_of q) u) (Some new))
        (new \<mapsto> n1\<lparr>rs_sibling := m, rs_parent := Some q\<rparr>)"
    by (simp_all add: granted_at_def)
  have v: "map_option view (h' y) = map_option view (h y)" if "y \<noteq> new" for y
    using that by (simp add: h' h1_def)
  have rn: "root \<noteq> new" using granted(3) tree_at_root [OF T] by auto
  have free: "rs_end r < rs_start n1 \<or> rs_end n1 < rs_start r"
    if y: "y \<in> set_tree t" "h' y = Some r" "busy r" for y r
  proof -
    have yn: "y \<noteq> new" using y(1) granted(3) by auto
    obtain r0 where r0: "h y = Some r0" "view r0 = view r"
      using view_SomeD [of h' y h r] v [OF yn] y(2) by metis
    with y(3) have "y \<noteq> root" using R view_fields [OF r0(2)] by (auto simp: root_free_def)
    with y(1) have "y \<in> set_tree (kids root t)" using kids_root [OF T] by auto
    moreover have "h1 y = Some r0" "busy r0" using r0 yn y(3) view_fields [OF r0(2)] by (simp_all add: h1_def)
    ultimately have "\<not> hits h1 (rs_start n1) (rs_end n1) y" using apart by blast
    then show ?thesis using \<open>h1 y = Some r0\<close> view_fields [OF r0(2)] by (auto simp: hits_def not_le)
  qed
  have new: "h' new = Some (n1\<lparr>rs_sibling := m, rs_parent := Some q\<rparr>)" by (simp add: h')
  have "\<forall>x\<in>set_tree t. map_option view (h' x) = map_option view (h x)" using v granted(3) by metis
  from overlap_old_shrink [OF O order.refl this] have O1: "overlap_old h0 t0 h' t" .
  have "overlap_old h0 t0 h' t'"
    unfolding overlap_old_def set
  proof (intro ballI allI impI)
    fix x y rx ry assume x: "x \<in> insert new (set_tree t)" "h' x = Some rx" "busy rx"
      and y: "y \<in> insert new (set_tree t)" "h' y = Some ry" "busy ry" and ne: "x \<noteq> y"
    consider "x = new" "y \<in> set_tree t" | "y = new" "x \<in> set_tree t" | "x \<in> set_tree t" "y \<in> set_tree t"
      using x(1) y(1) ne by blast
    then show "rs_end rx < rs_start ry \<or> rs_end ry < rs_start rx \<or> old_node h0 t0 x rx \<and> old_node h0 t0 y ry"
    proof cases
      case 1
      with free [OF 1(2) y(2,3)] x(2) new show ?thesis by auto
    next
      case 2
      with free [OF 2(2) x(2,3)] y(2) new show ?thesis by auto
    next
      case 3
      with O1 x y ne show ?thesis unfolding overlap_old_def by blast
    qed
  qed
  moreover have "root_free h' root" using root_free_view [of h' root h] v [OF rn] R by simp
  ultimately show ?thesis using T' by blast
qed

text \<open>Checking a region leaves the store as it was.\<close>

lemma check_region_same:
  assumes T: "tree_at h root t" "a \<in> set_tree t" and fresh: "\<forall>x. kzalloc h = Some x \<longrightarrow> h x = None"
  shows "\<exists>e. uu_check_region kzalloc a st n h = Some (Inr (e, h))"
  using T fresh
proof (cases rule: request_region_cases [where st = st and n = n and name = "Some ''check-region''" and flags = 0])
  case refused
  then show ?thesis by (simp add: uu_check_region_def)
next
  case (granted new q u w m h')
  from release_new_resource [OF granted(5) T(2) granted(3) granted(6,7)] obtain n'
    where "uu_release_resource new h' = Some (Inr (None, h(new \<mapsto> n')))" by auto
  moreover have "(h(new \<mapsto> n'))(new := None) = h" using granted(2) by auto
  ultimately show ?thesis
    using granted(1) by (simp add: uu_check_region_def release_resource_def)
qed

section \<open>Drivers at work\<close>

text \<open>
  What drivers do to a tree with \<^verbatim>\<open>request_region\<close>, \<^verbatim>\<open>check_region\<close> and \<^verbatim>\<open>release_region\<close>; the allocator
  returns unused addresses.
\<close>

inductive region_step :: "nat \<Rightarrow> heap \<Rightarrow> heap \<Rightarrow> bool" for root where
  request: "\<forall>x. kzalloc h = Some x \<longrightarrow> h x = None \<Longrightarrow>
    uu_request_region kzalloc root st n name flags h = Some (Inr (res, h')) \<Longrightarrow> region_step root h h'"
| check: "\<forall>x. kzalloc h = Some x \<longrightarrow> h x = None \<Longrightarrow>
    uu_check_region kzalloc root st n h = Some (Inr (e, h')) \<Longrightarrow> region_step root h h'"
| release: "uu_release_region root st n h = Some (Inr (b, h')) \<Longrightarrow> region_step root h h'"

definition regions_ok :: "nat \<Rightarrow> heap \<Rightarrow> nat tree \<Rightarrow> heap \<Rightarrow> bool" where
  "regions_ok root h0 t0 h \<longleftrightarrow> (\<exists>t. tree_at h root t \<and> overlap_old h0 t0 h t \<and> root_free h root)"

lemma region_step_ok: "regions_ok root h0 t0 h \<Longrightarrow> region_step root h h' \<Longrightarrow> regions_ok root h0 t0 h'"
  unfolding regions_ok_def
proof (elim exE conjE)
  fix t assume T: "tree_at h root t" and O: "overlap_old h0 t0 h t" and R: "root_free h root"
    and s: "region_step root h h'"
  from s show "\<exists>t'. tree_at h' root t' \<and> overlap_old h0 t0 h' t' \<and> root_free h' root"
  proof cases
    case (request kzalloc st n name flags res)
    then show ?thesis using overlap_old_request [OF T O R] by blast
  next
    case (check kzalloc st n e)
    then show ?thesis using check_region_same [OF T tree_at_root [OF T], of kzalloc st n] T O R by auto
  next
    case (release st n b)
    then show ?thesis using overlap_old_release [OF T O R] by blast
  qed
qed

lemma regions_start: "tree_at h root t \<and> root_free h root \<Longrightarrow> regions_ok root h t h"
  unfolding regions_ok_def overlap_old_def old_node_def by auto

interpretation regions: step_invariant
  "\<lambda>h. h = h0 \<and> tree_at h0 root t0 \<and> root_free h0 root" "region_step root" "regions_ok root h0 t0"
  for root h0 t0
  by unfold_locales (use regions_start region_step_ok in blast)+

text \<open>
  C7: a granted region is exclusive.  From any well-formed resource tree whose root is not
  busy, after any sequence of requests, checks and releases of regions at the root,
  whatever their ranges and whether or not they succeed, the store holds a well-formed tree,
  and two busy resources of it overlap only if both were in the tree at the start with the
  same ranges, flags and names.  So a region granted on the way shares no address with any
  other busy resource.
\<close>

theorem busy_regions_exclusive:
  assumes "tree_at h root t" "\<forall>r. h root = Some r \<longrightarrow> \<not> busy r" "(region_step root)\<^sup>*\<^sup>* h h'"
  shows "\<exists>t'. tree_at h' root t' \<and>
    (\<forall>x\<in>set_tree t'. \<forall>y\<in>set_tree t'. \<forall>rx ry. x \<noteq> y \<longrightarrow> h' x = Some rx \<longrightarrow> h' y = Some ry \<longrightarrow>
       busy rx \<longrightarrow> busy ry \<longrightarrow>
       rs_end rx < rs_start ry \<or> rs_end ry < rs_start rx \<or> old_node h t x rx \<and> old_node h t y ry)"
proof -
  have "regions_ok root h t h'"
    using regions.inv_reachable [OF _ assms(3), of h t] assms(1,2) by (simp add: root_free_def)
  then show ?thesis unfolding regions_ok_def overlap_old_def by blast
qed

text \<open>The port tree of a small machine: one bus resource with a timer region in it.\<close>

definition ports :: heap where
  "ports = [0 \<mapsto> iomem_resource\<lparr>rs_child := Some 1\<rparr>,
            1 \<mapsto> resource_zero\<lparr>rs_start := 0x100, rs_end := 0x1FF, rs_parent := Some 0, rs_child := Some 2\<rparr>,
            2 \<mapsto> (region 0x140 0x143 None 0)\<lparr>rs_parent := Some 1\<rparr>]"

lemma unat_max_u32 [simp]: "unat (- 1 :: u32) = 4294967295"
  by (simp add: unsigned_minus_1_eq_mask mask_eq_exp_minus_1)

lemma ports_tree: "tree_at ports 0 (Node (Node (Node Leaf 2 Leaf) 1 Leaf) 0 Leaf)"
  unfolding tree_at_def
  by (simp add: ports_def iomem_resource_def resource_zero_def region_def)

definition ports_serial :: heap where
  "ports_serial = ports(2 \<mapsto> (region 0x140 0x143 None 0)\<lparr>rs_parent := Some 1, rs_sibling := Some 3\<rparr>,
                        3 \<mapsto> (region 0x150 0x157 None 0)\<lparr>rs_parent := Some 1\<rparr>)"

lemmas run_region = uu_request_region_def uu_request_resource_def region_loop.simps request_loop.simps
  link_def modify_def deref_def Let_def

lemma ports_request:
  "uu_request_region (\<lambda>_. Some 3) 0 0x150 8 None 0 ports = Some (Inr (Some 3, ports_serial))"
  by (simp add: run_region ports_def ports_serial_def iomem_resource_def resource_zero_def region_def
      cong: bindR_weak_cong)

text \<open>
  Physical memory as \<^verbatim>\<open>arch/arm/kernel/setup.c\<close> sets it up: busy system memory with the kernel
  image in it, and then a device region beside them.
\<close>

definition memory :: heap where
  "memory = [0 \<mapsto> iomem_resource\<lparr>rs_child := Some 1\<rparr>,
             1 \<mapsto> (region 0x50000000 0x56FFFFFF None 0x200)\<lparr>rs_parent := Some 0, rs_child := Some 2\<rparr>,
             2 \<mapsto> resource_zero\<lparr>rs_start := 0x5002A000, rs_end := 0x5036FFFF, rs_flags := IORESOURCE_MEM,
                               rs_parent := Some 1\<rparr>]"

definition memory_device :: heap where
  "memory_device = memory(1 \<mapsto> (region 0x50000000 0x56FFFFFF None 0x200)
                        \<lparr>rs_parent := Some 0, rs_child := Some 2, rs_sibling := Some 3\<rparr>,
                      3 \<mapsto> (region 0x7F005000 0x7F0053FF None 0)\<lparr>rs_parent := Some 0\<rparr>)"

lemma memory_tree: "tree_at memory 0 (Node (Node (Node Leaf 2 Leaf) 1 Leaf) 0 Leaf)"
  unfolding tree_at_def
  by (simp add: memory_def iomem_resource_def resource_zero_def region_def)

lemma memory_request:
  "uu_request_region (\<lambda>_. Some 3) 0 0x7F005000 0x400 None 0 memory = Some (Inr (Some 3, memory_device))"
  by (simp add: run_region memory_def memory_device_def iomem_resource_def resource_zero_def region_def
      cong: bindR_weak_cong)

theorem busy_regions_exclusive_witness:
  "\<exists>t'. tree_at memory_device 0 t' \<and>
    (\<forall>x\<in>set_tree t'. \<forall>y\<in>set_tree t'. \<forall>rx ry. x \<noteq> y \<longrightarrow> memory_device x = Some rx \<longrightarrow>
       memory_device y = Some ry \<longrightarrow> busy rx \<longrightarrow> busy ry \<longrightarrow>
       rs_end rx < rs_start ry \<or> rs_end ry < rs_start rx \<or>
       old_node memory (Node (Node (Node Leaf 2 Leaf) 1 Leaf) 0 Leaf) x rx \<and>
       old_node memory (Node (Node (Node Leaf 2 Leaf) 1 Leaf) 0 Leaf) y ry)"
proof (rule busy_regions_exclusive [OF memory_tree])
  show "\<forall>r. memory 0 = Some r \<longrightarrow> \<not> busy r"
    by (simp add: memory_def iomem_resource_def resource_zero_def busy_def)
  have "region_step 0 memory memory_device"
    by (rule region_step.request [OF _ memory_request]) (simp add: memory_def)
  then show "(region_step 0)\<^sup>*\<^sup>* memory memory_device" by blast
qed

text \<open>
  C17: a region that was granted can be given back.  Releasing the range that was requested,
  from the same starting point, finds the region however deep it was linked in, frees it
  and leaves the store exactly as it was before the request; the same holds for managed
  regions together with the device's list of them.
\<close>

theorem region_round_trip:
  assumes "tree_at h root t" "a \<in> set_tree t" "\<forall>x. kzalloc h = Some x \<longrightarrow> h x = None"
  shows "(uu_request_region kzalloc a st n name flags h = Some (Inr (Some new, h')) \<longrightarrow>
            uu_release_region a st n h' = Some (Inr (True, h))) \<and>
         (uu_devm_request_region kzalloc mem a st n name (h, drs) = Some (Inr (Some new, h', drs')) \<longrightarrow>
            uu_devm_release_region a st n (h', drs') = Some (Inr (True, h, drs)))"
proof -
  have rel: "uu_release_region a st n h' = Some (Inr (True, h))"
    if req: "uu_request_region kzalloc a st n name flags h = Some (Inr (Some new, h'))" for flags
    using assms
  proof (cases rule: request_region_cases [where st = st and n = n and name = name and flags = flags])
    case (granted new' q u w m h2)
    with req have eq: "new' = new" "h2 = h'" by auto
    have "(h(new' \<mapsto> region st (st + n - 1) name flags))(new' := None) = h" using granted(2) by auto
    then show ?thesis
      using release_new_region [OF granted(5) assms(2) granted(3,6) region_busy granted(7)]
      by (simp add: uu_release_region_def eq)
  qed (use req in simp)
  have "uu_devm_release_region a st n (h', drs') = Some (Inr (True, h, drs))"
    if req: "uu_devm_request_region kzalloc mem a st n name (h, drs) = Some (Inr (Some new, h', drs'))"
  proof -
    have "uu_request_region kzalloc a st n name 0 h = Some (Inr (Some new, h'))"
      and "drs' = drs @ [\<lparr>dr_parent = a, dr_start = st, dr_n = n\<rparr>]"
      using req by (auto simp: uu_devm_request_region_def bindR_def Let_def
          split: if_splits option.splits sum.splits)
    with rel show ?thesis
      by (simp add: uu_devm_release_region_def devres_destroy_def devm_region_match_def)
  qed
  with rel show ?thesis by blast
qed


theorem region_round_trip_witness:
  "uu_release_region 0 0x150 8 ports_serial = Some (Inr (True, ports))"
  using region_round_trip [of ports 0 "Node (Node (Node Leaf 2 Leaf) 1 Leaf) 0 Leaf" 0 "\<lambda>_. Some 3"
      "0x150" 8 None 0 3 ports_serial True "[]" "[]"]
    ports_tree ports_request
  by (simp add: ports_def)

end
