(* ===== verification/Resource_Alloc.thy ===== *)
theory Resource_Alloc
  imports Resource_Busy
begin

text \<open>
  Allocation of a free range of a given size within bounds, and changing the range of a
  resource in place.
\<close>

section \<open>Alignment\<close>

lemma and_not_mask_nat: "unat (y AND NOT (2 ^ k - 1)) = unat y - unat y mod 2 ^ k" if "k < 32" for y :: u32
proof -
  have m: "(2 ^ k - 1 :: u32) = mask k" by (simp add: mask_eq_exp_minus_1)
  have "(y AND NOT (mask k)) + (y AND mask k) = y" 
    by (subst disjunctive_add_eq_or) (auto intro!: bit_word_eqI simp: bit_simps)
  then have "y AND NOT (mask k) = y - (y AND mask k)" by (metis add_diff_cancel_right')
  moreover have "y AND mask k \<le> y" by (rule word_and_le2)
  ultimately have "unat (y AND NOT (mask k)) = unat y - unat (y AND mask k)"
    by (simp add: unat_sub)
  moreover have "unat (y AND mask k) = unat y mod 2 ^ k"
    by (metis take_bit_eq_mask take_bit_eq_mod unsigned_take_bit_eq)
  ultimately show ?thesis by (simp add: m)
qed

lemma ALIGN_dvd: "al = 2 ^ k \<Longrightarrow> k < 32 \<Longrightarrow> 2 ^ k dvd unat (ALIGN x al)"
  by (simp add: ALIGN_def and_not_mask_nat minus_mod_eq_mult_div)

lemma ALIGN_ge:
  assumes "al = 2 ^ k" "k < 32" "unat x + unat al \<le> 2 ^ 32"
  shows "x \<le> ALIGN x al"
proof -
  have al: "unat al = 2 ^ k" using assms(1,2) unat_exp [of k, where ?'a = 32] by simp
  then have "al \<noteq> 0" by (metis power_not_zero unat_0 zero_neq_numeral)
  then have "unat (al - 1) = 2 ^ k - 1" using al by (simp add: unat_minus_one)
  moreover have "unat x + (2 ^ k - 1) < 2 ^ 32"
    using assms(3) al by (simp add: less_eq_Suc_le)
  ultimately have "unat (x + (al - 1)) = unat x + (2 ^ k - 1)"
    by (subst unat_add_lem [THEN iffD1]) simp_all
  then have "unat (ALIGN x al) = unat x + (2 ^ k - 1) - (unat x + (2 ^ k - 1)) mod 2 ^ k"
    using assms(1,2) by (simp add: ALIGN_def and_not_mask_nat)
  moreover have "(unat x + (2 ^ k - 1)) mod 2 ^ k < 2 ^ k" by (rule mod_less_divisor) simp
  ultimately show ?thesis unfolding word_le_nat_alt by linarith
qed


text \<open>Rounding up gives at least the argument, or 0 where it overflows.\<close>

lemma ALIGN_cases:
  assumes "al = 2 ^ k" "k < 32"
  shows "x \<le> ALIGN x al \<or> ALIGN x al = 0"
proof (cases "unat x + unat al \<le> 2 ^ 32")
  case False
  have al: "unat al = 2 ^ k" using assms unat_exp [of k, where ?'a = 32] by simp
  then have "al \<noteq> 0" by (metis power_not_zero unat_0 zero_neq_numeral)
  then have al1: "unat (al - 1) = 2 ^ k - 1" using al by (simp add: unat_minus_one)
  have x: "unat x < 2 ^ 32" using unsigned_less [of x] by simp
  have "(2 :: nat) ^ k < 2 ^ 32" using assms(2) by (intro power_strict_increasing) simp_all
  then have "unat (x + (al - 1)) = unat x + (2 ^ k - 1) - 2 ^ 32"
    using False al al1 x by (simp add: unat_word_ariths le_mod_geq)
  moreover have "unat x + (2 ^ k - 1) - 2 ^ 32 < 2 ^ k"
    using x zero_less_power [of "2 :: nat" k] by linarith
  ultimately have "unat (ALIGN x al) = 0"
    using assms by (simp add: ALIGN_def and_not_mask_nat)
  then show ?thesis by (simp add: unat_eq_0)
qed (use ALIGN_ge [OF assms] in blast)

section \<open>Finding a gap\<close>

text \<open>
  What \<^verbatim>\<open>find_resource\<close> may do to the descriptor, and what it has found when it returns 0.  The
  alignment function a caller passes may only move the start.
\<close>

definition aligner :: "alignf \<Rightarrow> bool" where
  "aligner alignf \<longleftrightarrow> (\<forall>f. alignf = Some f \<longrightarrow> (\<forall>n sz al. \<exists>s. f n sz al = n\<lparr>rs_start := s\<rparr>))"

definition moved :: "resource \<Rightarrow> resource \<Rightarrow> bool" where
  "moved n n' \<longleftrightarrow> rs_name n' = rs_name n \<and> rs_flags n' = rs_flags n \<and> rs_parent n' = rs_parent n \<and>
     rs_sibling n' = rs_sibling n \<and> rs_child n' = rs_child n"

definition gap_found :: "u32 \<Rightarrow> u32 \<Rightarrow> u32 \<Rightarrow> u32 \<Rightarrow> resource \<Rightarrow> bool" where
  "gap_found sz mn mx al n \<longleftrightarrow>
     (\<exists>x e. mn \<le> x \<and> e \<le> mx \<and>
        rs_start n = ALIGN x al \<and> rs_start n < e \<and> sz - 1 \<le> e - rs_start n \<and>
        rs_end n = rs_start n + sz - 1)"

lemma moved_simps [simp]:
  "moved n n" "moved n (n'\<lparr>rs_start := s\<rparr>) = moved n n'" "moved n (n'\<lparr>rs_end := s\<rparr>) = moved n n'"
  "moved (n\<lparr>rs_start := s\<rparr>) n' = moved n n'" "moved (n\<lparr>rs_end := s\<rparr>) n' = moved n n'"
  by (auto simp: moved_def)

lemma moved_trans: "moved n n' \<Longrightarrow> moved n' n'' \<Longrightarrow> moved n n''"
  by (simp add: moved_def)

lemma fit_gap_moved: "aligner alf \<Longrightarrow> moved n (fit_gap sz mn mx al alf en n)"
proof (cases alf)
  case (Some f)
  assume "aligner alf"
  with Some have "\<exists>s. f n sz al = n\<lparr>rs_start := s\<rparr>" for n by (simp add: aligner_def)
  then have "moved m (f n sz al) = moved m n" for m n by (metis moved_simps(2))
  then show ?thesis using Some by (simp add: fit_gap_def Let_def)
qed (simp add: fit_gap_def Let_def)

lemma fit_gap_None:
  "rs_start (fit_gap sz mn mx al None en n) = ALIGN (max (rs_start n) mn) al"
  "rs_end (fit_gap sz mn mx al None en n) = min en mx"
  by (auto simp: fit_gap_def Let_def max_def min_def)

lemma gap_found_fit:
  fixes n en sz mn mx al
  defines "n' \<equiv> fit_gap sz mn mx al None en n"
  assumes "rs_start n' < rs_end n'" "rs_end n' - rs_start n' \<ge> sz - 1"
  shows "gap_found sz mn mx al (n'\<lparr>rs_end := rs_start n' + sz - 1\<rparr>)"
proof -
  have n': "rs_start n' = ALIGN (max (rs_start n) mn) al" "rs_end n' = min en mx"
    by (simp_all add: n'_def fit_gap_None)
  show ?thesis
    unfolding gap_found_def using assms(2,3) n'
    by (intro exI [of _ "max (rs_start n) mn"] exI [of _ "min en mx"]) simp
qed

lemma find_loop_spec:
  assumes r: "h a = Some r" "new \<noteq> a" and alf: "aligner alf"
  shows "forest h (Some a) lo (unat (rs_end r)) q t None \<Longrightarrow> new \<notin> set_tree t \<Longrightarrow>
    \<exists>e n'. find_loop a new sz mn mx al alf q (h(new \<mapsto> n)) = Some (Inr (e, h(new \<mapsto> n'))) \<and>
       (e = None \<or> e = Some EBUSY) \<and> moved n n' \<and>
       (e = None \<longrightarrow> alf = None \<longrightarrow> gap_found sz mn mx al n')"
proof (induction t arbitrary: lo q n)
  case Leaf
  let ?n = "fit_gap sz mn mx al alf (rs_end r) n"
  show ?case
  proof (cases "rs_start ?n < rs_end ?n \<and> rs_end ?n - rs_start ?n \<ge> sz - 1")
    case True
    then have "find_loop a new sz mn mx al alf q (h(new \<mapsto> n)) =
        Some (Inr (None, h(new \<mapsto> ?n\<lparr>rs_end := rs_start ?n + sz - 1\<rparr>)))"
      using Leaf.prems r by (subst find_loop.simps) (simp add: Let_def)
    moreover have "gap_found sz mn mx al (?n\<lparr>rs_end := rs_start ?n + sz - 1\<rparr>)" if "alf = None"
      using True that gap_found_fit by simp
    moreover have "moved n (?n\<lparr>rs_end := rs_start ?n + sz - 1\<rparr>)" using fit_gap_moved [OF alf] by simp
    ultimately show ?thesis by blast
  next
    case False
    then have "find_loop a new sz mn mx al alf q (h(new \<mapsto> n)) = Some (Inr (Some EBUSY, h(new \<mapsto> ?n)))"
      using Leaf.prems r by (subst find_loop.simps) (simp add: Let_def)
    then show ?thesis using fit_gap_moved [OF alf] by blast
  qed
next
  case (Node k b s)
  then obtain c where c: "h b = Some c" "q = Some b" "unat (rs_end c) \<le> unat (rs_end r)" "new \<noteq> b"
    and s: "forest h (Some a) (Suc (unat (rs_end c))) (unat (rs_end r)) (rs_sibling c) s None"
    by (auto split: option.splits)
  let ?n = "fit_gap sz mn mx al alf (rs_start c - 1) n"
  show ?case
  proof (cases "rs_start ?n < rs_end ?n \<and> rs_end ?n - rs_start ?n \<ge> sz - 1")
    case True
    then have "find_loop a new sz mn mx al alf q (h(new \<mapsto> n)) =
        Some (Inr (None, h(new \<mapsto> ?n\<lparr>rs_end := rs_start ?n + sz - 1\<rparr>)))"
      using c r by (subst find_loop.simps) (simp add: Let_def)
    moreover have "gap_found sz mn mx al (?n\<lparr>rs_end := rs_start ?n + sz - 1\<rparr>)" if "alf = None"
      using True that gap_found_fit by simp
    moreover have "moved n (?n\<lparr>rs_end := rs_start ?n + sz - 1\<rparr>)" using fit_gap_moved [OF alf] by simp
    ultimately show ?thesis by blast
  next
    case False
    then have "find_loop a new sz mn mx al alf q (h(new \<mapsto> n)) =
        find_loop a new sz mn mx al alf (rs_sibling c) (h(new \<mapsto> ?n\<lparr>rs_start := rs_end c + 1\<rparr>))"
      using c r by (subst find_loop.simps) (auto simp: Let_def)
    moreover have "moved n n'" if "moved (?n\<lparr>rs_start := rs_end c + 1\<rparr>) n'" for n'
      using that moved_trans [OF fit_gap_moved [OF alf]] by simp
    moreover have "new \<notin> set_tree s" using Node.prems(2) by simp
    ultimately show ?thesis
      using Node.IH(2) [OF s, of "?n\<lparr>rs_start := rs_end c + 1\<rparr>"] by metis
  qed
qed


lemma find_resource_spec:
  assumes T: "tree_at h root t" "a \<in> set_tree t" "h a = Some r"
    and new: "h new = Some n" "new \<notin> set_tree t" and alf: "aligner alf"
  shows "\<exists>e n'. find_resource a new sz mn mx al alf h = Some (Inr (e, h(new \<mapsto> n'))) \<and>
       (e = None \<or> e = Some EBUSY) \<and> moved n n' \<and>
       (e = None \<longrightarrow> alf = None \<longrightarrow> gap_found sz mn mx al n')"
proof -
  from tree_at_kids [OF T(1,2)] T(3)
  have K: "forest h (Some a) (unat (rs_start r)) (unat (rs_end r)) (rs_child r) (kids a t) None"
    and d: "set_tree (kids a t) \<subseteq> set_tree t" and le: "rs_start r \<le> rs_end r" by auto
  have na: "new \<noteq> a" using new(2) T(2) by auto
  let ?n = "n\<lparr>rs_start := rs_start r\<rparr>"
  have m: "modify h new (rs_start_update (\<lambda>_. rs_start r)) = Inr (h(new \<mapsto> ?n))"
    using new(1) by (simp add: modify_def)
  note loop = find_loop_spec [of h a r new alf, OF T(3) na alf]
  show ?thesis
  proof (cases "kids a t")
    case Leaf
    then have "rs_child r = None" using K by simp
    then have eq: "find_resource a new sz mn mx al alf h = find_loop a new sz mn mx al alf None (h(new \<mapsto> ?n))"
      using T(3) m by (simp add: find_resource_def)
    have "forest h (Some a) 0 (unat (rs_end r)) None Leaf None" "new \<notin> set_tree Leaf" by simp_all
    from loop [OF this, of sz mn mx al ?n] show ?thesis unfolding eq moved_simps .
  next
    case (Node k b s)
    with K obtain c where c: "h b = Some c" "rs_child r = Some b" "unat (rs_end c) \<le> unat (rs_end r)"
      and s: "forest h (Some a) (Suc (unat (rs_end c))) (unat (rs_end r)) (rs_sibling c) s None"
      by (auto split: option.splits)
    have nb: "new \<noteq> b" "new \<notin> set_tree s" using Node d new(2) by auto
    show ?thesis
    proof (cases "rs_start c = 0")
      case True
      let ?n' = "?n\<lparr>rs_start := rs_end c + 1\<rparr>"
      have eq: "find_resource a new sz mn mx al alf h =
          find_loop a new sz mn mx al alf (rs_sibling c) (h(new \<mapsto> ?n'))"
        using T(3) new(1) c nb True by (simp add: find_resource_def modify_def)
      from loop [OF s nb(2), of sz mn mx al ?n'] show ?thesis unfolding eq moved_simps .
    next
      case False
      then have eq: "find_resource a new sz mn mx al alf h =
          find_loop a new sz mn mx al alf (rs_child r) (h(new \<mapsto> ?n))"
        using T(3) m c nb by (simp add: find_resource_def)
      have "new \<notin> set_tree (kids a t)" using d new(2) by auto
      from loop [OF K this, of sz mn mx al ?n] show ?thesis unfolding eq moved_simps .
    qed
  qed
qed

section \<open>Allocating\<close>

lemma allocate_resource_cases:
  assumes T: "tree_at h root t" "a \<in> set_tree t" "h a = Some r"
    and new: "h new = Some n" "new \<notin> set_tree t" "rs_child n = None" and alf: "aligner alf"
  obtains (busy) n' where
      "allocate_resource a new sz mn mx al alf h = Some (Inr (Some EBUSY, h(new \<mapsto> n')))" "moved n n'"
  | (taken) n' h' t' m where
      "allocate_resource a new sz mn mx al alf h = Some (Inr (None, h'))"
      "moved n n'" "alf = None \<longrightarrow> gap_found sz mn mx al n'" "fits n' r"
      "\<forall>c\<in>set (tops (kids a t)). \<not> hits h (rs_start n') (rs_end n') c"
      "h' new = Some (n'\<lparr>rs_sibling := m, rs_parent := Some a\<rparr>)"
      "tree_at h' root t'" "set_tree t' = insert new (set_tree t)"
proof -
  from find_resource_spec [OF T new(1,2) alf, of sz mn mx al] obtain e n' where
    find: "find_resource a new sz mn mx al alf h = Some (Inr (e, h(new \<mapsto> n')))"
    and e: "e = None \<or> e = Some EBUSY" and m: "moved n n'"
    and gap: "e = None \<longrightarrow> alf = None \<longrightarrow> gap_found sz mn mx al n'" by blast
  show thesis
  proof (cases e)
    case (Some e')
    then show ?thesis using busy [OF _ m] find e by (simp add: allocate_resource_def)
  next
    case None
    define h1 where "h1 = h(new \<mapsto> n')"
    have T': "tree_at h1 root t" "a \<in> set_tree t" "h1 a = Some r"
      using T new(2) by (auto simp: h1_def intro!: tree_at_frame [OF T(1)])
    have new': "h1 new = Some n'" "new \<notin> set_tree t" "rs_child n' = None"
      using new m by (auto simp: h1_def moved_def)
    have hit: "hits h1 st en c = hits h st en c" if "c \<in> set (tops (kids a t))" for st en c
      using that kids_subset [of a t] new(2) by (auto simp: h1_def hits_def)
    have eq: "allocate_resource a new sz mn mx al alf h =
        bindR (uu_request_resource a new h1) (\<lambda>c. Some (Inr (conflict_errno c)))"
      using find None unfolding h1_def by (simp add: allocate_resource_def)
    have busy1: thesis if "allocate_resource a new sz mn mx al alf h = Some (Inr (Some EBUSY, h1))"
      using busy [OF _ m] that unfolding h1_def by blast
    from T' new' show ?thesis
    proof (cases rule: uu_request_resource_cases)
      case outside
      then show ?thesis using busy1 eq by (simp add: conflict_errno_def)
    next
      case (conflict k c s)
      then show ?thesis using busy1 eq by (simp add: conflict_errno_def)
    next
      case (linked u w m' h')
      have "h' new = Some (n'\<lparr>rs_sibling := m', rs_parent := Some a\<rparr>)" using linked(6) by simp
      then show ?thesis
        using taken [OF _ m _ linked(1) _ _ linked(7,8)] linked(2,3) eq hit gap None
        by (simp add: conflict_errno_def)
    qed
  qed
qed

lemma gap_found_range:
  assumes "gap_found sz mn mx al n" "0 < sz" "al = 2 ^ k" "k < 32"
  shows "unat (rs_end n) = unat (rs_start n) + unat sz - 1 \<and> 2 ^ k dvd unat (rs_start n) \<and>
    rs_end n \<le> mx \<and> (mn \<le> rs_start n \<or> rs_start n = 0)"
proof -
  from assms(1) obtain x e where x: "mn \<le> x" "rs_start n = ALIGN x al" and e: "e \<le> mx" "rs_start n < e" "sz - 1 \<le> e - rs_start n"
      "rs_end n = rs_start n + sz - 1"
    by (auto simp: gap_found_def)
  have "sz \<noteq> 0" using assms(2) by auto
  then have sz: "unat (sz - 1) = unat sz - 1" "0 < unat sz" by (simp_all add: unat_minus_one unat_gt_0)
  have "unat (e - rs_start n) = unat e - unat (rs_start n)"
    using e(2) by (simp add: unat_sub order.strict_implies_order)
  then have le: "unat (rs_start n) + unat (sz - 1) \<le> unat e"
    using e(2,3) by (simp add: word_le_nat_alt word_less_nat_alt)
  moreover have "unat e < 2 ^ 32" using unsigned_less [of e] by simp
  ultimately have "unat (rs_start n + (sz - 1)) = unat (rs_start n) + unat (sz - 1)"
    by (subst unat_add_lem [THEN iffD1]) simp_all
  moreover have "rs_end n = rs_start n + (sz - 1)" using e(4) by (simp add: add_diff_eq)
  ultimately have en: "unat (rs_end n) = unat (rs_start n) + unat sz - 1" using sz by simp
  then have "rs_end n \<le> mx" using le e(1) sz by (simp add: word_le_nat_alt)
  moreover have "mn \<le> rs_start n \<or> rs_start n = 0"
    using ALIGN_cases [OF assms(3,4), of x] x by auto
  ultimately show ?thesis using en ALIGN_dvd [OF assms(3,4), of x] x(2) by simp
qed

text \<open>
  C9: an allocation of \<open>sz\<close> bytes, not 0, aligned to a power of two \<open>2 ^ k\<close>, without an alignment
  function of the caller, from any resource of a well-formed tree always returns.  When it
  succeeds, the descriptor is a new child of that resource: its range has exactly \<open>sz\<close> bytes
  without wrap-around, is aligned, ends at or below the maximum, lies within the resource and
  overlaps none of its other children, and the tree is well formed; the range starts at or
  above the minimum, or at address 0, which is where rounding up ends when it overflows.
  When the allocation fails, nothing but the descriptor changes.
\<close>

theorem allocate_resource_bounds:
  assumes "tree_at h root t" "a \<in> set_tree t" "h a = Some r"
    and "h new = Some n" "new \<notin> set_tree t" "rs_child n = None" "0 < sz" "k < 32"
  shows "\<exists>e h'. allocate_resource a new sz mn mx (2 ^ k) None h = Some (Inr (e, h')) \<and>
    (case e of
       Some _ \<Rightarrow> tree_at h' root t \<and> (\<forall>x. x \<noteq> new \<longrightarrow> h' x = h x)
     | None \<Rightarrow> \<exists>n' t'. h' new = Some n' \<and> tree_at h' root t' \<and> set_tree t' = insert new (set_tree t) \<and>
         rs_parent n' = Some a \<and> unat (rs_end n') = unat (rs_start n') + unat sz - 1 \<and>
         2 ^ k dvd unat (rs_start n') \<and> rs_end n' \<le> mx \<and> fits n' r \<and>
         (\<forall>c\<in>set (tops (kids a t)). \<not> hits h (rs_start n') (rs_end n') c) \<and>
         (mn \<le> rs_start n' \<or> rs_start n' = 0))"
proof -
  have "aligner None" by (simp add: aligner_def)
  with assms(1-6) show ?thesis
  proof (cases rule: allocate_resource_cases [where sz = sz and mn = mn and mx = mx and al = "2 ^ k"])
    case (busy n')
    have "tree_at (h(new \<mapsto> n')) root t" using assms(5) by (intro tree_at_frame [OF assms(1)]) auto
    then show ?thesis using busy(1) by (intro exI conjI) auto
  next
    case (taken n' h' t' m)
    then have "gap_found sz mn mx (2 ^ k) n'" by simp
    from gap_found_range [OF this assms(7) refl assms(8)] taken show ?thesis
      by (intro exI [of _ None] exI [of _ h'] conjI) (auto simp: fits_def)
  qed
qed

definition spare :: heap where
  "spare = ports(9 \<mapsto> resource_zero)"

theorem allocate_resource_bounds_witness:
  "\<exists>h' n'. allocate_resource 1 9 16 0x120 0x1FF (2 ^ 4) None spare = Some (Inr (None, h')) \<and>
     h' 9 = Some n' \<and> unat (rs_end n') = unat (rs_start n') + 15 \<and> 16 dvd unat (rs_start n') \<and>
     0x120 \<le> rs_start n' \<and> rs_end n' \<le> 0x1FF"
proof -
  define t where "t = Node (Node (Node Leaf 2 Leaf) 1 Leaf) (0 :: nat) Leaf"
  have T: "tree_at spare 0 t"
    using ports_tree tree_at_frame [of ports 0 t spare] by (simp add: spare_def t_def)
  have "\<exists>h'. allocate_resource 1 9 16 0x120 0x1FF 16 None spare = Some (Inr (None, h'))"
    by (simp add: allocate_resource_def find_resource_def find_loop.simps fit_gap_def ALIGN_def
        uu_request_resource_def request_loop.simps link_def modify_def deref_def Let_def spare_def
        ports_def iomem_resource_def resource_zero_def region_def conflict_errno_def cong: bindR_weak_cong)
  then obtain h' where h': "allocate_resource 1 9 16 0x120 0x1FF (2 ^ 4) None spare = Some (Inr (None, h'))"
    by auto
  obtain r where r: "spare 1 = Some r" "rs_start r = 0x100"
    by (auto simp: spare_def ports_def)
  have "(1 :: nat) \<in> set_tree t" "spare 9 = Some resource_zero" "9 \<notin> set_tree t" "rs_child resource_zero = None"
    "(0 :: u32) < 16" "(4 :: nat) < 32"
    by (simp_all add: t_def spare_def resource_zero_def)
  from allocate_resource_bounds [OF T this(1) r(1) this(2-), of "0x120" "0x1FF"] h'
  obtain n' where n': "h' 9 = Some n'" "unat (rs_end n') = unat (rs_start n') + unat (16 :: u32) - 1"
    "2 ^ 4 dvd unat (rs_start n')" "rs_end n' \<le> 0x1FF" "fits n' r" "0x120 \<le> rs_start n' \<or> rs_start n' = 0"
    by auto
  from n'(5,6) r(2) have "0x120 \<le> rs_start n'" by (auto simp: fits_def)
  with n' h' show ?thesis by auto
qed


section \<open>Changing a range in place\<close>

lemma children_within_spec:
  "forest h par lo hi p t None \<Longrightarrow>
   \<exists>b. children_within st en p h = Some (Inr b) \<and>
     (b \<longrightarrow> (\<forall>c\<in>set (tops t). \<forall>r. h c = Some r \<longrightarrow> st \<le> rs_start r \<and> rs_end r \<le> en))"
proof (induction t arbitrary: lo p)
  case Leaf
  then have "children_within st en p h = Some (Inr True)" by (subst children_within.simps) simp
  then show ?case by auto
next
  case (Node k a s)
  then obtain r where r: "h a = Some r" "p = Some a"
    and s: "forest h par (Suc (unat (rs_end r))) hi (rs_sibling r) s None"
    by (auto split: option.splits)
  from Node.IH(2) [OF s] r show ?case by (subst children_within.simps) (auto simp: not_less)
qed

lemma before_loop_spec:
  "forest h par lo hi q u (Some x) \<Longrightarrow> u \<noteq> Leaf \<Longrightarrow> x \<notin> set (tops u) \<Longrightarrow>
   \<exists>z rz. before_loop x q h = Some (Inr z) \<and> endslot p u = Sibling_of z \<and> z \<in> set (tops u) \<and>
     h z = Some rz \<and> reach h lo u = Suc (unat (rs_end rz))"
proof (induction u arbitrary: lo q p)
  case (Node k a s)
  then obtain r where r: "h a = Some r" "q = Some a"
    and s: "forest h par (Suc (unat (rs_end r))) hi (rs_sibling r) s (Some x)"
    by (auto split: option.splits)
  show ?case
  proof (cases "s = Leaf")
    case True
    then show ?thesis using r s by (subst before_loop.simps) (simp add: deref_ptr_def)
  next
    case False
    with s Node.prems(3) have "rs_sibling r \<noteq> Some x" by (cases s) auto
    then have "before_loop x q h = before_loop x (rs_sibling r) h"
      using r by (subst before_loop.simps) (simp add: deref_ptr_def)
    with Node.IH(2) [OF s False, of "Sibling_of a"] Node.prems(3) r show ?thesis by auto
  qed
qed simp

lemma forest_rebound:
  "forest h par lo hi p t e \<Longrightarrow>
   \<forall>c\<in>set (tops t). \<forall>r. h c = Some r \<longrightarrow> lo' \<le> unat (rs_start r) \<and> unat (rs_end r) \<le> hi' \<Longrightarrow>
   forest h par lo' hi' p t e"
proof (induction t arbitrary: lo lo' p)
  case (Node k a s)
  then obtain r where r: "h a = Some r" "p = Some a" "rs_parent r = par" "rs_start r \<le> rs_end r"
    and k: "forest h (Some a) (unat (rs_start r)) (unat (rs_end r)) (rs_child r) k None"
    and s: "forest h par (Suc (unat (rs_end r))) hi (rs_sibling r) s e"
    by (auto split: option.splits)
  have "\<forall>c\<in>set (tops s). \<forall>z. h c = Some z \<longrightarrow> Suc (unat (rs_end r)) \<le> unat (rs_start z) \<and> unat (rs_end z) \<le> hi'"
    using forest_top [OF s] Node.prems(2) by fastforce
  from Node.IH(2) [OF s this] r k Node.prems(2) show ?case by simp
qed simp


lemma regrow_kids: "regrow a (kids a t) t = t"
  by (induction t) auto

text \<open>Giving a node a range that its children, its neighbours and its parent leave room for.\<close>

lemma tree_new_range:
  assumes T: "tree_at h root t" "q \<in> set_tree t" "h q = Some rq" "kids q t = join u (Node k x s)" "h x = Some r"
    and st: "st \<le> en" "reach h (unat (rs_start rq)) u \<le> unat st" "en \<le> rs_end rq"
    and k: "\<forall>c\<in>set (tops k). \<forall>z. h c = Some z \<longrightarrow> st \<le> rs_start z \<and> rs_end z \<le> en"
    and s: "\<forall>c\<in>set (tops s). \<forall>z. h c = Some z \<longrightarrow> en < rs_start z"
  shows "tree_at (h(x \<mapsto> r\<lparr>rs_start := st, rs_end := en\<rparr>)) root t"
proof -
  define h' where "h' = h(x \<mapsto> r\<lparr>rs_start := st, rs_end := en\<rparr>)"
  let ?S = "unat (rs_start rq)" and ?E = "unat (rs_end rq)" and ?p = "endslot (Child_of q) u"
  from tree_at_kids [OF T(1,2)] T(3,4)
  have f: "forest h (Some q) ?S ?E (rs_child rq) (join u (Node k x s)) None"
    and d: "distinct (preorder (join u (Node k x s)))" "q \<notin> set_tree (join u (Node k x s))"
      "set_tree (join u (Node k x s)) \<subseteq> set_tree t"
    by auto
  have dis: "x \<notin> set_tree k" "x \<notin> set_tree s" "distinct (preorder (Node k x s))"
    using d(1) by (auto simp flip: set_preorder)
  have fu: "forest h (Some q) ?S ?E (rs_child rq) u (Some x)" and par: "rs_parent r = Some q"
    and fk: "forest h (Some x) (unat (rs_start r)) (unat (rs_end r)) (rs_child r) k None"
    and fs: "forest h (Some q) (Suc (unat (rs_end r))) ?E (rs_sibling r) s None"
    using f T(5) by (auto simp: forest_join)
  have "forest h (Some x) (unat st) (unat en) (rs_child r) k None"
    using k by (intro forest_rebound [OF fk]) (simp add: word_le_nat_alt)
  then have fk': "forest h' (Some x) (unat st) (unat en) (rs_child r) k None"
    using dis(1) by (subst forest_frame [of _ _ h]) (auto simp: h'_def)
  have "forest h (Some q) (Suc (unat en)) ?E (rs_sibling r) s None"
    using s forest_top [OF fs] by (intro forest_rebound [OF fs]) (fastforce simp: word_less_nat_alt)
  then have fs': "forest h' (Some q) (Suc (unat en)) ?E (rs_sibling r) s None"
    using dis(2) by (subst forest_frame [of _ _ h]) (auto simp: h'_def)
  have "forest h' (Some q) (reach h ?S u) ?E (Some x) (Node k x s) None"
    using fk' fs' st par by (simp add: h'_def word_le_nat_alt)
  moreover have "load h ?p = Inr (Some x)" using load_endslot [OF fu] T(3) by simp
  then have "\<forall>y\<in>set_tree t - set_tree (Node k x s). h' y = put h ?p (Some x) y"
    using put_load by (auto simp: h'_def)
  moreover have "set_tree (Node k x s) \<inter> (set_tree t - set_tree (Node k x s)) = {}" by blast
  ultimately have "tree_at h' root (regrow q (join u (Node k x s)) t)"
    using tree_replace_rest [OF T(1-4)] dis(3) by blast
  then show ?thesis using regrow_kids [of q t] T(4) by (simp add: h'_def)
qed

lemma adjust_resource_cases:
  assumes T: "tree_at h root t" "x \<in> set_tree t" "x \<noteq> root" and nowrap: "st \<le> st + sz - 1"
  obtains (busy) "adjust_resource x st sz h = Some (Inr (Some EBUSY, h))"
  | (adjusted) r where "h x = Some r"
      "adjust_resource x st sz h = Some (Inr (None, h(x \<mapsto> r\<lparr>rs_start := st, rs_end := st + sz - 1\<rparr>)))"
      "tree_at (h(x \<mapsto> r\<lparr>rs_start := st, rs_end := st + sz - 1\<rparr>)) root t"
proof -
  define en where "en = st + sz - 1"
  from tree_at_parent [OF T] obtain r q where r: "h x = Some r" "q \<in> set_tree t"
    "rs_parent r = Some q" "x \<in> set (tops (kids q t))" .
  from split_at_top [OF r(4)] obtain u k s where K: "kids q t = join u (Node k x s)" by blast
  from tree_at_kids [OF T(1) r(2)] K obtain rq where q: "h q = Some rq"
    and f: "forest h (Some q) (unat (rs_start rq)) (unat (rs_end rq)) (rs_child rq) (join u (Node k x s)) None"
    and d: "distinct (preorder (join u (Node k x s)))" by metis
  have xu: "x \<notin> set (tops u)" using d tops_set [of u] by (auto simp flip: set_preorder)
  have fu: "forest h (Some q) (unat (rs_start rq)) (unat (rs_end rq)) (rs_child rq) u (Some x)"
    and fk: "forest h (Some x) (unat (rs_start r)) (unat (rs_end r)) (rs_child r) k None"
    and fs: "forest h (Some q) (Suc (unat (rs_end r))) (unat (rs_end rq)) (rs_sibling r) s None"
    using f r(1) by (auto simp: forest_join)
  from children_within_spec [OF fk, of st en] obtain b1 where
    b1: "children_within st en (rs_child r) h = Some (Inr b1)"
      "b1 \<longrightarrow> (\<forall>c\<in>set (tops k). \<forall>z. h c = Some z \<longrightarrow> st \<le> rs_start z \<and> rs_end z \<le> en)" by blast
  obtain b2 where b2: "(case rs_sibling r of None \<Rightarrow> Inr False
      | Some y \<Rightarrow> bindE (deref h y) (\<lambda>sr. Inr (rs_start sr \<le> en))) = Inr b2"
      "\<not> b2 \<longrightarrow> (\<forall>c\<in>set (tops s). \<forall>z. h c = Some z \<longrightarrow> en < rs_start z)"
  proof (cases s)
    case Leaf
    then show thesis using fs that [of False] by simp
  next
    case (Node k' y s')
    with fs obtain ry where y: "h y = Some ry" "rs_sibling r = Some y" "rs_start ry \<le> rs_end ry"
      and fs': "forest h (Some q) (Suc (unat (rs_end ry))) (unat (rs_end rq)) (rs_sibling ry) s' None"
      by (auto split: option.splits)
    have "en < rs_start z" if "en < rs_start ry" "c \<in> set (tops s)" "h c = Some z" for c z
      using that y Node forest_top [OF fs', of c] by (auto simp: word_less_nat_alt word_le_nat_alt)
    then show thesis using y that [of "rs_start ry \<le> en"] by (simp add: not_le)
  qed
  obtain b3 where b3: "(if rs_child rq = Some x then Some (Inr False)
      else bindR (before_loop x (rs_child rq) h) (\<lambda>t.
           bindR (Some (deref h t)) (\<lambda>tr. Some (Inr (st \<le> rs_end tr))))) = Some (Inr b3)"
      "\<not> b3 \<longrightarrow> u = Leaf \<or> reach h (unat (rs_start rq)) u \<le> unat st"
  proof (cases "u = Leaf")
    case True
    then show thesis using fu that [of False] by simp
  next
    case False
    then have "rs_child rq \<noteq> Some x" using fu xu by (cases u) auto
    moreover from before_loop_spec [OF fu False xu, of "Child_of q"] obtain z rz where
      "before_loop x (rs_child rq) h = Some (Inr z)" "h z = Some rz"
      "reach h (unat (rs_start rq)) u = Suc (unat (rs_end rz))" by blast
    ultimately show thesis using that [of "st \<le> rs_end rz"] by (simp add: not_le word_less_nat_alt)
  qed
  show thesis
  proof (cases "st < rs_start rq \<or> rs_end rq < en \<or> \<not> b1 \<or> b2 \<or> b3")
    case True
    then have "adjust_resource x st sz h = Some (Inr (Some EBUSY, h))"
      using r q b1(1) b2(1) b3(1)
      by (auto simp: adjust_resource_def deref_ptr_def Let_def en_def [symmetric])
    then show ?thesis by (rule busy)
  next
    case False
    then have "adjust_resource x st sz h = Some (Inr (None, h(x \<mapsto> r\<lparr>rs_start := st, rs_end := en\<rparr>)))"
      using r q b1(1) b2(1) b3(1)
      by (auto simp: adjust_resource_def deref_ptr_def Let_def en_def [symmetric])
    moreover have "reach h (unat (rs_start rq)) u \<le> unat st"
      using b3(2) False by (auto simp: word_less_nat_alt not_less)
    then have "tree_at (h(x \<mapsto> r\<lparr>rs_start := st, rs_end := en\<rparr>)) root t"
      using tree_new_range [OF T(1) r(2) q K r(1)] nowrap b1(2) b2(2) False by (simp add: en_def not_less)
    ultimately show ?thesis using adjusted r(1) by (simp add: en_def)
  qed
qed

end
