(* ===== verification/Spec2Isabelle.thy ===== *)
theory Spec2Isabelle
  imports Kfifo Nlattr_Put Sk_Filter Cred_Safe Resource_Alloc
begin

text \<open>
  A verification library for parts of the Linux kernel 2.6.32.9 as it is built for the
  Samsung I5700 (\<^verbatim>\<open>src/Kernel\<close>, configuration \<^verbatim>\<open>r880_tom3q_defconfig\<close>: a 32-bit
  little-endian ARM, one processor, no kernel preemption, no security module, no file
  capabilities, Android network groups).

  \<^bold>\<open>The parts and how they interact.\<close>  The library covers machinery that other code of the
  kernel relies on without looking inside, and whose correctness is a matter of
  arithmetic, ordering or bookkeeping:

  \<^item> Byte queues.  \<open>Kfifo\<close> models \<^verbatim>\<open>kernel/kfifo.c\<close> and \<^verbatim>\<open>include/linux/kfifo.h\<close>: \<^verbatim>\<open>struct kfifo\<close>
    is the record \<open>kfifo\<close>, whose two free-running 32-bit indices wrap around.  One definition
    per function; \<open>spsc_step\<close> interleaves one writer and one reader at every sampling and
    publication of an index and at every single byte of the copies.

  \<^item> Packets.  \<open>Skbuff\<close> models the geometry of \<^verbatim>\<open>struct sk_buff\<close> and the functions of
    \<^verbatim>\<open>net/core/skbuff.c\<close> and \<^verbatim>\<open>include/linux/skbuff.h\<close> that read across it and edit its linear
    part.

  \<^item> Netlink attributes.  \<open>Nlattr\<close> (walking, validating, parsing, copying out) and
    \<open>Nlattr_Put\<close> (writing into a packet of \<open>Skbuff\<close>) model \<^verbatim>\<open>lib/nlattr.c\<close> and the inline
    functions of \<^verbatim>\<open>include/net/netlink.h\<close>.

  \<^item> Socket filters.  \<open>Bpf\<close> models the interpreter \<^verbatim>\<open>sk_run_filter\<close> and the checker
    \<^verbatim>\<open>sk_chk_filter\<close> of \<^verbatim>\<open>net/core/filter.c\<close>, which read packets through \<open>Skbuff\<close> and search
    attributes through \<open>Nlattr\<close>; \<open>Bpf_Safe\<close> proves what the checker guarantees about the
    interpreter; \<open>Sk_Filter\<close> models how filters are attached to sockets, shared with cloned
    sockets, accounted and released (\<^verbatim>\<open>net/core/filter.c\<close>, \<^verbatim>\<open>net/core/sock.c\<close>), beside
    the other users of a socket's option memory.

  \<^item> Credentials.  \<open>Capability\<close> models the capability sets of \<^verbatim>\<open>include/linux/capability.h\<close>,
    \<open>Group_Info\<close> the group lists of \<^verbatim>\<open>kernel/groups.c\<close>, \<open>Cred\<close> the calls that change
    credentials (\<^verbatim>\<open>kernel/sys.c\<close>, \<^verbatim>\<open>kernel/capability.c\<close>, \<^verbatim>\<open>kernel/cred.c\<close>,
    \<^verbatim>\<open>security/commoncap.c\<close>), \<open>Exec_Cred\<close> what \<^verbatim>\<open>execve\<close>, \<^verbatim>\<open>fork\<close> and the checks between tasks
    do with them (\<^verbatim>\<open>fs/exec.c\<close>, \<^verbatim>\<open>kernel/fork.c\<close>, \<^verbatim>\<open>kernel/ptrace.c\<close>, \<^verbatim>\<open>kernel/signal.c\<close>), with
    the step relation of all calls together; \<open>Cred_Safe\<close> proves their properties.

  \<^item> Resource trees.  \<open>Resource\<close> models \<^verbatim>\<open>kernel/resource.c\<close>, which records who owns which range of
    ports or physical addresses.  Descriptors (\<^verbatim>\<open>struct resource\<close>) live in an explicit store, and
    a pointer to a pointer is a slot, because the operations relink parent, sibling and
    child pointers.  \<open>Resource_Tree\<close> relates the store to trees, \<open>Resource_Ops\<close> treats requesting
    and releasing, \<open>Resource_Region\<close> and \<open>Resource_Busy\<close> the regions of drivers, \<open>Resource_Alloc\<close>
    allocation and adjustment.

  \<^bold>\<open>How code becomes definitions.\<close>  A structure is a record, a switch over codes a datatype,
  a function a definition of the same name (\<open>uu_\<close> stands for two leading underscores), and a
  loop a recursive function.  Machine integers are words of their width, so wrap-around is
  that of the code; a C \<^verbatim>\<open>int\<close> whose overflow is excluded by a bound is an integer.  A
  function that can fail returns \<^typ>\<open>errno + 'a\<close>, one that can crash \<^typ>\<open>crash + 'a\<close>
  (a failed \<^verbatim>\<open>BUG_ON\<close>, an access outside an object, a null or dangling pointer, a list node
  queued twice, a division by zero, an undefined shift).  What the environment decides is an argument: whether an
  allocation succeeds, what user memory holds, what a file system returns, how far the
  loading of a program gets.  \<open>Prelude\<close> holds
  this vocabulary, the facts on lists and words that several components use, and the
  interface \<open>step_invariant\<close> that every state machine of the library interprets.

  \<^bold>\<open>What the lemmas show.\<close>

  \<^item> \<open>Kfifo\<close>: the buffer refines a list; one reader and one writer need no lock; allocation
    gives the next power of two; the table of \<^verbatim>\<open>constant_fls\<close> agrees with the loop.

  \<^item> \<open>Skbuff\<close>: reading at an offset is reading the flattened packet, whatever mixture of
    linear part, fragments and packet list holds it; pull and push edit the linear part of any
    packet, put and trim that of linear ones.

  \<^item> \<open>Nlattr\<close>, \<open>Nlattr_Put\<close>: a parsed table only holds attributes that satisfy the policy; what
    \<^verbatim>\<open>nla_put\<close> writes is what \<^verbatim>\<open>nla_find\<close> and \<^verbatim>\<open>nla_memcpy\<close> read back.

  \<^item> \<open>Bpf_Safe\<close>: a checked program ends within one step per instruction, never leaves the
    program, never divides by zero; plain programs never crash at all; and the
    instructions by which a checked program still can (four defects) are shown to do so.

  \<^item> \<open>Sk_Filter\<close>: over every sequence of operations a filter is freed exactly when nothing
    refers to it and not used after that; failed calls leave sockets and accounting as they
    were.  Sockets that share a filter can queue its release twice, which is shown on an
    example.

  \<^item> \<open>Group_Info\<close>: the Shell sort sorts and keeps the groups, the binary search finds exactly
    the members of a sorted list whose numbers lie within 2 to the 31 of each other, and
    misses members otherwise.

  \<^item> \<open>Cred_Safe\<close>: process counts are exact, capabilities outside a task's sets are never
    regained, dropped privileges stay dropped, unsafe program starts gain nothing, failed
    calls change nothing (a program start that fails after the new credentials are installed
    excepted), tracing is guarded.

  \<^item> \<open>Resource_Tree\<close> to \<open>Resource_Alloc\<close>: the siblings below a resource are ordered and
    disjoint and lie within it, and every operation treated keeps that; a granted region
    overlaps no other busy resource, over any sequence of calls; releasing a region restores the store exactly;
    allocations have the size, alignment and bounds asked for, except that rounding up can
    overflow to address 0, below the minimum, which is shown on an example.

  \<^bold>\<open>Loops and bounds.\<close>  No model has artificial fuel.  Loops over data are structural or come
  with a termination measure; \<^verbatim>\<open>sk_run_filter\<close> runs for as many steps as it is given, and the
  theorem is that the length of the program is enough; loops whose end is a theorem about
  the data (\<^verbatim>\<open>groups_sort\<close>, the walks of \<^verbatim>\<open>kernel/resource.c\<close>) are partial functions into \<^typ>\<open>'a option\<close>, where \<^term>\<open>None\<close> is a run
  that does not end, and the theorems state that they end.

  \<^bold>\<open>Not modelled.\<close>  Locks and interrupt masking appear only through the atomicity they give
  (calls of one component are single steps; \<open>spsc_step\<close> is the exception).  Reference counts
  of credentials and group lists are left out, because the objects are values of the
  model.  Paged trimming, cloning and checksums of packets are left out, as are the
  loading of programs in \<^verbatim>\<open>execve\<close> and its handling of scripts, signal delivery, and tracing beyond its permission check.
  The boot options of \<^verbatim>\<open>kernel/resource.c\<close> are strings parsed once and are left out.
  Device drivers, architecture code, file systems, memory management, the scheduler, the
  protocol stacks, sound, cryptography and build tools are outside the library: their
  behaviour is that of hardware, of assembly code, or of whole subsystems whose data
  structures share no interface with the parts above.
\<close>

end
